(* ===== verification/Prelude.thy ===== *)
theory Prelude
  imports Main "HOL-Library.Word"
begin

text \<open>
  Shared vocabulary of the mzani development: the machine types of the Rust sources, the
  \<open>?\<close> operator on results, the same operator for operations on a stream that may block
  for ever, saturating arithmetic, and the list facts the components share.

  A Rust \<open>Result<T, E>\<close> is the sum \<open>'e + 'a\<close> with \<open>Inl\<close> for \<open>Err\<close>. An operation on a
  reader of type \<open>'s\<close> returns its result together with the reader it leaves behind, inside
  an option: \<open>None\<close> means that the loop never returns. Every loop over a reader is proved
  to return for the readers the program uses.
\<close>

section \<open>Machine types\<close>

type_synonym byte = "8 word"
type_synonym bytes = "byte list"

text \<open>A \<open>String\<close> is the list of its Unicode scalar values.\<close>

type_synonym rchar = nat
type_synonym str = "rchar list"

type_synonym u16 = "16 word"
type_synonym u32 = "32 word"
type_synonym u64 = "64 word"

text \<open>A \<open>Duration\<close> is its number of nanoseconds; an \<open>Instant\<close> likewise.\<close>

type_synonym duration = nat
type_synonym instant = nat

definition as_millis :: "duration \<Rightarrow> nat" where
  "as_millis d = d div 1000000"

definition from_secs :: "nat \<Rightarrow> duration" where
  "from_secs n = n * 1000000000"

definition from_millis :: "nat \<Rightarrow> duration" where
  "from_millis n = n * 1000000"

text \<open>String and byte-string literals.\<close>

abbreviation lit :: "string \<Rightarrow> str" where
  "lit s \<equiv> map of_char s"

abbreviation blit :: "string \<Rightarrow> bytes" where
  "blit s \<equiv> map of_char s"

section \<open>Machine arithmetic\<close>

text \<open>Lengths of buffers are natural numbers; \<open>usize\<close> has 64 bits.\<close>

definition usize_bound :: nat where
  "usize_bound = 2 ^ 64"

definition usize_saturating_add :: "nat \<Rightarrow> nat \<Rightarrow> nat" where
  "usize_saturating_add a b = min (a + b) (usize_bound - 1)"

definition u32_saturating_add1 :: "u32 \<Rightarrow> u32" where
  "u32_saturating_add1 a = (if a = - 1 then a else a + 1)"

lemma usize_saturating_add_gt:
  "m < usize_bound - 1 \<Longrightarrow> m < usize_saturating_add a b \<longleftrightarrow> m < a + b"
  by (auto simp: usize_saturating_add_def)

lemma unat_u32_saturating_add1:
  "unat (u32_saturating_add1 a) = min (unat a + 1) (2 ^ 32 - 1)"
proof (cases "a = - 1")
  case True
  then show ?thesis by (simp add: u32_saturating_add1_def unsigned_minus_1_eq_mask mask_eq_exp_minus_1)
next
  case False
  then have "1 + a \<noteq> 0" by (metis add.commute eq_neg_iff_add_eq_0)
  then have u: "unat (a + 1) = Suc (unat a)" by (simp add: unatSuc add.commute)
  have "unat (a + 1) < 2 ^ 32" using unsigned_less [of "a + 1"] by simp
  with u False show ?thesis by (simp add: u32_saturating_add1_def)
qed

section \<open>Results\<close>

named_theorems result_simps

text \<open>The \<open>?\<close> operator, \<open>Option::ok_or_else\<close> and \<open>Result::map_err\<close>.\<close>

fun and_then :: "'e + 'a \<Rightarrow> ('a \<Rightarrow> 'e + 'b) \<Rightarrow> 'e + 'b" where
  "and_then (Inl e) f = Inl e"
| "and_then (Inr x) f = f x"

fun ok_or :: "'e \<Rightarrow> 'a option \<Rightarrow> 'e + 'a" where
  "ok_or e None = Inl e"
| "ok_or e (Some x) = Inr x"

fun map_err :: "('e \<Rightarrow> 'f) \<Rightarrow> 'e + 'a \<Rightarrow> 'f + 'a" where
  "map_err f (Inl e) = Inl (f e)"
| "map_err f (Inr x) = Inr x"

lemma and_then_Inr [result_simps]:
  "and_then r f = Inr y \<longleftrightarrow> (\<exists>x. r = Inr x \<and> f x = Inr y)"
  by (cases r) auto

lemma and_then_Inl [result_simps]:
  "and_then r f = Inl e \<longleftrightarrow> r = Inl e \<or> (\<exists>x. r = Inr x \<and> f x = Inl e)"
  by (cases r) auto

lemma ok_or_Inr [result_simps]: "ok_or e x = Inr y \<longleftrightarrow> x = Some y"
  by (cases x) auto

lemma ok_or_Inl [result_simps]: "ok_or e x = Inl e' \<longleftrightarrow> x = None \<and> e = e'"
  by (cases x) auto

lemma map_err_Inr [result_simps]: "map_err f r = Inr y \<longleftrightarrow> r = Inr y"
  by (cases r) auto

lemma map_err_Inl [result_simps]: "map_err f r = Inl e \<longleftrightarrow> (\<exists>d. r = Inl d \<and> e = f d)"
  by (cases r) auto

section \<open>Results of operations on a reader\<close>

text \<open>
  \<open>io_try conv m f\<close> is \<open>m?\<close> followed by \<open>f\<close>, where \<open>conv\<close> is the \<open>From\<close> conversion of
  the error. It is monotone in the continuation, so loops written with it are accepted by
  \<^theory_text>\<open>partial_function\<close>.
\<close>

type_synonym ('e, 'a, 's) io = "(('e + 'a) \<times> 's) option"

definition io_try :: "('e \<Rightarrow> 'f) \<Rightarrow> ('e, 'a, 's) io \<Rightarrow> ('a \<Rightarrow> 's \<Rightarrow> ('f, 'b, 's) io) \<Rightarrow> ('f, 'b, 's) io" where
  "io_try conv m f =
     (case m of None \<Rightarrow> None
      | Some (r, s) \<Rightarrow> (case r of Inl e \<Rightarrow> Some (Inl (conv e), s) | Inr x \<Rightarrow> f x s))"

lemma io_try_mono [partial_function_mono]:
  assumes "\<And>x s. mono_option (\<lambda>g. C x s g)"
  shows "mono_option (\<lambda>g. io_try conv m (\<lambda>x s. C x s g))"
  unfolding io_try_def
  by (rule monotoneI) (use assms in \<open>auto simp: flat_ord_def monotone_def split: option.splits sum.splits\<close>)

lemma io_try_simps [simp]:
  "io_try conv None f = None"
  "io_try conv (Some (Inl e, s)) f = Some (Inl (conv e), s)"
  "io_try conv (Some (Inr x, s)) f = f x s"
  by (simp_all add: io_try_def)

lemma io_try_Inr [result_simps]:
  "io_try conv m f = Some (Inr y, t) \<longleftrightarrow> (\<exists>x s. m = Some (Inr x, s) \<and> f x s = Some (Inr y, t))"
  by (auto simp: io_try_def split: option.splits sum.splits prod.splits)

lemma io_try_returns:
  assumes "\<exists>r s. m = Some (r, s)" and "\<And>x s. m = Some (Inr x, s) \<Longrightarrow> \<exists>r t. f x s = Some (r, t)"
  shows "\<exists>r t. io_try conv m f = Some (r, t)"
  using assms by (auto simp: io_try_def split: sum.splits)

section \<open>Lists\<close>

lemma list_all_dropWhile: "list_all P xs \<Longrightarrow> list_all P (dropWhile Q xs)"
  by (induction xs) auto

lemma takeWhile_eq_all: "list_all P xs \<Longrightarrow> takeWhile P xs = xs"
  by (induction xs) auto

lemma dropWhile_id: "xs = [] \<or> \<not> P (hd xs) \<Longrightarrow> dropWhile P xs = xs"
  by (cases xs) auto

lemma drop_take_drop: "drop i xs = take k (drop i xs) @ drop (i + k) xs"
  by (metis append_take_drop_id drop_drop add.commute)

lemma find_Some_first:
  "find P xs = Some x \<Longrightarrow> \<exists>ys zs. xs = ys @ x # zs \<and> P x \<and> (\<forall>y\<in>set ys. \<not> P y)"
proof (induction xs)
  case Nil
  then show ?case by simp
next
  case (Cons a xs)
  show ?case
  proof (cases "P a")
    case True
    with Cons.prems show ?thesis by (intro exI [of _ "[]"] exI [of _ xs]) simp
  next
    case False
    with Cons.prems have "find P xs = Some x" by simp
    with Cons.IH obtain ys zs where "xs = ys @ x # zs" "P x" "\<forall>y\<in>set ys. \<not> P y" by blast
    with False show ?thesis by (intro exI [of _ "a # ys"] exI [of _ zs]) simp
  qed
qed

end
