(* ===== verification/Rust_Str.thy ===== *)
theory Rust_Str
  imports Prelude
begin

text \<open>
  The part of Rust's standard string library that the sources call: \<open>str::from_utf8\<close> and
  \<open>String::into_bytes\<close>, splitting, trimming, ASCII case, decimal and hexadecimal integers.
  Strings are lists of Unicode scalar values. The round trips proved here (decoding then
  encoding, printing then parsing) are what the HTTP components build on.
\<close>

section \<open>UTF-8\<close>

definition utf8_cont :: "byte \<Rightarrow> bool" where
  "utf8_cont b \<longleftrightarrow> 128 \<le> unat b \<and> unat b < 192"

definition utf8_second3 :: "byte \<Rightarrow> byte \<Rightarrow> bool" where
  "utf8_second3 a b \<longleftrightarrow>
     (if unat a = 224 then 160 \<le> unat b \<and> unat b < 192
      else if unat a = 237 then 128 \<le> unat b \<and> unat b < 160
      else utf8_cont b)"

definition utf8_second4 :: "byte \<Rightarrow> byte \<Rightarrow> bool" where
  "utf8_second4 a b \<longleftrightarrow>
     (if unat a = 240 then 144 \<le> unat b \<and> unat b < 192
      else if unat a = 244 then 128 \<le> unat b \<and> unat b < 144
      else utf8_cont b)"

text \<open>\<open>str::from_utf8\<close>: \<open>None\<close> for \<open>Err\<close>.\<close>

fun from_utf8 :: "bytes \<Rightarrow> str option" where
  "from_utf8 [] = Some []"
| "from_utf8 (a # bs) =
    (if unat a < 128 then map_option (Cons (unat a)) (from_utf8 bs)
     else if 194 \<le> unat a \<and> unat a < 224 then
       (case bs of
          b # r \<Rightarrow>
            if utf8_cont b
            then map_option (Cons ((unat a - 192) * 64 + (unat b - 128))) (from_utf8 r)
            else None
        | _ \<Rightarrow> None)
     else if 224 \<le> unat a \<and> unat a < 240 then
       (case bs of
          b # c # r \<Rightarrow>
            if utf8_second3 a b \<and> utf8_cont c
            then map_option
                   (Cons ((unat a - 224) * 4096 + (unat b - 128) * 64 + (unat c - 128)))
                   (from_utf8 r)
            else None
        | _ \<Rightarrow> None)
     else if 240 \<le> unat a \<and> unat a < 245 then
       (case bs of
          b # c # d # r \<Rightarrow>
            if utf8_second4 a b \<and> utf8_cont c \<and> utf8_cont d
            then map_option
                   (Cons ((unat a - 240) * 262144 + (unat b - 128) * 4096
                          + (unat c - 128) * 64 + (unat d - 128)))
                   (from_utf8 r)
            else None
        | _ \<Rightarrow> None)
     else None)"

text \<open>\<open>String::into_bytes\<close>.\<close>

definition utf8_char :: "rchar \<Rightarrow> bytes" where
  "utf8_char c =
    (if c < 128 then [of_nat c]
     else if c < 2048 then [of_nat (192 + c div 64), of_nat (128 + c mod 64)]
     else if c < 65536 then
       [of_nat (224 + c div 4096), of_nat (128 + c div 64 mod 64), of_nat (128 + c mod 64)]
     else
       [of_nat (240 + c div 262144), of_nat (128 + c div 4096 mod 64),
        of_nat (128 + c div 64 mod 64), of_nat (128 + c mod 64)])"

definition to_utf8 :: "str \<Rightarrow> bytes" where
  "to_utf8 s = concat (map utf8_char s)"

lemma to_utf8_simps [simp]:
  "to_utf8 [] = []"
  "to_utf8 (c # s) = utf8_char c @ to_utf8 s"
  "to_utf8 (s @ t) = to_utf8 s @ to_utf8 t"
  by (simp_all add: to_utf8_def)

lemma base64_digits2:
  fixes x y :: nat
  assumes "y < 64"
  shows "(x * 64 + y) div 64 = x" "(x * 64 + y) mod 64 = y"
  using assms by auto

lemma base64_digits3:
  fixes x y z :: nat
  assumes "y < 64" "z < 64"
  shows "(x * 4096 + y * 64 + z) div 4096 = x"
    and "(x * 4096 + y * 64 + z) div 64 mod 64 = y"
    and "(x * 4096 + y * 64 + z) mod 64 = z"
proof -
  have e: "x * 4096 + y * 64 + z = (x * 64 + y) * 64 + z" by simp
  have d: "(x * 4096 + y * 64 + z) div 64 = x * 64 + y"
    unfolding e using assms(2) by (rule base64_digits2)
  have "(x * 4096 + y * 64 + z) div (64 * 64) = x"
    unfolding div_mult2_eq d using assms(1) by (rule base64_digits2)
  then show "(x * 4096 + y * 64 + z) div 4096 = x" by simp
  show "(x * 4096 + y * 64 + z) div 64 mod 64 = y"
    unfolding d using assms(1) by (rule base64_digits2)
  show "(x * 4096 + y * 64 + z) mod 64 = z"
    unfolding e using assms(2) by (rule base64_digits2)
qed

lemma base64_digits4:
  fixes w x y z :: nat
  assumes "x < 64" "y < 64" "z < 64"
  shows "(w * 262144 + x * 4096 + y * 64 + z) div 262144 = w"
    and "(w * 262144 + x * 4096 + y * 64 + z) div 4096 mod 64 = x"
    and "(w * 262144 + x * 4096 + y * 64 + z) div 64 mod 64 = y"
    and "(w * 262144 + x * 4096 + y * 64 + z) mod 64 = z"
proof -
  have e: "w * 262144 + x * 4096 + y * 64 + z = (w * 64 + x) * 4096 + y * 64 + z" by simp
  have d: "(w * 262144 + x * 4096 + y * 64 + z) div 4096 = w * 64 + x"
    unfolding e using assms(2,3) by (rule base64_digits3)
  have "(w * 262144 + x * 4096 + y * 64 + z) div (4096 * 64) = w"
    unfolding div_mult2_eq d using assms(1) by (rule base64_digits2)
  then show "(w * 262144 + x * 4096 + y * 64 + z) div 262144 = w" by simp
  show "(w * 262144 + x * 4096 + y * 64 + z) div 4096 mod 64 = x"
    unfolding d using assms(1) by (rule base64_digits2)
  show "(w * 262144 + x * 4096 + y * 64 + z) div 64 mod 64 = y"
    unfolding e using assms(2,3) by (rule base64_digits3)
  show "(w * 262144 + x * 4096 + y * 64 + z) mod 64 = z"
    unfolding e using assms(2,3) by (rule base64_digits3)
qed

lemma utf8_char_2:
  assumes "194 \<le> unat (a::byte)" "unat a < 224" "utf8_cont b"
  shows "utf8_char ((unat a - 192) * 64 + (unat b - 128)) = [a, b]"
proof -
  define n where "n = (unat a - 192) * 64 + (unat b - 128)"
  have b: "128 \<le> unat b" "unat b < 192" using assms(3) by (auto simp: utf8_cont_def)
  have "n div 64 = unat a - 192" "n mod 64 = unat b - 128"
    unfolding n_def by (rule base64_digits2; use b in simp)+
  moreover have "\<not> n < 128" "n < 2048" using assms b by (auto simp: n_def)
  ultimately have "utf8_char n = [of_nat (unat a), of_nat (unat b)]"
    using assms b by (simp add: utf8_char_def del: of_nat_add of_nat_unat)
  then show ?thesis by (simp add: n_def)
qed

lemma utf8_char_3:
  assumes "224 \<le> unat (a::byte)" "unat a < 240" "utf8_second3 a b" "utf8_cont c"
  shows "utf8_char ((unat a - 224) * 4096 + (unat b - 128) * 64 + (unat c - 128)) = [a, b, c]"
proof -
  define n where "n = (unat a - 224) * 4096 + (unat b - 128) * 64 + (unat c - 128)"
  have b: "128 \<le> unat b" "unat b < 192" and b2: "unat a = 224 \<Longrightarrow> 160 \<le> unat b"
    using assms(3) by (auto simp: utf8_cont_def utf8_second3_def split: if_splits)
  have c: "128 \<le> unat c" "unat c < 192" using assms(4) by (auto simp: utf8_cont_def)
  have "n div 4096 = unat a - 224" "n div 64 mod 64 = unat b - 128" "n mod 64 = unat c - 128"
    unfolding n_def by (rule base64_digits3; use b c in simp)+
  moreover have "\<not> n < 2048" "n < 65536"
    using assms b c b2 by (cases "unat a = 224"; auto simp: n_def)+
  ultimately have "utf8_char n = [of_nat (unat a), of_nat (unat b), of_nat (unat c)]"
    using assms b c by (simp add: utf8_char_def del: of_nat_add of_nat_unat)
  then show ?thesis by (simp add: n_def)
qed

lemma utf8_char_4:
  assumes "240 \<le> unat (a::byte)" "unat a < 245" "utf8_second4 a b" "utf8_cont c" "utf8_cont d"
  shows "utf8_char ((unat a - 240) * 262144 + (unat b - 128) * 4096
           + (unat c - 128) * 64 + (unat d - 128)) = [a, b, c, d]"
proof -
  define n where "n = (unat a - 240) * 262144 + (unat b - 128) * 4096
           + (unat c - 128) * 64 + (unat d - 128)"
  have b: "128 \<le> unat b" "unat b < 192" and b2: "unat a = 240 \<Longrightarrow> 144 \<le> unat b"
    using assms(3) by (auto simp: utf8_cont_def utf8_second4_def split: if_splits)
  have c: "128 \<le> unat c" "unat c < 192" "128 \<le> unat d" "unat d < 192"
    using assms(4,5) by (auto simp: utf8_cont_def)
  have "n div 262144 = unat a - 240" "n div 4096 mod 64 = unat b - 128"
    "n div 64 mod 64 = unat c - 128" "n mod 64 = unat d - 128"
    unfolding n_def by (rule base64_digits4; use b c in simp)+
  moreover have "\<not> n < 65536"
    using assms b c b2 by (cases "unat a = 240"; auto simp: n_def)
  ultimately have "utf8_char n = [of_nat (unat a), of_nat (unat b), of_nat (unat c), of_nat (unat d)]"
    using assms b c by (simp add: utf8_char_def del: of_nat_add of_nat_unat)
  then show ?thesis by (simp add: n_def)
qed

lemma utf8_char_1: "unat (a::byte) < 128 \<Longrightarrow> utf8_char (unat a) = [a]"
  by (simp add: utf8_char_def)

text \<open>Encoding what was decoded gives the bytes back: decoding loses nothing.\<close>

lemma to_utf8_from_utf8: "from_utf8 bs = Some s \<Longrightarrow> to_utf8 s = bs"
proof (induction bs arbitrary: s rule: from_utf8.induct)
  case 1
  then show ?case by simp
next
  case (2 a bs)
  consider "unat a < 128" | "194 \<le> unat a" "unat a < 224" | "224 \<le> unat a" "unat a < 240"
    | "240 \<le> unat a" "unat a < 245"
    using "2.prems" by (auto split: if_splits)
  then show ?case
  proof cases
    case 1
    with "2.prems" "2.IH"(1) show ?thesis by (auto simp: utf8_char_1)
  next
    case 2
    with "2.prems" "2.IH"(2) show ?thesis
      by (auto simp: utf8_char_2 split: list.splits if_splits)
  next
    case 3
    with "2.prems" "2.IH"(3) show ?thesis
      by (auto simp: utf8_char_3 split: list.splits if_splits)
  next
    case 4
    with "2.prems" "2.IH"(4) show ?thesis
      by (auto simp: utf8_char_4 split: list.splits if_splits)
  qed
qed

lemma from_utf8_append:
  "from_utf8 xs = Some u \<Longrightarrow> from_utf8 (xs @ ys) = map_option ((@) u) (from_utf8 ys)"
proof (induction xs arbitrary: u rule: from_utf8.induct)
  case 1
  then show ?case by (simp add: option.map_ident)
next
  case (2 a bs)
  consider "unat a < 128" | "194 \<le> unat a" "unat a < 224" | "224 \<le> unat a" "unat a < 240"
    | "240 \<le> unat a" "unat a < 245"
    using "2.prems" by (auto split: if_splits)
  then show ?case
  proof cases
    case 1
    with "2.prems" obtain v where "from_utf8 bs = Some v" "u = unat a # v" by auto
    with 1 "2.IH"(1) show ?thesis by (cases "from_utf8 ys") simp_all
  next
    case 2
    with "2.prems" obtain b r v where "bs = b # r" "utf8_cont b" "from_utf8 r = Some v"
      "u = ((unat a - 192) * 64 + (unat b - 128)) # v"
      by (auto split: list.splits if_splits)
    with 2 "2.IH"(2) show ?thesis by (cases "from_utf8 ys") simp_all
  next
    case 3
    with "2.prems" obtain b c r v where "bs = b # c # r" "utf8_second3 a b" "utf8_cont c"
      "from_utf8 r = Some v"
      "u = ((unat a - 224) * 4096 + (unat b - 128) * 64 + (unat c - 128)) # v"
      by (auto split: list.splits if_splits)
    with 3 "2.IH"(3) show ?thesis by (cases "from_utf8 ys") simp_all
  next
    case 4
    with "2.prems" obtain b c d r v where "bs = b # c # d # r" "utf8_second4 a b" "utf8_cont c"
      "utf8_cont d" "from_utf8 r = Some v"
      "u = ((unat a - 240) * 262144 + (unat b - 128) * 4096
            + (unat c - 128) * 64 + (unat d - 128)) # v"
      by (auto split: list.splits if_splits)
    with 4 "2.IH"(4) show ?thesis by (cases "from_utf8 ys") simp_all
  qed
qed

lemma from_utf8_ascii: "\<forall>b\<in>set bs. unat b < 128 \<Longrightarrow> from_utf8 bs = Some (map unat bs)"
  by (induction bs) auto

lemma from_utf8_crlf [simp]: "from_utf8 [13, 10] = Some [13, 10]"
  by simp

lemma to_utf8_ascii: "\<forall>c\<in>set s. c < 128 \<Longrightarrow> to_utf8 s = map of_nat s"
  by (induction s) (auto simp: utf8_char_def)

text \<open>An ASCII byte is a character of its own, wherever it stands.\<close>

definition splits_at :: "byte \<Rightarrow> bytes \<Rightarrow> bytes \<Rightarrow> str \<Rightarrow> bool" where
  "splits_at a v u s \<longleftrightarrow>
     (\<exists>s1 s2. from_utf8 u = Some s1 \<and> from_utf8 v = Some s2 \<and> s = s1 @ unat a # s2)"

lemma ascii_no_tail:
  "unat a < 128 \<Longrightarrow> \<not> utf8_cont a \<and> \<not> utf8_second3 b a \<and> \<not> utf8_second4 b a"
  by (auto simp: utf8_cont_def utf8_second3_def utf8_second4_def)

lemma splits_three:
  assumes "from_utf8 ((b # bs) @ a # v) = Some s" "unat a < 128" "224 \<le> unat b" "unat b < 240"
    and IH: "\<And>c d r w. bs = c # d # r \<Longrightarrow> utf8_second3 b c \<Longrightarrow> utf8_cont d
      \<Longrightarrow> from_utf8 (r @ a # v) = Some w \<Longrightarrow> splits_at a v r w"
  shows "splits_at a v (b # bs) s"
proof (cases "\<exists>c d r. bs = c # d # r")
  case False
  with assms(1,3,4) ascii_no_tail [OF assms(2), of b] show ?thesis
    by (cases bs; cases "tl bs") (auto split: list.splits if_splits)
next
  case True
  then obtain c d r where b: "bs = c # d # r" by blast
  with assms(1,3,4) obtain w where w: "from_utf8 (r @ a # v) = Some w" "utf8_second3 b c" "utf8_cont d"
    "s = ((unat b - 224) * 4096 + (unat c - 128) * 64 + (unat d - 128)) # w" by (auto split: if_splits)
  from IH [OF b w(2,3,1)] assms(3,4) b w show ?thesis by (auto simp: splits_at_def)
qed

lemma splits_four:
  assumes "from_utf8 ((b # bs) @ a # v) = Some s" "unat a < 128" "240 \<le> unat b" "unat b < 245"
    and IH: "\<And>c d e r w. bs = c # d # e # r \<Longrightarrow> utf8_second4 b c \<Longrightarrow> utf8_cont d \<Longrightarrow> utf8_cont e
      \<Longrightarrow> from_utf8 (r @ a # v) = Some w \<Longrightarrow> splits_at a v r w"
  shows "splits_at a v (b # bs) s"
proof (cases "\<exists>c d e r. bs = c # d # e # r")
  case False
  with assms(1,3,4) ascii_no_tail [OF assms(2), of b] show ?thesis
    by (cases bs; cases "tl bs"; cases "tl (tl bs)") (auto split: list.splits if_splits)
next
  case True
  then obtain c d e r where b: "bs = c # d # e # r" by blast
  with assms(1,3,4) obtain w where w: "from_utf8 (r @ a # v) = Some w" "utf8_second4 b c" "utf8_cont d" "utf8_cont e"
    "s = ((unat b - 240) * 262144 + (unat c - 128) * 4096 + (unat d - 128) * 64 + (unat e - 128)) # w"
    by (auto split: if_splits)
  from IH [OF b w(2,3,4,1)] assms(3,4) b w show ?thesis by (auto simp: splits_at_def)
qed

lemma from_utf8_splits_at:
  assumes "from_utf8 (u @ a # v) = Some s" "unat a < 128"
  shows "splits_at a v u s"
  using assms
proof (induction u arbitrary: s rule: from_utf8.induct)
  case 1
  then show ?case by (auto simp: splits_at_def)
next
  case (2 b bs)
  consider "unat b < 128" | "194 \<le> unat b" "unat b < 224" | "224 \<le> unat b" "unat b < 240"
    | "240 \<le> unat b" "unat b < 245"
    using "2.prems" by (auto split: if_splits)
  then show ?case
  proof cases
    case 1
    with "2.prems" obtain w where "from_utf8 (bs @ a # v) = Some w" "s = unat b # w" by auto
    with 1 "2.IH"(1) [of w] \<open>unat a < 128\<close> show ?thesis by (auto simp: splits_at_def)
  next
    case 2
    show ?thesis
    proof (cases bs)
      case Nil
      with 2 ascii_no_tail [of a b] "2.prems" show ?thesis by simp
    next
      case (Cons c r)
      with 2 "2.prems" obtain w where w: "from_utf8 (r @ a # v) = Some w" "utf8_cont c"
        "s = ((unat b - 192) * 64 + (unat c - 128)) # w" by (auto split: if_splits)
      from "2.IH"(2) [OF _ _ Cons w(2) w(1)] 2 \<open>unat a < 128\<close> have "splits_at a v r w" by simp
      with 2 Cons w show ?thesis by (auto simp: splits_at_def)
    qed
  next
    case 3
    with "2.IH"(3) \<open>unat a < 128\<close> show ?thesis by (intro splits_three [OF "2.prems"]) simp_all
  next
    case 4
    with "2.IH"(4) \<open>unat a < 128\<close> show ?thesis by (intro splits_four [OF "2.prems"]) simp_all
  qed
qed

lemma from_utf8_ascii_split:
  "from_utf8 (u @ a # v) = Some s \<Longrightarrow> unat a < 128 \<Longrightarrow>
     \<exists>s1 s2. from_utf8 u = Some s1 \<and> from_utf8 v = Some s2 \<and> s = s1 @ unat a # s2"
  using from_utf8_splits_at unfolding splits_at_def .

text \<open>Unicode scalar values, and the round trip in the other direction.\<close>

definition scalar :: "rchar \<Rightarrow> bool" where
  "scalar c \<longleftrightarrow> c < 55296 \<or> 57344 \<le> c \<and> c < 1114112"

lemma unat_byte_of_nat: "n < 256 \<Longrightarrow> unat (of_nat n :: byte) = n"
  by (simp add: unsigned_of_nat take_bit_nat_eq_self)

text \<open>The digits of a character to the base 64.\<close>

lemma base64_digits:
  "(c::nat) = c div 4096 * 4096 + c div 64 mod 64 * 64 + c mod 64"
  "c = c div 262144 * 262144 + c div 4096 mod 64 * 4096 + c div 64 mod 64 * 64 + c mod 64"
proof -
  have "c = c div 64 * 64 + c mod 64" "c div 64 = c div 64 div 64 * 64 + c div 64 mod 64"
    "c div 4096 = c div 4096 div 64 * 64 + c div 4096 mod 64"
    by (rule div_mult_mod_eq [symmetric])+
  moreover have "c div 64 div 64 = c div 4096" "c div 4096 div 64 = c div 262144"
    by (simp_all add: div_mult2_eq [symmetric])
  ultimately show "c = c div 4096 * 4096 + c div 64 mod 64 * 64 + c mod 64"
    "c = c div 262144 * 262144 + c div 4096 mod 64 * 4096 + c div 64 mod 64 * 64 + c mod 64"
    by linarith+
qed

lemma from_utf8_char3:
  assumes "scalar c" "2048 \<le> c" "c < 65536"
  shows "from_utf8 (utf8_char c @ bs) = map_option (Cons c) (from_utf8 bs)"
proof -
  define x y z where d: "x = c div 4096" "y = c div 64 mod 64" "z = c mod 64"
  have b: "x < 16" "y < 64" "z < 64" using assms by (auto simp: d)
  have c: "c = x * 4096 + y * 64 + z" unfolding d by (rule base64_digits)
  have lo: "x = 0 \<Longrightarrow> 32 \<le> y" and su: "x = 13 \<Longrightarrow> y < 32"
    using assms b unfolding c scalar_def by auto
  have e: "utf8_char c = [of_nat (224 + x), of_nat (128 + y), of_nat (128 + z)]"
    using assms by (simp add: utf8_char_def d del: of_nat_add)
  show ?thesis using b lo su unfolding e
    by (simp add: unat_byte_of_nat utf8_cont_def utf8_second3_def c del: of_nat_add)
qed

lemma from_utf8_char4:
  assumes "65536 \<le> c" "c < 1114112"
  shows "from_utf8 (utf8_char c @ bs) = map_option (Cons c) (from_utf8 bs)"
proof -
  define w x y z where d: "w = c div 262144" "x = c div 4096 mod 64" "y = c div 64 mod 64" "z = c mod 64"
  have b: "w < 5" "x < 64" "y < 64" "z < 64" using assms by (auto simp: d)
  have c: "c = w * 262144 + x * 4096 + y * 64 + z" unfolding d by (rule base64_digits)
  have lo: "w = 0 \<Longrightarrow> 16 \<le> x" and su: "w = 4 \<Longrightarrow> x < 16"
    using assms b unfolding c by auto
  have e: "utf8_char c = [of_nat (240 + w), of_nat (128 + x), of_nat (128 + y), of_nat (128 + z)]"
    using assms by (simp add: utf8_char_def d del: of_nat_add)
  show ?thesis using b lo su unfolding e
    by (simp add: unat_byte_of_nat utf8_cont_def utf8_second4_def c del: of_nat_add)
qed

lemma from_utf8_char:
  assumes "scalar c"
  shows "from_utf8 (utf8_char c @ bs) = map_option (Cons c) (from_utf8 bs)"
proof -
  consider "c < 128" | "128 \<le> c" "c < 2048" | "2048 \<le> c" "c < 65536" | "65536 \<le> c" "c < 1114112"
    using assms unfolding scalar_def by linarith
  then show ?thesis
  proof cases
    case 1
    then show ?thesis by (simp add: utf8_char_def unat_byte_of_nat)
  next
    case 2
    then have "2 \<le> c div 64" "c div 64 < 32" by auto
    moreover have "c mod 64 < 64" by simp
    ultimately show ?thesis using 2
      by (simp add: utf8_char_def unat_byte_of_nat utf8_cont_def del: of_nat_add)
  qed (rule from_utf8_char3 [OF assms] from_utf8_char4; assumption)+
qed

lemma from_utf8_to_utf8_append:
  "list_all scalar s \<Longrightarrow> from_utf8 (to_utf8 s @ bs) = map_option ((@) s) (from_utf8 bs)"
proof (induction s)
  case Nil
  then show ?case by (simp add: option.map_ident)
next
  case (Cons c s)
  then show ?case by (cases "from_utf8 bs") (simp_all add: from_utf8_char)
qed

lemma from_utf8_to_utf8: "list_all scalar s \<Longrightarrow> from_utf8 (to_utf8 s) = Some s"
  using from_utf8_to_utf8_append [of s "[]"] by simp

section \<open>Characters\<close>

abbreviation cr :: rchar where "cr \<equiv> 13"
abbreviation lf :: rchar where "lf \<equiv> 10"

text \<open>\<open>char::is_whitespace\<close>: the Unicode property \<open>White_Space\<close>.\<close>

definition is_ws :: "rchar \<Rightarrow> bool" where
  "is_ws c \<longleftrightarrow>
     9 \<le> c \<and> c \<le> 13 \<or> c = 32 \<or> c = 133 \<or> c = 160 \<or> c = 5760 \<or> 8192 \<le> c \<and> c \<le> 8202
     \<or> c = 8232 \<or> c = 8233 \<or> c = 8239 \<or> c = 8287 \<or> c = 12288"

definition ascii_lower :: "rchar \<Rightarrow> rchar" where
  "ascii_lower c = (if 65 \<le> c \<and> c \<le> 90 then c + 32 else c)"

definition eq_ignore_ascii_case :: "str \<Rightarrow> str \<Rightarrow> bool" where
  "eq_ignore_ascii_case s t \<longleftrightarrow> map ascii_lower s = map ascii_lower t"

lemma eq_ignore_ascii_case_refl [simp]: "eq_ignore_ascii_case s s"
  by (simp add: eq_ignore_ascii_case_def)

lemma eq_ignore_ascii_case_sym: "eq_ignore_ascii_case s t \<longleftrightarrow> eq_ignore_ascii_case t s"
  by (auto simp: eq_ignore_ascii_case_def)

lemma eq_ignore_ascii_case_trans:
  "eq_ignore_ascii_case s t \<Longrightarrow> eq_ignore_ascii_case t u \<Longrightarrow> eq_ignore_ascii_case s u"
  by (simp add: eq_ignore_ascii_case_def)

section \<open>Trimming\<close>

definition trim :: "str \<Rightarrow> str" where
  "trim s = rev (dropWhile is_ws (rev (dropWhile is_ws s)))"

definition trimmed :: "str \<Rightarrow> bool" where
  "trimmed s \<longleftrightarrow> s = [] \<or> (\<not> is_ws (hd s) \<and> \<not> is_ws (last s))"

lemma trim_trimmed:
  assumes "trimmed s"
  shows "trim s = s"
proof -
  have "dropWhile is_ws s = s" "dropWhile is_ws (rev s) = rev s"
    using assms by (auto simp: trimmed_def hd_rev intro: dropWhile_id)
  then show ?thesis by (simp add: trim_def)
qed

lemma trimmed_trim: "trimmed (trim s)"
proof -
  define u where "u = dropWhile is_ws s"
  define v where "v = dropWhile is_ws (rev u)"
  have tr: "trim s = rev v" by (simp add: trim_def u_def v_def)
  have hdv: "v \<noteq> [] \<Longrightarrow> \<not> is_ws (hd v)" by (simp add: v_def hd_dropWhile)
  have hdu: "u \<noteq> [] \<Longrightarrow> \<not> is_ws (hd u)" by (simp add: u_def hd_dropWhile)
  have "rev u = takeWhile is_ws (rev u) @ v" by (simp add: v_def)
  then have u: "u = rev v @ rev (takeWhile is_ws (rev u))" by (metis rev_append rev_rev_ident)
  show ?thesis
  proof (cases "v = []")
    case True
    then show ?thesis by (simp add: tr trimmed_def)
  next
    case False
    then have "hd (rev v) = hd u" by (subst u) simp
    moreover have "u \<noteq> []" using u False by auto
    ultimately show ?thesis using False hdv hdu by (simp add: tr trimmed_def last_rev)
  qed
qed

lemma set_trim_subset: "set (trim s) \<subseteq> set s"
  unfolding trim_def by (metis set_dropWhileD set_rev subsetI)

text \<open>Surrounding whitespace disappears.\<close>

lemma trim_space_left: "trim (32 # s) = trim s"
  by (simp add: trim_def is_ws_def)

section \<open>Splitting\<close>

text \<open>\<open>split("\r\n")\<close>.\<close>

fun split_crlf :: "str \<Rightarrow> str list" where
  "split_crlf [] = [[]]"
| "split_crlf [c] = [[c]]"
| "split_crlf (c # d # r) =
    (if c = cr \<and> d = lf then [] # split_crlf r
     else (case split_crlf (d # r) of [] \<Rightarrow> [[c]] | x # xs \<Rightarrow> (c # x) # xs))"

text \<open>\<open>split_whitespace\<close>.\<close>

function split_whitespace :: "str \<Rightarrow> str list" where
  "split_whitespace s =
    (let t = dropWhile is_ws s
     in if t = [] then []
        else takeWhile (\<lambda>c. \<not> is_ws c) t # split_whitespace (dropWhile (\<lambda>c. \<not> is_ws c) t))"
  by pat_completeness auto
termination
proof (relation "measure length")
  show "wf (measure length)" by simp
next
  fix s :: str and t
  assume t: "t = dropWhile is_ws s" and ne: "t \<noteq> []"
  then have "\<not> is_ws (hd t)" using hd_dropWhile by blast
  then have "length (dropWhile (\<lambda>c. \<not> is_ws c) t) < length t"
    using ne by (cases t) (auto simp: le_imp_less_Suc length_dropWhile_le)
  also have "\<dots> \<le> length s" by (simp add: t length_dropWhile_le)
  finally show "(dropWhile (\<lambda>c. \<not> is_ws c) t, s) \<in> measure length" by simp
qed

declare split_whitespace.simps [simp del]

text \<open>\<open>lines().next()\<close>: up to the first line feed, without a carriage return before it.\<close>

definition first_line :: "str \<Rightarrow> str option" where
  "first_line s =
    (if s = [] then None
     else let l = takeWhile (\<lambda>c. c \<noteq> lf) s
          in Some (if length l < length s \<and> l \<noteq> [] \<and> last l = cr then butlast l else l))"

text \<open>\<open>split_once(c)\<close> and \<open>split(c).next()\<close>.\<close>

definition split_once :: "rchar \<Rightarrow> str \<Rightarrow> (str \<times> str) option" where
  "split_once c s =
    (case dropWhile (\<lambda>d. d \<noteq> c) s of
       [] \<Rightarrow> None
     | _ # r \<Rightarrow> Some (takeWhile (\<lambda>d. d \<noteq> c) s, r))"

definition split_first :: "rchar \<Rightarrow> str \<Rightarrow> str" where
  "split_first c s = takeWhile (\<lambda>d. d \<noteq> c) s"

lemma split_crlf_not_Nil [simp]: "split_crlf s \<noteq> []"
  by (induction s rule: split_crlf.induct) (auto split: list.splits)

definition has_crlf :: "str \<Rightarrow> bool" where
  "has_crlf s \<longleftrightarrow> (\<exists>u v. s = u @ cr # lf # v)"

lemma has_crlf_Cons:
  "has_crlf (c # s) \<longleftrightarrow> c = cr \<and> (\<exists>v. s = lf # v) \<or> has_crlf s"
  by (auto simp: has_crlf_def Cons_eq_append_conv)

lemma split_crlf_no_crlf: "\<not> has_crlf l \<Longrightarrow> split_crlf l = [l]"
  by (induction l rule: split_crlf.induct) (auto simp: has_crlf_Cons)

text \<open>CRLF cannot overlap itself, so a text splits at every CRLF in it.\<close>

lemma split_crlf_append: "split_crlf (s @ cr # lf # t) = split_crlf s @ split_crlf t"
proof (induction s rule: split_crlf.induct)
  case (3 c d s)
  then show ?case by (auto split: list.splits)
qed auto

lemma split_crlf_lines_no_crlf: "l \<in> set (split_crlf s) \<Longrightarrow> \<not> has_crlf l"
proof (induction s arbitrary: l rule: split_crlf.induct)
  case (3 c d s)
  show ?case
  proof (cases "c = cr \<and> d = lf")
    case True
    with 3 show ?thesis by (auto simp: has_crlf_def)
  next
    case False
    obtain x xs where x: "split_crlf (d # s) = x # xs" by (cases "split_crlf (d # s)") auto
    have "x = [] \<or> hd x = d"
      using x by (cases s) (auto split: if_splits list.splits)
    then have "\<not> has_crlf (c # x)" using False "3.IH"(2) [OF False, of x] x
      by (auto simp: has_crlf_Cons)
    with False 3 x show ?thesis by auto
  qed
qed (auto simp: has_crlf_def Cons_eq_append_conv)

text \<open>Splitting determines the text.\<close>

fun join_crlf :: "str list \<Rightarrow> str" where
  "join_crlf [] = []"
| "join_crlf [l] = l"
| "join_crlf (l # m # ls) = l @ cr # lf # join_crlf (m # ls)"

lemma join_crlf_Cons_Cons: "join_crlf ((c # x) # xs) = c # join_crlf (x # xs)"
  by (cases xs) auto

lemma join_crlf_split: "join_crlf (split_crlf s) = s"
proof (induction s rule: split_crlf.induct)
  case (3 c d s)
  obtain y ys where y: "split_crlf s = y # ys" by (cases "split_crlf s") auto
  obtain x xs where x: "split_crlf (d # s) = x # xs" by (cases "split_crlf (d # s)") auto
  show ?case using 3 x y by (auto simp: join_crlf_Cons_Cons)
qed auto

lemma split_crlf_inject: "split_crlf s = split_crlf t \<Longrightarrow> s = t"
  by (metis join_crlf_split)

lemma split_crlf_single: "split_crlf s = [[]] \<longleftrightarrow> s = []"
  using split_crlf_inject [of s "[]"] by auto

text \<open>A block of lines, each ended by CRLF, and the empty line that ends a message head.\<close>

definition head_text :: "str list \<Rightarrow> str" where
  "head_text ls = concat (map (\<lambda>l. l @ [cr, lf]) ls) @ [cr, lf]"

lemma head_text_join:
  "ls \<noteq> [] \<Longrightarrow> join_crlf ls @ [cr, lf, cr, lf] = head_text ls"
  unfolding head_text_def by (induction ls rule: join_crlf.induct) auto

lemma split_crlf_head_text:
  "\<forall>l\<in>set ls. \<not> has_crlf l \<Longrightarrow> split_crlf (head_text ls) = ls @ [[], []]"
proof (induction ls)
  case Nil
  then show ?case by (simp add: head_text_def)
next
  case (Cons l ls)
  have "head_text (l # ls) = l @ cr # lf # head_text ls" by (simp add: head_text_def)
  with Cons show ?case by (simp add: split_crlf_append split_crlf_no_crlf)
qed

text \<open>In such a block, an empty line is found at the end only.\<close>

lemma head_text_first_blank:
  assumes ls: "\<forall>l\<in>set ls. \<not> has_crlf l \<and> l \<noteq> []"
    and eq: "head_text ls = u @ [cr, lf, cr, lf] @ v"
  shows "v = []"
proof -
  have "ls @ [[], []] = split_crlf (u @ cr # lf # [] @ cr # lf # v)"
    using split_crlf_head_text [of ls] ls eq by simp
  also have "\<dots> = split_crlf u @ [] # split_crlf v"
    by (simp add: split_crlf_append)
  finally have e: "ls @ [[], []] = split_crlf u @ [] # split_crlf v" .
  define k where "k = length (split_crlf u)"
  have "(ls @ [[], []]) ! k = []" by (simp add: e k_def nth_append)
  moreover have "length (ls @ [[], []]) = k + 1 + length (split_crlf v)" by (simp add: e k_def)
  then have len: "length ls + 1 = k + length (split_crlf v)" by simp
  ultimately have "\<not> k < length ls" using ls nth_mem [of k ls] by (auto simp: nth_append)
  moreover have "length (split_crlf v) \<noteq> 0" by simp
  ultimately have "k = length ls" "length (split_crlf v) = 1" using len by linarith+
  then have "split_crlf v = [[]]"
    using e by (auto simp: k_def append_eq_append_conv)
  then show ?thesis by (simp add: split_crlf_single)
qed

section \<open>Substrings\<close>

lemma has_crlf_infix: "has_crlf s \<Longrightarrow> has_crlf (a @ s @ b)"
  unfolding has_crlf_def by (metis append.assoc append_Cons)

lemma trim_infix: "\<exists>a b. s = a @ trim s @ b"
proof -
  define u where "u = dropWhile is_ws s"
  have "s = takeWhile is_ws s @ u" by (simp add: u_def)
  moreover have "rev u = takeWhile is_ws (rev u) @ dropWhile is_ws (rev u)" by simp
  then have "u = rev (dropWhile is_ws (rev u)) @ rev (takeWhile is_ws (rev u))"
    by (metis rev_append rev_rev_ident)
  ultimately show ?thesis unfolding trim_def u_def [symmetric] by metis
qed

lemma has_crlf_trim: "has_crlf (trim s) \<Longrightarrow> has_crlf s"
  using trim_infix [of s] has_crlf_infix by metis

lemma split_once_Some:
  "split_once c s = Some (a, b) \<longleftrightarrow> s = a @ c # b \<and> c \<notin> set a"
proof
  assume "split_once c s = Some (a, b)"
  then obtain d where d: "dropWhile (\<lambda>d. d \<noteq> c) s = d # b" "a = takeWhile (\<lambda>d. d \<noteq> c) s"
    by (auto simp: split_once_def split: list.splits)
  have "d = c" using d(1) hd_dropWhile [of "\<lambda>d. d \<noteq> c" s] by auto
  then show "s = a @ c # b \<and> c \<notin> set a"
    using d takeWhile_dropWhile_id [of "\<lambda>d. d \<noteq> c" s] by (metis set_takeWhileD)
next
  assume "s = a @ c # b \<and> c \<notin> set a"
  moreover from this have "takeWhile (\<lambda>d. d \<noteq> c) s = a" "dropWhile (\<lambda>d. d \<noteq> c) s = c # b"
    by (auto simp: takeWhile_tail dropWhile_append3 takeWhile_append2)
  ultimately show "split_once c s = Some (a, b)" by (simp add: split_once_def)
qed

lemma split_once_None: "split_once c s = None \<longleftrightarrow> c \<notin> set s"
proof
  assume "split_once c s = None"
  then have "dropWhile (\<lambda>d. d \<noteq> c) s = []" by (simp add: split_once_def split: list.splits)
  then show "c \<notin> set s" by (auto simp: dropWhile_eq_Nil_conv)
next
  assume "c \<notin> set s"
  then have "dropWhile (\<lambda>d. d \<noteq> c) s = []" by (auto simp: dropWhile_eq_Nil_conv)
  then show "split_once c s = None" by (simp only: split_once_def list.case)
qed

lemma no_crlf_colon:
  assumes "\<not> has_crlf n" "\<not> has_crlf v"
  shows "\<not> has_crlf (n @ 58 # 32 # v)"
  using assms(1)
proof (induction n)
  case Nil
  with assms(2) show ?case by (simp add: has_crlf_Cons)
next
  case (Cons c n)
  then show ?case by (cases n) (auto simp: has_crlf_Cons)
qed

lemma no_lf_no_crlf: "lf \<notin> set s \<Longrightarrow> \<not> has_crlf s"
  by (auto simp: has_crlf_def)

lemma first_line_no_lf: "first_line s = Some l \<Longrightarrow> lf \<notin> set l"
  by (auto simp: first_line_def Let_def dest: set_takeWhileD in_set_butlastD split: if_splits)

end
