(* ===== verification/Errors.thy ===== *)
theory Errors
  imports Rust_Str
begin

text \<open>
  \<open>src/src/utils/error.rs\<close> and the error helper of \<open>src/src/utils/mod.rs\<close>: the domain
  errors, their messages, and the conversion from \<open>std::io::Error\<close>.
\<close>

section \<open>I/O errors of the standard library\<close>

text \<open>
  An \<open>io::Error\<close> is its kind and its message. The kinds are those the sources or the
  standard library's read loops tell apart; every other kind is \<open>OtherKind\<close>.
\<close>

datatype io_kind =
    TimedOut | WouldBlock | Interrupted | UnexpectedEof | ConnectionRefused | OtherKind

datatype io_error = IoError (err_kind: io_kind) (err_text: str)

section \<open>Domain errors\<close>

datatype mzani_error =
    Io str
  | ParseError str
  | Timeout
  | EmptyRequest
  | EmptyServerList
  | LoggerInit str
  | InvalidTimestamp
  | PoolFull
  | ShutdownInProgress
  | BodyTooLarge
  | NoHealthyBackend
  | ShutdownTimeout
  | InvalidConfig str

type_synonym 'a mzani_result = "mzani_error + 'a"

definition mzani_io :: "io_error \<Rightarrow> mzani_error" where
  "mzani_io e = Io (err_text e)"

fun display_error :: "mzani_error \<Rightarrow> str" where
  "display_error (Io message) = lit ''IO error: '' @ message"
| "display_error (ParseError message) = lit ''Parse error: '' @ message"
| "display_error Timeout = lit ''Timeout''"
| "display_error EmptyRequest = lit ''Empty request''"
| "display_error EmptyServerList = lit ''Target server list cannot be empty''"
| "display_error (LoggerInit message) = lit ''Logger init error: '' @ message"
| "display_error InvalidTimestamp = lit ''System time is before Unix epoch''"
| "display_error PoolFull = lit ''Worker pool queue is full''"
| "display_error ShutdownInProgress = lit ''Load balancer is shutting down''"
| "display_error BodyTooLarge = lit ''HTTP message exceeds size limit''"
| "display_error NoHealthyBackend = lit ''No healthy backends available''"
| "display_error ShutdownTimeout = lit ''Shutdown deadline exceeded''"
| "display_error (InvalidConfig message) = lit ''Invalid configuration: '' @ message"

definition from_io :: "io_error \<Rightarrow> mzani_error" where
  "from_io e = (if err_kind e = TimedOut then Timeout else mzani_io e)"

definition parse_err :: "str \<Rightarrow> mzani_error" where
  "parse_err msg = ParseError msg"

lemma from_io_Timeout_iff: "from_io e = Timeout \<longleftrightarrow> err_kind e = TimedOut"
  by (simp add: from_io_def mzani_io_def)

lemma from_io_cases: "from_io e = Timeout \<or> (\<exists>m. from_io e = Io m)"
  by (simp add: from_io_def mzani_io_def)

lemma from_io_simps [simp]:
  "from_io e \<noteq> ParseError m" "from_io e \<noteq> BodyTooLarge" "from_io e \<noteq> EmptyRequest"
  "from_io e \<noteq> NoHealthyBackend" "from_io e \<noteq> EmptyServerList"
  by (simp_all add: from_io_def mzani_io_def)

lemma parse_err_simps [simp]:
  "parse_err m \<noteq> BodyTooLarge" "parse_err m \<noteq> EmptyRequest" "parse_err m \<noteq> Timeout"
  "parse_err m \<noteq> Io n"
  by (simp_all add: parse_err_def)

end
