(* ===== verification/Rust_Num.thy ===== *)
theory Rust_Num
  imports Rust_Str
begin

text \<open>
  Integers as text: \<open>str::parse\<close> and \<open>from_str_radix\<close> on unsigned types, and \<open>Display\<close>.
  Every error of the parsers is \<open>None\<close>, since all callers replace the error.
\<close>

definition to_digit :: "nat \<Rightarrow> rchar \<Rightarrow> nat option" where
  "to_digit radix c =
    (let v = (if 48 \<le> c \<and> c \<le> 57 then c - 48
              else if 97 \<le> c \<and> c \<le> 122 then c - 87
              else if 65 \<le> c \<and> c \<le> 90 then c - 55
              else 36)
     in if v < radix then Some v else None)"

text \<open>
  The digit loop with its \<open>checked_mul\<close> and \<open>checked_add\<close>; \<open>bound\<close> is one more than the
  largest value of the type.
\<close>

fun parse_digits :: "nat \<Rightarrow> nat \<Rightarrow> nat \<Rightarrow> str \<Rightarrow> nat option" where
  "parse_digits radix bound acc [] = Some acc"
| "parse_digits radix bound acc (c # cs) =
    (case to_digit radix c of
       None \<Rightarrow> None
     | Some d \<Rightarrow>
         if bound \<le> acc * radix then None
         else if bound \<le> acc * radix + d then None
         else parse_digits radix bound (acc * radix + d) cs)"

text \<open>An empty text and a lone sign are errors; a leading \<open>+\<close> is accepted.\<close>

definition parse_uint :: "nat \<Rightarrow> nat \<Rightarrow> str \<Rightarrow> nat option" where
  "parse_uint radix bound s =
    (case s of
       [] \<Rightarrow> None
     | c # cs \<Rightarrow>
         if cs = [] \<and> (c = 43 \<or> c = 45) then None
         else parse_digits radix bound 0 (if c = 43 then cs else s))"

definition parse_usize :: "str \<Rightarrow> nat option" where
  "parse_usize = parse_uint 10 usize_bound"

definition parse_usize_hex :: "str \<Rightarrow> nat option" where
  "parse_usize_hex = parse_uint 16 usize_bound"

definition parse_u16 :: "str \<Rightarrow> nat option" where
  "parse_u16 = parse_uint 10 (2 ^ 16)"

text \<open>Printing in a radix; \<open>Display\<close> of an unsigned integer is radix 10.\<close>

definition digit_char :: "nat \<Rightarrow> rchar" where
  "digit_char d = (if d < 10 then 48 + d else 87 + d)"

function show_radix :: "nat \<Rightarrow> nat \<Rightarrow> str" where
  "show_radix r n =
    (if r < 2 \<or> n < r then [digit_char n] else show_radix r (n div r) @ [digit_char (n mod r)])"
  by pat_completeness auto
termination
  by (relation "measure snd") auto

declare show_radix.simps [simp del]

definition show_nat :: "nat \<Rightarrow> str" where
  "show_nat = show_radix 10"

section \<open>Bounds\<close>

lemma parse_digits_bound:
  "parse_digits r b acc s = Some n \<Longrightarrow> acc < b \<Longrightarrow> n < b"
  by (induction s arbitrary: acc) (auto split: option.splits if_splits)

lemma parse_uint_bound: "parse_uint r b s = Some n \<Longrightarrow> 0 < b \<Longrightarrow> n < b"
  by (auto simp: parse_uint_def parse_digits_bound split: list.splits if_splits)

lemma parse_usize_bound: "parse_usize s = Some n \<Longrightarrow> n < usize_bound"
  unfolding parse_usize_def by (erule parse_uint_bound) (simp add: usize_bound_def)

section \<open>Printing then parsing\<close>

lemma to_digit_digit_char: "d < r \<Longrightarrow> r \<le> 16 \<Longrightarrow> to_digit r (digit_char d) = Some d"
  by (auto simp: to_digit_def digit_char_def)

lemma parse_digits_append:
  "parse_digits r b acc (s @ t) = Option.bind (parse_digits r b acc s) (\<lambda>a. parse_digits r b a t)"
  by (induction s arbitrary: acc) (auto split: option.splits)

lemma parse_digits_show_radix:
  assumes "2 \<le> r" "r \<le> 16" "n < b"
  shows "parse_digits r b 0 (show_radix r n) = Some n"
  using assms
proof (induction r n rule: show_radix.induct)
  case (1 r n)
  show ?case
  proof (cases "n < r")
    case True
    with "1.prems" show ?thesis by (simp add: show_radix.simps [of r n] to_digit_digit_char)
  next
    case False
    have "n div r < b" using "1.prems" by (meson div_le_dividend le_less_trans)
    with "1.IH" "1.prems" False have IH: "parse_digits r b 0 (show_radix r (n div r)) = Some (n div r)"
      by simp
    have lt: "n div r * r \<le> n" by simp
    have "n div r * r + n mod r = n" by simp
    moreover have "\<not> b \<le> n div r * r" using lt \<open>n < b\<close> by linarith
    ultimately show ?thesis using False "1.prems" IH
      by (simp add: show_radix.simps [of r n] parse_digits_append to_digit_digit_char)
  qed
qed

lemma show_radix_not_Nil [simp]: "show_radix r n \<noteq> []"
  by (subst show_radix.simps) simp

lemma digit_char_range: "d < 16 \<Longrightarrow> 48 \<le> digit_char d \<and> digit_char d \<le> 57 \<or> 97 \<le> digit_char d \<and> digit_char d \<le> 102"
  by (auto simp: digit_char_def)

lemma show_radix_chars:
  assumes "2 \<le> r" "r \<le> 16"
  shows "c \<in> set (show_radix r n) \<Longrightarrow> 48 \<le> c \<and> c \<le> 57 \<or> 97 \<le> c \<and> c \<le> 102"
  using assms
proof (induction r n rule: show_radix.induct)
  case (1 r n)
  show ?case
  proof (cases "n < r")
    case True
    then have "n < 16" using "1.prems" by simp
    with True "1.prems" show ?thesis using digit_char_range [of n]
      by (simp add: show_radix.simps [of r n])
  next
    case False
    have "n mod r < 16" using "1.prems"
      by (metis less_le_trans mod_less_divisor not_numeral_le_zero neq0_conv)
    with False "1.prems" "1.IH" show ?thesis using digit_char_range [of "n mod r"]
      by (auto simp: show_radix.simps [of r n])
  qed
qed

lemma parse_uint_show_radix:
  assumes "2 \<le> r" "r \<le> 16" "n < b"
  shows "parse_uint r b (show_radix r n) = Some n"
proof -
  obtain c cs where s: "show_radix r n = c # cs" by (cases "show_radix r n") auto
  then have "c \<noteq> 43" "c \<noteq> 45" using show_radix_chars [OF assms(1,2), of c n] by auto
  then show ?thesis
    using parse_digits_show_radix [OF assms] by (simp add: parse_uint_def s)
qed

lemma parse_usize_show_nat: "n < usize_bound \<Longrightarrow> parse_usize (show_nat n) = Some n"
  by (simp add: parse_usize_def show_nat_def parse_uint_show_radix)

lemma parse_usize_hex_show: "n < usize_bound \<Longrightarrow> parse_usize_hex (show_radix 16 n) = Some n"
  by (simp add: parse_usize_hex_def parse_uint_show_radix)

lemma show_nat_chars: "c \<in> set (show_nat n) \<Longrightarrow> 48 \<le> c \<and> c \<le> 57"
  unfolding show_nat_def
proof (induction "10::nat" n rule: show_radix.induct)
  case (1 n)
  then show ?case by (auto simp: show_radix.simps [of 10 n] digit_char_def split: if_splits)
qed

lemma show_nat_not_Nil [simp]: "show_nat n \<noteq> []"
  by (simp add: show_nat_def)

lemma show_nat_trimmed: "trimmed (show_nat n)"
proof -
  have "\<not> is_ws c" if "c \<in> set (show_nat n)" for c
    using show_nat_chars [OF that] by (auto simp: is_ws_def)
  then show ?thesis by (simp add: trimmed_def)
qed

lemma show_radix_trimmed: "2 \<le> r \<Longrightarrow> r \<le> 16 \<Longrightarrow> trimmed (show_radix r n)"
proof -
  assume r: "2 \<le> r" "r \<le> 16"
  have "\<not> is_ws c" if "c \<in> set (show_radix r n)" for c
    using show_radix_chars [OF r that] by (auto simp: is_ws_def)
  then show ?thesis by (simp add: trimmed_def)
qed

text \<open>A text with a character that is no digit does not parse.\<close>

lemma parse_digits_reject: "c \<in> set s \<Longrightarrow> to_digit r c = None \<Longrightarrow> parse_digits r b acc s = None"
  by (induction s arbitrary: acc) (auto split: option.splits)

end
