(* ===== verification/Net_Addr.thy ===== *)
theory Net_Addr
  imports Rust_Num
begin

text \<open>
  \<open>std::net::SocketAddr\<close> and its \<open>Display\<close>, which the sources use for log fields, metrics keys
  and messages (\<open>format_addr\<close> in \<open>src/src/utils/log_record.rs\<close>).
\<close>

datatype socket_addr =
    SockV4 (v4_bits: u32) (v4_port: u16)
  | SockV6 (v6_bits: "128 word") (v6_port: u16) (v6_flowinfo: u32) (v6_scope: u32)

definition localhost_v4 :: u32 where
  "localhost_v4 = 0x7F000001"

definition join_with :: "str \<Rightarrow> str list \<Rightarrow> str" where
  "join_with sep xs = (case xs of [] \<Rightarrow> [] | x # r \<Rightarrow> x @ concat (map (\<lambda>y. sep @ y) r))"

lemma join_with_simps [simp]:
  "join_with sep [] = []"
  "join_with sep [x] = x"
  "join_with sep (x # y # r) = x @ sep @ join_with sep (y # r)"
  by (simp_all add: join_with_def)

definition show_v4 :: "u32 \<Rightarrow> str" where
  "show_v4 a = (let n = unat a in
     join_with (lit ''.'') (map show_nat [n div 16777216, n div 65536 mod 256, n div 256 mod 256, n mod 256]))"

text \<open>The longest run of zero segments, the first of several, as (start, length).\<close>

fun zero_span :: "nat \<Rightarrow> nat \<times> nat \<Rightarrow> nat \<times> nat \<Rightarrow> nat list \<Rightarrow> nat \<times> nat" where
  "zero_span i current longest [] = longest"
| "zero_span i current longest (x # xs) =
    (if x = 0 then
       let current' = (if snd current = 0 then (i, 1) else (fst current, snd current + 1));
           longest' = (if snd current' > snd longest then current' else longest)
       in zero_span (Suc i) current' longest' xs
     else zero_span (Suc i) (0, 0) longest xs)"

definition v6_segments :: "128 word \<Rightarrow> nat list" where
  "v6_segments a = map (\<lambda>i. unat a div 65536 ^ (7 - i) mod 65536) [0..<8]"

definition show_v6 :: "128 word \<Rightarrow> str" where
  "show_v6 a =
    (let segs = v6_segments a;
         (start, len) = zero_span 0 (0, 0) (0, 0) segs;
         hex = (\<lambda>xs. join_with (lit '':'') (map (show_radix 16) xs))
     in if take 6 segs = [0, 0, 0, 0, 0, 65535] then
          lit ''::ffff:'' @ show_v4 (ucast a)
        else if len > 1 then
          hex (take start segs) @ lit ''::'' @ hex (drop (start + len) segs)
        else hex segs)"

fun format_addr :: "socket_addr \<Rightarrow> str" where
  "format_addr (SockV4 a p) = show_v4 a @ lit '':'' @ show_nat (unat p)"
| "format_addr (SockV6 a p f sc) =
     (if sc = 0 then lit ''['' @ show_v6 a @ lit '']:'' @ show_nat (unat p)
      else lit ''['' @ show_v6 a @ lit ''%'' @ show_nat (unat sc) @ lit '']:'' @ show_nat (unat p))"

lemma format_addr_not_Nil [simp]: "format_addr a \<noteq> []"
  by (cases a) auto

end
