(* ===== verification/Streams.thy ===== *)
theory Streams
  imports Errors Net_Addr
begin

text \<open>
  The I/O interfaces the sources use. The trait \<open>std::io::Read\<close> is the locale \<open>reader\<close>: a
  read function together with the bytes still to come and a measure that decreases with
  every read that is not the end of the stream. \<open>live_reader\<close> adds the streams on which no
  read fails. \<open>Read::read_exact\<close> is the standard library's provided method. A TCP
  connection is a script of read results, so every way in which the network can cut a
  message into segments, fail or end early is a value of the model, and its write side
  records what the peer receives.
\<close>

section \<open>Read::read\_exact\<close>

type_synonym 's read_fn = "'s \<Rightarrow> nat \<Rightarrow> (io_error + bytes) \<times> 's"

definition read_exact_eof :: io_error where
  "read_exact_eof = IoError UnexpectedEof (lit ''failed to fill whole buffer'')"

text \<open>Reads \<open>n\<close> more bytes behind \<open>acc\<close>; retries interrupted reads.\<close>

partial_function (option) read_exact :: "'s read_fn \<Rightarrow> 's \<Rightarrow> nat \<Rightarrow> bytes \<Rightarrow> (io_error, bytes, 's) io" where
  "read_exact rd s n acc =
    (if n = 0 then Some (Inr acc, s)
     else (case rd s n of (r, s') \<Rightarrow>
       (case r of
          Inl e \<Rightarrow> if err_kind e = Interrupted then read_exact rd s' n acc else Some (Inl e, s')
        | Inr bs \<Rightarrow> if bs = [] then Some (Inl read_exact_eof, s')
                    else read_exact rd s' (n - length bs) (acc @ bs))))"

section \<open>The reader interface\<close>

locale reader =
  fixes rd :: "'s \<Rightarrow> nat \<Rightarrow> (io_error + bytes) \<times> 's"
    and wire :: "'s \<Rightarrow> bytes"
    and fuel :: "'s \<Rightarrow> nat"
  assumes read_len: "rd s n = (Inr bs, s') \<Longrightarrow> length bs \<le> n"
    and read_wire: "rd s n = (Inr bs, s') \<Longrightarrow> wire s = bs @ wire s'"
    and read_err_wire: "rd s n = (Inl e, s') \<Longrightarrow> wire s' = wire s"
    and read_fuel: "rd s n = (r, s') \<Longrightarrow> fuel s' \<le> fuel s"
    and read_progress: "0 < n \<Longrightarrow> rd s n = (r, s') \<Longrightarrow> r \<noteq> Inr [] \<Longrightarrow> fuel s' < fuel s"
begin

lemma read_exact_total: "\<exists>r s'. read_exact rd s n acc = Some (r, s')"
proof (induction "fuel s" arbitrary: s n acc rule: less_induct)
  case less
  obtain r s' where r: "rd s n = (r, s')" by force
  have IH: "\<And>m a. r \<noteq> Inr [] \<Longrightarrow> 0 < n \<Longrightarrow> \<exists>q t. read_exact rd s' m a = Some (q, t)"
    using less read_progress [OF _ r] by blast
  show ?case
    using IH r by (subst read_exact.simps) (auto split: sum.splits)
qed

lemma read_exact_ok:
  "read_exact rd s n acc = Some (Inr bs, t) \<Longrightarrow>
     \<exists>d. bs = acc @ d \<and> length d = n \<and> wire s = d @ wire t"
proof (induction "fuel s" arbitrary: s n acc rule: less_induct)
  case less
  obtain r s' where r: "rd s n = (r, s')" by force
  show ?case
  proof (cases "n = 0")
    case True
    with less.prems show ?thesis by (simp add: read_exact.simps)
  next
    case False
    then have n: "0 < n" by simp
    show ?thesis
    proof (cases r)
      case (Inl e)
      with less.prems False r have "read_exact rd s' n acc = Some (Inr bs, t)"
        by (subst (asm) read_exact.simps) (auto split: if_splits)
      moreover have "fuel s' < fuel s" using read_progress [OF n r] Inl by simp
      ultimately have "\<exists>d. bs = acc @ d \<and> length d = n \<and> wire s' = d @ wire t"
        using less.hyps by blast
      then show ?thesis using read_err_wire r Inl by simp
    next
      case (Inr cs)
      with less.prems False r have ne: "cs \<noteq> []"
        and rec: "read_exact rd s' (n - length cs) (acc @ cs) = Some (Inr bs, t)"
        by (subst (asm) read_exact.simps; auto split: if_splits)+
      from ne Inr have "fuel s' < fuel s" using read_progress [OF n r] by simp
      with less.hyps rec obtain d where d: "bs = (acc @ cs) @ d" "length d = n - length cs"
        "wire s' = d @ wire t" by blast
      moreover have "length cs \<le> n" "wire s = cs @ wire s'"
        using read_len read_wire r Inr by auto
      ultimately show ?thesis by (intro exI [of _ "cs @ d"]) simp
    qed
  qed
qed

lemma read_exact_fuel: "read_exact rd s n acc = Some (r, t) \<Longrightarrow> fuel t \<le> fuel s"
proof (induction "fuel s" arbitrary: s n acc rule: less_induct)
  case less
  obtain q s' where r: "rd s n = (q, s')" by force
  show ?case
  proof (cases "n = 0 \<or> q = Inr []")
    case True
    with less.prems r read_fuel [OF r] show ?thesis
      by (subst (asm) read_exact.simps) (auto split: if_splits)
  next
    case False
    then have lt: "fuel s' < fuel s" using read_progress [OF _ r] by simp
    then have IH: "fuel t \<le> fuel s'" if "read_exact rd s' m a = Some (r, t)" for m a
      using less.hyps that by blast
    have "fuel t \<le> fuel s'"
      using less.prems False r IH
      by (subst (asm) read_exact.simps) (auto split: sum.splits if_splits)
    with lt show ?thesis by simp
  qed
qed

lemma read_exact_progress:
  assumes ok: "read_exact rd s n acc = Some (Inr bs, t)" and "0 < n"
  shows "fuel t < fuel s"
proof -
  obtain q s' where r: "rd s n = (q, s')" by force
  have ne: "q \<noteq> Inr []" using ok r \<open>0 < n\<close> by (subst (asm) read_exact.simps) auto
  have "fuel t \<le> fuel s'"
    using ok r ne \<open>0 < n\<close> read_exact_fuel
    by (subst (asm) read_exact.simps) (auto split: sum.splits if_splits)
  then show ?thesis using read_progress [OF \<open>0 < n\<close> r ne] by simp
qed

end

text \<open>Streams on which reads deliver data as long as there is some.\<close>

locale live_reader = reader +
  fixes clean :: "'a \<Rightarrow> bool"
  assumes clean_read:
    "clean s \<Longrightarrow> 0 < n \<Longrightarrow> \<exists>bs s'. rd s n = (Inr bs, s') \<and> clean s' \<and> (wire s \<noteq> [] \<longrightarrow> bs \<noteq> [])"
begin

lemma clean_readE:
  assumes "clean s" "0 < n"
  obtains bs s' where "rd s n = (Inr bs, s')" "clean s'" "wire s = bs @ wire s'" "length bs \<le> n"
    "bs = [] \<longleftrightarrow> wire s = []" "bs \<noteq> [] \<longrightarrow> fuel s' < fuel s"
proof -
  obtain bs s' where 1: "rd s n = (Inr bs, s')" "clean s'" "wire s \<noteq> [] \<longrightarrow> bs \<noteq> []"
    using clean_read [OF assms] by blast
  then show thesis
    using that read_wire [OF 1(1)] read_len [OF 1(1)] read_progress [OF assms(2) 1(1)] by auto
qed

lemma read_exact_clean:
  "clean s \<Longrightarrow> n \<le> length (wire s) \<Longrightarrow>
     \<exists>t. read_exact rd s n acc = Some (Inr (acc @ take n (wire s)), t) \<and> clean t \<and> wire t = drop n (wire s)"
proof (induction "fuel s" arbitrary: s n acc rule: less_induct)
  case less
  show ?case
  proof (cases "n = 0")
    case True
    with less.prems show ?thesis by (simp add: read_exact.simps)
  next
    case False
    then have "0 < n" by simp
    with less.prems(1) obtain bs s' where r: "rd s n = (Inr bs, s')" "clean s'" "wire s = bs @ wire s'"
      "length bs \<le> n" "bs = [] \<longleftrightarrow> wire s = []" "bs \<noteq> [] \<longrightarrow> fuel s' < fuel s"
      by (rule clean_readE)
    with less.prems False have ne: "bs \<noteq> []" by auto
    have le: "n - length bs \<le> length (wire s')" using r(3) less.prems(2) by simp
    from r ne have "fuel s' < fuel s" by simp
    from less.hyps [OF this r(2) le, of "acc @ bs"] obtain t where
      "read_exact rd s' (n - length bs) (acc @ bs)
         = Some (Inr ((acc @ bs) @ take (n - length bs) (wire s')), t)"
      "clean t" "wire t = drop (n - length bs) (wire s')"
      by blast
    with r ne False show ?thesis by (subst read_exact.simps) simp
  qed
qed

lemma read_exact_short:
  "clean s \<Longrightarrow> length (wire s) < n \<Longrightarrow> \<exists>t. read_exact rd s n acc = Some (Inl read_exact_eof, t)"
proof (induction "fuel s" arbitrary: s n acc rule: less_induct)
  case less
  then have "0 < n" by simp
  with less.prems(1) obtain bs s' where r: "rd s n = (Inr bs, s')" "clean s'" "wire s = bs @ wire s'"
    "length bs \<le> n" "bs = [] \<longleftrightarrow> wire s = []" "bs \<noteq> [] \<longrightarrow> fuel s' < fuel s"
    by (rule clean_readE)
  show ?case
  proof (cases "bs = []")
    case True
    with r \<open>0 < n\<close> show ?thesis by (subst read_exact.simps) simp
  next
    case False
    have "length (wire s') < n - length bs" using r(3) less.prems(2) by simp
    with False r less.hyps [of s'] obtain t where
      "read_exact rd s' (n - length bs) (acc @ bs) = Some (Inl read_exact_eof, t)" by blast
    with r False \<open>0 < n\<close> show ?thesis by (subst read_exact.simps) simp
  qed
qed

end

section \<open>A TCP connection\<close>

text \<open>
  The inbound direction is the script of what successive reads meet: \<open>Recv bs\<close> is a
  segment that has arrived, \<open>Fault e\<close> a read that fails (a reset, or the read timeout
  running out), and the end of the script the peer's orderly end of stream.
\<close>

datatype net_event = Recv bytes | Fault io_error

type_synonym inbound = "net_event list"

fun tcp_read :: "inbound \<Rightarrow> nat \<Rightarrow> (io_error + bytes) \<times> inbound" where
  "tcp_read [] n = (Inr [], [])"
| "tcp_read (Recv bs # es) n =
    (if length bs \<le> n then (Inr bs, es) else (Inr (take n bs), Recv (drop n bs) # es))"
| "tcp_read (Fault e # es) n = (Inl e, es)"

fun tcp_wire :: "inbound \<Rightarrow> bytes" where
  "tcp_wire [] = []"
| "tcp_wire (Recv bs # es) = bs @ tcp_wire es"
| "tcp_wire (Fault e # es) = tcp_wire es"

fun tcp_fuel :: "inbound \<Rightarrow> nat" where
  "tcp_fuel [] = 0"
| "tcp_fuel (Recv bs # es) = Suc (length bs + tcp_fuel es)"
| "tcp_fuel (Fault e # es) = Suc (tcp_fuel es)"

definition tcp_clean :: "inbound \<Rightarrow> bool" where
  "tcp_clean es \<longleftrightarrow> list_all (\<lambda>ev. case ev of Recv bs \<Rightarrow> bs \<noteq> [] | Fault e \<Rightarrow> False) es"

interpretation tcp: live_reader tcp_read tcp_wire tcp_fuel tcp_clean
proof
  fix s n bs s'
  assume "tcp_read s n = (Inr bs, s')"
  then show "length bs \<le> n" "tcp_wire s = bs @ tcp_wire s'"
    by (cases s rule: tcp_wire.cases; auto split: if_splits)+
next
  fix s n r s'
  assume "tcp_read s n = (r, s')"
  then show "tcp_fuel s' \<le> tcp_fuel s"
    by (cases s rule: tcp_wire.cases) (auto split: if_splits)
next
  fix s n e s'
  assume "tcp_read s n = (Inl e, s')"
  then show "tcp_wire s' = tcp_wire s"
    by (cases s rule: tcp_wire.cases) (auto split: if_splits)
next
  fix s n r s'
  assume "0 < n" "tcp_read s n = (r, s')" "r \<noteq> Inr []"
  then show "tcp_fuel s' < tcp_fuel s"
    by (cases s rule: tcp_wire.cases) (auto split: if_splits)
next
  fix s n
  assume "tcp_clean s" "0 < (n::nat)"
  then show "\<exists>bs s'. tcp_read s n = (Inr bs, s') \<and> tcp_clean s' \<and> (tcp_wire s \<noteq> [] \<longrightarrow> bs \<noteq> [])"
    by (cases s rule: tcp_wire.cases) (auto simp: tcp_clean_def)
qed

section \<open>The write side of a connection\<close>

text \<open>
  \<open>write_fault = Some (k, e)\<close>: the peer takes \<open>k\<close> more bytes, then writing fails with \<open>e\<close>.
  The other faults are the results of the operations they name. \<open>outbound\<close> is what the
  peer has been sent.
\<close>

record socket =
  inbound :: inbound
  peer :: "socket_addr option"
  timeout_fault :: "io_error option"
  write_fault :: "(nat \<times> io_error) option"
  flush_fault :: "io_error option"
  shutdown_fault :: "io_error option"
  outbound :: bytes
  write_closed :: bool

definition zero_timeout_error :: io_error where
  "zero_timeout_error = IoError OtherKind (lit ''cannot set a 0 duration timeout'')"

text \<open>\<open>set_read_timeout(Some(d))\<close> refuses the zero duration.\<close>

definition set_read_timeout :: "duration \<Rightarrow> socket \<Rightarrow> io_error + unit" where
  "set_read_timeout d sk =
    (if d = 0 then Inl zero_timeout_error
     else case timeout_fault sk of Some e \<Rightarrow> Inl e | None \<Rightarrow> Inr ())"

definition write_all :: "bytes \<Rightarrow> socket \<Rightarrow> (io_error + unit) \<times> socket" where
  "write_all bs sk =
    (case write_fault sk of
       None \<Rightarrow> (Inr (), sk\<lparr>outbound := outbound sk @ bs\<rparr>)
     | Some (k, e) \<Rightarrow>
         if length bs \<le> k
         then (Inr (), sk\<lparr>outbound := outbound sk @ bs, write_fault := Some (k - length bs, e)\<rparr>)
         else (Inl e, sk\<lparr>outbound := outbound sk @ take k bs, write_fault := Some (0, e)\<rparr>))"

definition flush :: "socket \<Rightarrow> io_error + unit" where
  "flush sk = (case flush_fault sk of None \<Rightarrow> Inr () | Some e \<Rightarrow> Inl e)"

definition shutdown_write :: "socket \<Rightarrow> (io_error + unit) \<times> socket" where
  "shutdown_write sk =
    (case shutdown_fault sk of None \<Rightarrow> (Inr (), sk\<lparr>write_closed := True\<rparr>) | Some e \<Rightarrow> (Inl e, sk))"

lemma write_all_outbound: "\<exists>ds. outbound (snd (write_all bs sk)) = outbound sk @ ds \<and> (\<exists>z. bs = ds @ z)"
  by (auto simp: write_all_def split: option.splits intro: exI [of _ "[]"] exI [of _ "drop _ _"])
     (metis append_take_drop_id)

lemma write_all_ok: "write_all bs sk = (Inr (), sk') \<Longrightarrow> outbound sk' = outbound sk @ bs"
  by (auto simp: write_all_def split: option.splits if_splits)

end
