(* ===== verification/Config.thy ===== *)
theory Config
  imports Errors Net_Addr
begin

text \<open>
  \<open>src/src/config.rs\<close>: the configuration structures, their defaults and their validation.
\<close>

record limits =
  max_header_bytes :: nat
  max_body_bytes :: nat
  max_response_bytes :: nat

definition default_limits :: limits where
  "default_limits =
    \<lparr>max_header_bytes = 64 * 1024, max_body_bytes = 16 * 1024 * 1024,
     max_response_bytes = 16 * 1024 * 1024\<rparr>"

definition validate_limits :: "limits \<Rightarrow> unit mzani_result" where
  "validate_limits l =
    (if max_header_bytes l = 0 \<or> max_body_bytes l = 0 \<or> max_response_bytes l = 0
     then Inl (ParseError (lit ''limits must be greater than zero''))
     else Inr ())"

record timeouts =
  read :: duration
  slow_request_warn :: duration
  accept_read :: duration

definition default_timeouts :: timeouts where
  "default_timeouts =
    \<lparr>read = from_secs 30, slow_request_warn = from_millis 500, accept_read = from_secs 30\<rparr>"

record health_config =
  interval :: duration
  connect_timeout :: duration
  failure_threshold :: u32
  recovery_threshold :: u32

definition default_health :: health_config where
  "default_health =
    \<lparr>interval = from_secs 5, connect_timeout = from_secs 2,
     failure_threshold = 2, recovery_threshold = 1\<rparr>"

definition validate_health :: "health_config \<Rightarrow> unit mzani_result" where
  "validate_health h =
    (if interval h = 0 \<or> connect_timeout h = 0
     then Inl (ParseError (lit ''health intervals must be non-zero''))
     else if failure_threshold h = 0 \<or> recovery_threshold h = 0
     then Inl (ParseError (lit ''health thresholds must be at least 1''))
     else Inr ())"

record pool_config =
  workers :: nat
  per_worker_queue :: nat
  log_channel_capacity :: nat
  metrics_channel_capacity :: nat

definition default_pool :: pool_config where
  "default_pool =
    \<lparr>workers = 10, per_worker_queue = 7,
     log_channel_capacity = 1024, metrics_channel_capacity = 1024\<rparr>"

definition validate_pool :: "pool_config \<Rightarrow> unit mzani_result" where
  "validate_pool p =
    (if workers p = 0 \<or> per_worker_queue p = 0
     then Inl (ParseError (lit ''workers and per_worker_queue must be at least 1''))
     else if log_channel_capacity p = 0 \<or> metrics_channel_capacity p = 0
     then Inl (ParseError (lit ''channel capacities must be at least 1''))
     else Inr ())"

record balancer_config =
  listen :: socket_addr
  backends :: "socket_addr list"
  log_dir :: str
  limits :: limits
  timeouts :: timeouts
  health :: health_config
  pool :: pool_config
  max_backend_retries :: u32

definition default_config :: balancer_config where
  "default_config =
    \<lparr>listen = SockV4 localhost_v4 8080, backends = [], log_dir = lit ''logs'',
     limits = default_limits, timeouts = default_timeouts, health = default_health,
     pool = default_pool, max_backend_retries = 1\<rparr>"

definition validate_config :: "balancer_config \<Rightarrow> unit mzani_result" where
  "validate_config c =
    (if backends c = [] then Inl EmptyServerList
     else and_then (validate_limits (limits c)) (\<lambda>_.
          and_then (validate_health (health c)) (\<lambda>_.
          and_then (validate_pool (pool c)) (\<lambda>_. Inr ()))))"

section \<open>What validation accepts\<close>

lemma validate_limits_ok:
  "validate_limits l = Inr () \<longleftrightarrow>
     0 < max_header_bytes l \<and> 0 < max_body_bytes l \<and> 0 < max_response_bytes l"
  by (simp add: validate_limits_def)

lemma validate_health_ok:
  "validate_health h = Inr () \<longleftrightarrow>
     0 < interval h \<and> 0 < connect_timeout h \<and> failure_threshold h \<noteq> 0 \<and> recovery_threshold h \<noteq> 0"
  by (simp add: validate_health_def)

lemma validate_pool_ok:
  "validate_pool p = Inr () \<longleftrightarrow>
     0 < workers p \<and> 0 < per_worker_queue p
     \<and> 0 < log_channel_capacity p \<and> 0 < metrics_channel_capacity p"
  by (simp add: validate_pool_def)

lemma validate_config_ok:
  "validate_config c = Inr () \<longleftrightarrow>
     backends c \<noteq> [] \<and> validate_limits (limits c) = Inr ()
     \<and> validate_health (health c) = Inr () \<and> validate_pool (pool c) = Inr ()"
  by (auto simp: validate_config_def result_simps)

lemma validate_config_errors:
  "validate_config c = Inl e \<Longrightarrow> e = EmptyServerList \<or> (\<exists>m. e = ParseError m)"
  by (auto simp: validate_config_def validate_limits_def validate_health_def validate_pool_def
      result_simps split: if_splits)

lemma validate_config_empty: "validate_config c = Inl EmptyServerList \<longleftrightarrow> backends c = []"
  by (auto simp: validate_config_def validate_limits_def validate_health_def validate_pool_def
      result_simps split: if_splits)

lemma default_config_valid_with_backends:
  "bs \<noteq> [] \<Longrightarrow> validate_config (default_config\<lparr>listen := a, backends := bs\<rparr>) = Inr ()"
  by (simp add: validate_config_ok validate_limits_ok validate_health_ok validate_pool_ok
      default_config_def default_limits_def default_health_def default_pool_def
      from_secs_def)

text \<open>The timeouts are not validated.\<close>

lemma validate_config_ignores_timeouts:
  "validate_config (c\<lparr>timeouts := t\<rparr>) = validate_config c"
  by (simp add: validate_config_def)

end
