(* ===== verification/Http_Request.thy ===== *)
theory Http_Request
  imports Streams Config
begin

text \<open>
  \<open>src/src/core/request.rs\<close>: reading a message head from a stream, parsing it, and reading
  a request. \<open>read_header_block\<close>, \<open>parse_header_fields\<close> and \<open>header_field\<close> are shared with
  the response side. The lemmas about reading are proved in the locales \<open>reader\<close> and
  \<open>live_reader\<close>, hence for every reader the program uses.
\<close>

definition header_end :: bytes where
  "header_end = [13, 10, 13, 10]"

section \<open>Methods\<close>

datatype http_method = Get | Post | Put | Delete | Head | Options | Patch | Other str

definition parse_method :: "str \<Rightarrow> http_method" where
  "parse_method s =
    (if s = lit ''GET'' then Get
     else if s = lit ''POST'' then Post
     else if s = lit ''PUT'' then Put
     else if s = lit ''DELETE'' then Delete
     else if s = lit ''HEAD'' then Head
     else if s = lit ''OPTIONS'' then Options
     else if s = lit ''PATCH'' then Patch
     else Other s)"

fun method_str :: "http_method \<Rightarrow> str" where
  "method_str Get = lit ''GET''"
| "method_str Post = lit ''POST''"
| "method_str Put = lit ''PUT''"
| "method_str Delete = lit ''DELETE''"
| "method_str Head = lit ''HEAD''"
| "method_str Options = lit ''OPTIONS''"
| "method_str Patch = lit ''PATCH''"
| "method_str (Other value) = value"

record request =
  rq_method :: http_method
  rq_path :: str
  rq_headers :: "(str \<times> str) list"
  rq_body :: bytes
  rq_raw_head :: bytes

definition request_to_bytes :: "request \<Rightarrow> bytes" where
  "request_to_bytes r = rq_raw_head r @ rq_body r"

section \<open>The header block\<close>

text \<open>\<open>find_subslice\<close>: the position of the first window equal to the needle.\<close>

fun find_subslice :: "bytes \<Rightarrow> bytes \<Rightarrow> nat option" where
  "find_subslice [] needle = None"
| "find_subslice (b # bs) needle =
    (if length (b # bs) < length needle then None
     else if take (length needle) (b # bs) = needle then Some 0
     else map_option Suc (find_subslice bs needle))"

definition header_chunk_size :: nat where
  "header_chunk_size = 4096"

partial_function (option) read_header_block ::
  "'s read_fn \<Rightarrow> nat \<Rightarrow> 's \<Rightarrow> bytes \<Rightarrow> (mzani_error, bytes \<times> bytes, 's) io" where
  "read_header_block rd max_bytes s buf =
    (if length buf > max_bytes
     then Some (Inl (parse_err (lit ''header block exceeds maximum size'')), s)
     else (case rd s header_chunk_size of (r, s') \<Rightarrow>
       (case r of
          Inl e \<Rightarrow> Some (Inl (from_io e), s')
        | Inr bs \<Rightarrow>
            if bs = [] then Some (Inl EmptyRequest, s')
            else (case find_subslice (buf @ bs) header_end of
                    Some end_pos \<Rightarrow>
                      Some (Inr (take (end_pos + length header_end) (buf @ bs),
                                 drop (end_pos + length header_end) (buf @ bs)), s')
                  | None \<Rightarrow> read_header_block rd max_bytes s' (buf @ bs)))))"

section \<open>Header fields\<close>

fun header_lines :: "str list \<Rightarrow> (str \<times> str) list mzani_result" where
  "header_lines [] = Inr []"
| "header_lines (line # lines) =
    (if line = [] then Inr []
     else case split_once 58 line of
            None \<Rightarrow> Inl (parse_err (lit ''malformed header line''))
          | Some (name, value) \<Rightarrow>
              and_then (header_lines lines) (\<lambda>hs. Inr ((trim name, trim value) # hs)))"

definition parse_header_fields :: "bytes \<Rightarrow> (str \<times> str) list mzani_result" where
  "parse_header_fields raw_head =
    and_then (ok_or (parse_err (lit ''invalid utf-8 in headers'')) (from_utf8 raw_head)) (\<lambda>head.
      case split_crlf head of
        [] \<Rightarrow> Inl (parse_err (lit ''missing start line''))
      | start_line # lines \<Rightarrow> header_lines lines)"

definition parse_head :: "bytes \<Rightarrow> (http_method \<times> str \<times> (str \<times> str) list) mzani_result" where
  "parse_head raw_head =
    and_then (ok_or (parse_err (lit ''invalid utf-8 in headers'')) (from_utf8 raw_head)) (\<lambda>head.
      case split_crlf head of
        [] \<Rightarrow> Inl (parse_err (lit ''missing request line''))
      | request_line # _ \<Rightarrow>
          (case split_whitespace request_line of
             [] \<Rightarrow> Inl (parse_err (lit ''missing method''))
           | [m] \<Rightarrow> Inl (parse_err (lit ''missing path''))
           | m # path # _ \<Rightarrow>
               and_then (parse_header_fields raw_head) (\<lambda>headers.
                 Inr (parse_method m, path, headers))))"

definition header_field :: "(str \<times> str) list \<Rightarrow> str \<Rightarrow> str option" where
  "header_field headers name =
     map_option snd (find (\<lambda>h. eq_ignore_ascii_case (fst h) name) headers)"

definition content_length :: "(str \<times> str) list \<Rightarrow> nat mzani_result" where
  "content_length headers =
    (case header_field headers (lit ''content-length'') of
       Some value \<Rightarrow> ok_or (parse_err (lit ''invalid content-length'')) (parse_usize value)
     | None \<Rightarrow> Inr 0)"

section \<open>Reading a request\<close>

definition request_from_stream :: "'s read_fn \<Rightarrow> limits \<Rightarrow> 's \<Rightarrow> (mzani_error, request, 's) io" where
  "request_from_stream rd l s =
    io_try id (read_header_block rd (max_header_bytes l) s []) (\<lambda>(raw_head, body_prefix) s1.
      case parse_head raw_head of
        Inl e \<Rightarrow> Some (Inl e, s1)
      | Inr (m, path, headers) \<Rightarrow>
         (case content_length headers of
            Inl e \<Rightarrow> Some (Inl e, s1)
          | Inr len \<Rightarrow>
              if len > max_body_bytes l then Some (Inl BodyTooLarge, s1)
              else if length body_prefix > max_body_bytes l then Some (Inl BodyTooLarge, s1)
              else let remaining = len - length body_prefix;
                       request = (\<lambda>body. \<lparr>rq_method = m, rq_path = path, rq_headers = headers,
                                          rq_body = body, rq_raw_head = raw_head\<rparr>)
                   in if remaining > 0
                      then io_try from_io (read_exact rd s1 remaining []) (\<lambda>rest s2.
                             Some (Inr (request (body_prefix @ rest)), s2))
                      else Some (Inr (request body_prefix), s1)))"

section \<open>Methods: lemmas\<close>

lemma method_str_parse: "method_str (parse_method s) = s"
  by (auto simp: parse_method_def)

lemma parse_method_str: "(\<nexists>v. m = Other v) \<Longrightarrow> parse_method (method_str m) = m"
  by (cases m) (simp_all add: parse_method_def)

section \<open>Finding the terminator: lemmas\<close>

definition occurs_at :: "bytes \<Rightarrow> bytes \<Rightarrow> nat \<Rightarrow> bool" where
  "occurs_at h nd i \<longleftrightarrow> i + length nd \<le> length h \<and> take (length nd) (drop i h) = nd"

lemma occurs_at_Suc: "occurs_at (b # bs) nd (Suc i) \<longleftrightarrow> occurs_at bs nd i"
  by (simp add: occurs_at_def)

lemma find_subslice_Some:
  "nd \<noteq> [] \<Longrightarrow> find_subslice h nd = Some e \<longleftrightarrow> occurs_at h nd e \<and> (\<forall>i<e. \<not> occurs_at h nd i)"
proof (induction h arbitrary: e)
  case Nil
  then show ?case by (simp add: occurs_at_def)
next
  case (Cons b bs)
  show ?case
  proof (cases "length (b # bs) < length nd")
    case True
    then show ?thesis by (auto simp: occurs_at_def)
  next
    case len: False
    show ?thesis
    proof (cases "take (length nd) (b # bs) = nd")
      case True
      then have "occurs_at (b # bs) nd 0" using len by (simp add: occurs_at_def)
      with True len show ?thesis by (cases e) auto
    next
      case False
      then have "\<not> occurs_at (b # bs) nd 0" by (simp add: occurs_at_def)
      with False len Cons show ?thesis
        by (cases e) (auto simp: occurs_at_Suc less_Suc_eq_0_disj all_conj_distrib)
    qed
  qed
qed

lemma find_subslice_None:
  assumes "nd \<noteq> []"
  shows "find_subslice h nd = None \<longleftrightarrow> (\<forall>i. \<not> occurs_at h nd i)"
proof -
  have "\<exists>e. find_subslice h nd = Some e" if o: "occurs_at h nd i" for i
    using find_subslice_Some [OF assms] LeastI [of "occurs_at h nd", OF o] not_less_Least by blast
  then show ?thesis using find_subslice_Some [OF assms] by (metis option.exhaust option.distinct(1))
qed

lemma occurs_at_append: "i + length nd \<le> length h \<Longrightarrow> occurs_at (h @ t) nd i \<longleftrightarrow> occurs_at h nd i"
  by (simp add: occurs_at_def)

lemma occurs_atD: "occurs_at h nd i \<Longrightarrow> h = take i h @ nd @ drop (i + length nd) h"
  unfolding occurs_at_def by (metis append_take_drop_id drop_drop add.commute)

lemma find_subslice_append:
  assumes "nd \<noteq> []" "find_subslice h nd = Some e"
  shows "find_subslice (h @ t) nd = Some e"
proof -
  have o: "occurs_at h nd e" "\<forall>i<e. \<not> occurs_at h nd i" and le: "e + length nd \<le> length h"
    using find_subslice_Some assms by (auto simp: occurs_at_def)
  then have "\<forall>i\<le>e. occurs_at (h @ t) nd i \<longleftrightarrow> occurs_at h nd i"
    by (auto intro!: occurs_at_append)
  with o assms(1) show ?thesis by (simp add: find_subslice_Some)
qed

text \<open>The terminator was not there before the last segment: it ends within it.\<close>

lemma find_subslice_new:
  assumes "nd \<noteq> []" "find_subslice h nd = None" "find_subslice (h @ t) nd = Some e"
  shows "length h < e + length nd"
  using assms find_subslice_None [OF assms(1)] find_subslice_Some [OF assms(1)]
  by (metis not_less occurs_at_append)

lemma header_end_facts [simp]: "header_end \<noteq> []" "length header_end = 4"
  by (simp_all add: header_end_def)


section \<open>Reading the header block: lemmas\<close>

context reader
begin

lemma read_header_block_total: "\<exists>r t. read_header_block rd m s buf = Some (r, t)"
proof (induction "fuel s" arbitrary: s buf rule: less_induct)
  case less
  obtain r s' where r: "rd s header_chunk_size = (r, s')" by force
  have "r \<noteq> Inr [] \<Longrightarrow> fuel s' < fuel s"
    using read_progress [OF _ r] by (simp add: header_chunk_size_def)
  then have IH: "\<And>b. r \<noteq> Inr [] \<Longrightarrow> \<exists>q t. read_header_block rd m s' b = Some (q, t)"
    using less.hyps by blast
  show ?case
    using IH r by (subst read_header_block.simps) (auto split: sum.splits option.splits)
qed

text \<open>
  What a successful call has read: the head ends with the first terminator in what came,
  the rest of the last segment is kept, and nothing is lost.
\<close>

lemma read_header_block_ok:
  "read_header_block rd m s buf = Some (Inr (head, pre), t) \<Longrightarrow>
     find_subslice buf header_end = None \<Longrightarrow>
     \<exists>d e. wire s = d @ wire t \<and> buf @ d = head @ pre \<and> length head = e + 4
         \<and> find_subslice (head @ pre) header_end = Some e \<and> length (head @ pre) \<le> m + header_chunk_size"
proof (induction "fuel s" arbitrary: s buf rule: less_induct)
  case less
  obtain r s' where r: "rd s header_chunk_size = (r, s')" by force
  from less.prems(1) r obtain bs where bs: "r = Inr bs" "bs \<noteq> []" "length buf \<le> m"
    by (subst (asm) read_header_block.simps) (auto split: if_splits sum.splits)
  have w: "wire s = bs @ wire s'" "length bs \<le> header_chunk_size"
    using read_wire read_len r bs by auto
  show ?case
  proof (cases "find_subslice (buf @ bs) header_end")
    case None
    with less.prems(1) r bs have rec: "read_header_block rd m s' (buf @ bs) = Some (Inr (head, pre), t)"
      by (subst (asm) read_header_block.simps) simp
    have "fuel s' < fuel s" using read_progress [OF _ r] bs by (simp add: header_chunk_size_def)
    from less.hyps [OF this rec None] obtain d e where
      "wire s' = d @ wire t" "(buf @ bs) @ d = head @ pre" "length head = e + 4"
      "find_subslice (head @ pre) header_end = Some e" "length (head @ pre) \<le> m + header_chunk_size"
      by blast
    with w show ?thesis by (intro exI [of _ "bs @ d"] exI [of _ e]) simp
  next
    case (Some e)
    with less.prems(1) r bs have "head = take (e + 4) (buf @ bs)" "pre = drop (e + 4) (buf @ bs)" "t = s'"
      by (subst (asm) read_header_block.simps; simp)+
    moreover have "e + 4 \<le> length (buf @ bs)"
      using find_subslice_Some [of header_end] Some by (auto simp: occurs_at_def)
    ultimately show ?thesis using Some w bs
      by (intro exI [of _ bs] exI [of _ e]) (simp del: take_append drop_append)
  qed
qed

lemma read_header_block_fuel: "read_header_block rd m s buf = Some (Inr x, t) \<Longrightarrow> fuel t < fuel s"
proof (induction "fuel s" arbitrary: s buf rule: less_induct)
  case less
  obtain r s' where r: "rd s header_chunk_size = (r, s')" by force
  from less.prems r have ne: "r \<noteq> Inr []"
    by (subst (asm) read_header_block.simps) (auto split: if_splits)
  then have lt: "fuel s' < fuel s" using read_progress [OF _ r] by (simp add: header_chunk_size_def)
  have "t = s' \<or> (\<exists>b. read_header_block rd m s' b = Some (Inr x, t))"
    using less.prems r by (subst (asm) read_header_block.simps) (auto split: if_splits sum.splits option.splits)
  then show ?case using lt less.hyps [of s'] by (auto intro: less_trans)
qed

lemma read_header_block_err:
  "read_header_block rd m s buf = Some (Inl e, t) \<Longrightarrow>
     e = EmptyRequest \<or> e = parse_err (lit ''header block exceeds maximum size'') \<or> (\<exists>d. e = from_io d)"
proof (induction "fuel s" arbitrary: s buf rule: less_induct)
  case less
  obtain r s' where r: "rd s header_chunk_size = (r, s')" by force
  have IH: "read_header_block rd m s' b = Some (Inl e, t) \<Longrightarrow> r \<noteq> Inr [] \<Longrightarrow> ?case" for b
    using less.hyps read_progress [OF _ r] by (simp add: header_chunk_size_def)
  show ?case
    using less.prems r IH
    by (subst (asm) read_header_block.simps) (auto split: if_splits sum.splits option.splits)
qed

end

context live_reader
begin

text \<open>
  On a stream that does not fail, the result does not depend on how it was cut into
  segments: a head that ends within \<open>m + 1\<close> bytes is returned, whatever the segments.
\<close>

lemma read_header_block_clean:
  "clean s \<Longrightarrow> find_subslice buf header_end = None \<Longrightarrow>
     find_subslice (buf @ wire s) header_end = Some e \<Longrightarrow> e + 3 \<le> m \<Longrightarrow>
     \<exists>pre t. read_header_block rd m s buf = Some (Inr (take (e + 4) (buf @ wire s), pre), t)
           \<and> clean t \<and> pre @ wire t = drop (e + 4) (buf @ wire s)"
proof (induction "fuel s" arbitrary: s buf rule: less_induct)
  case less
  have "0 < header_chunk_size" by (simp add: header_chunk_size_def)
  with less.prems(1) obtain bs s' where r: "rd s header_chunk_size = (Inr bs, s')" "clean s'"
    "wire s = bs @ wire s'" "length bs \<le> header_chunk_size" "bs = [] \<longleftrightarrow> wire s = []"
    "bs \<noteq> [] \<longrightarrow> fuel s' < fuel s"
    by (rule clean_readE)
  have "length buf < e + 4" using find_subslice_new [OF _ less.prems(2,3)] by simp
  then have lenb: "\<not> length buf > m" using less.prems(4) by simp
  have ne: "bs \<noteq> []" using r(5) less.prems(2,3) by auto
  show ?case
  proof (cases "find_subslice (buf @ bs) header_end")
    case None
    have "find_subslice ((buf @ bs) @ wire s') header_end = Some e" using less.prems(3) r(3) by simp
    from less.hyps [OF _ r(2) None this less.prems(4)] ne r(6) obtain pre t where
      "read_header_block rd m s' (buf @ bs) = Some (Inr (take (e + 4) ((buf @ bs) @ wire s'), pre), t)"
      "clean t" "pre @ wire t = drop (e + 4) ((buf @ bs) @ wire s')" by blast
    with None lenb r ne show ?thesis
      by (subst read_header_block.simps) (simp del: take_append drop_append)
  next
    case (Some e')
    have "find_subslice ((buf @ bs) @ wire s') header_end = Some e'"
      by (rule find_subslice_append [OF header_end_facts(1) Some])
    then have e: "e' = e" using less.prems(3) r(3) by simp
    have le: "e + 4 \<le> length (buf @ bs)"
      using find_subslice_Some [of header_end] Some e by (auto simp: occurs_at_def)
    have tk: "take (e + 4) (buf @ wire s) = take (e + 4) (buf @ bs)"
      and dr: "drop (e + 4) (buf @ wire s) = drop (e + 4) (buf @ bs) @ wire s'"
      using le r(3) by (simp_all add: append_assoc [symmetric] del: append_assoc)
    show ?thesis
      unfolding tk dr using Some e lenb r ne
      by (subst read_header_block.simps) (simp del: take_append drop_append)
  qed
qed

text \<open>Without a terminator the result is an error: the head is too long, or the stream ended.\<close>

lemma read_header_block_no_end:
  "clean s \<Longrightarrow> find_subslice (buf @ wire s) header_end = None \<Longrightarrow>
     \<exists>t. read_header_block rd m s buf =
        Some (Inl (if length (buf @ wire s) > m then parse_err (lit ''header block exceeds maximum size'')
                   else EmptyRequest), t)"
proof (induction "fuel s" arbitrary: s buf rule: less_induct)
  case less
  define err where "err = (if length (buf @ wire s) > m
     then parse_err (lit ''header block exceeds maximum size'') else EmptyRequest)"
  have "0 < header_chunk_size" by (simp add: header_chunk_size_def)
  with less.prems(1) obtain bs s' where r: "rd s header_chunk_size = (Inr bs, s')" "clean s'"
    "wire s = bs @ wire s'" "length bs \<le> header_chunk_size" "bs = [] \<longleftrightarrow> wire s = []"
    "bs \<noteq> [] \<longrightarrow> fuel s' < fuel s"
    by (rule clean_readE)
  have n: "find_subslice (buf @ bs) header_end = None"
  proof (rule ccontr)
    assume "find_subslice (buf @ bs) header_end \<noteq> None"
    then obtain e where "find_subslice (buf @ bs) header_end = Some e" by blast
    from find_subslice_append [OF header_end_facts(1) this, of "wire s'"] less.prems(2) r(3)
    show False by simp
  qed
  have n': "find_subslice ((buf @ bs) @ wire s') header_end = None" using less.prems(2) r(3) by simp
  have "\<exists>t. read_header_block rd m s buf = Some (Inl err, t)"
  proof (cases "length buf > m")
    case True
    then have "err = parse_err (lit ''header block exceeds maximum size'')" by (simp add: err_def)
    with True show ?thesis by (subst read_header_block.simps) simp
  next
    case len: False
    show ?thesis
    proof (cases "bs = []")
      case True
      then have "err = EmptyRequest" using r(5) len by (simp add: err_def)
      with True len r(1) show ?thesis by (subst read_header_block.simps) simp
    next
      case False
      then have "fuel s' < fuel s" using r(6) by simp
      moreover have "err = (if length ((buf @ bs) @ wire s') > m
        then parse_err (lit ''header block exceeds maximum size'') else EmptyRequest)"
        unfolding err_def using r(3) by simp
      ultimately have "\<exists>t. read_header_block rd m s' (buf @ bs) = Some (Inl err, t)"
        using less.hyps [OF _ r(2) n'] by (simp only:)
      then obtain t where "read_header_block rd m s' (buf @ bs) = Some (Inl err, t)" by blast
      with False n r(1) len show ?thesis by (subst read_header_block.simps) simp
    qed
  qed
  then show ?case unfolding err_def .
qed

end

section \<open>Reading a request: lemmas\<close>

context reader
begin

lemma request_from_stream_total: "\<exists>r t. request_from_stream rd l s = Some (r, t)"
  unfolding request_from_stream_def
  by (rule io_try_returns [OF read_header_block_total])
     (auto simp: Let_def intro!: io_try_returns [OF read_exact_total] split: sum.splits)

text \<open>
  What a successful call gives: the bytes it will forward are exactly the bytes it
  consumed, and the body has the announced length, or what had come with the head where
  that is longer.
\<close>

lemma request_from_stream_ok:
  assumes "request_from_stream rd l s = Some (Inr r, t)"
  obtains len where "wire s = request_to_bytes r @ wire t"
    "parse_head (rq_raw_head r) = Inr (rq_method r, rq_path r, rq_headers r)"
    "content_length (rq_headers r) = Inr len" "len \<le> length (rq_body r)"
    "length (rq_body r) \<le> max_body_bytes l"
    "find_subslice (request_to_bytes r) header_end = Some (length (rq_raw_head r) - 4)"
    "4 \<le> length (rq_raw_head r)"
    "length (rq_raw_head r) \<le> max_header_bytes l + header_chunk_size"
proof -
  from assms obtain head pre s1 where h: "read_header_block rd (max_header_bytes l) s [] = Some (Inr (head, pre), s1)"
    by (auto simp: request_from_stream_def result_simps)
  from read_header_block_ok [OF h] obtain e where
    e: "wire s = (head @ pre) @ wire s1" "length head = e + 4"
      "find_subslice (head @ pre) header_end = Some e"
      "length (head @ pre) \<le> max_header_bytes l + header_chunk_size"
    by (auto simp: header_end_def)
  from assms h obtain m p hs len where p: "parse_head head = Inr (m, p, hs)" "content_length hs = Inr len"
    "len \<le> max_body_bytes l" "length pre \<le> max_body_bytes l"
    by (auto simp: request_from_stream_def split: sum.splits if_splits prod.splits)
  define body where "body = rq_body r"
  have r: "r = \<lparr>rq_method = m, rq_path = p, rq_headers = hs, rq_body = body, rq_raw_head = head\<rparr>"
    and b: "wire s1 = drop (length pre) body @ wire t" "take (length pre) body = pre"
      "length body = max len (length pre)"
  proof -
    have "r = \<lparr>rq_method = m, rq_path = p, rq_headers = hs, rq_body = body, rq_raw_head = head\<rparr>
        \<and> wire s1 = drop (length pre) body @ wire t \<and> take (length pre) body = pre
        \<and> length body = max len (length pre)"
    proof (cases "len \<le> length pre")
      case True
      with assms h p show ?thesis
        by (auto simp: request_from_stream_def body_def)
    next
      case False
      with assms h p obtain rest where rest: "read_exact rd s1 (len - length pre) [] = Some (Inr rest, t)"
        "r = \<lparr>rq_method = m, rq_path = p, rq_headers = hs, rq_body = pre @ rest, rq_raw_head = head\<rparr>"
        by (auto simp: request_from_stream_def result_simps)
      from read_exact_ok [OF rest(1)] rest(2) False show ?thesis by (auto simp: body_def)
    qed
    then show "r = \<lparr>rq_method = m, rq_path = p, rq_headers = hs, rq_body = body, rq_raw_head = head\<rparr>"
      "wire s1 = drop (length pre) body @ wire t" "take (length pre) body = pre"
      "length body = max len (length pre)" by auto
  qed
  have bd: "body = pre @ drop (length pre) body" using b(2) by (metis append_take_drop_id)
  have w: "wire s = (head @ body) @ wire t" using e(1) b(1) bd by (metis append.assoc)
  have "head @ body = (head @ pre) @ drop (length pre) body" using bd by (metis append.assoc)
  then have f: "find_subslice (head @ body) header_end = Some e"
    using find_subslice_append [OF header_end_facts(1) e(3)] by metis
  show thesis
    by (rule that [of len]) (use w f p b e r in \<open>auto simp: request_to_bytes_def\<close>)
qed

end

section \<open>Well-formed heads: lemmas\<close>

text \<open>The header fields that parsing produces, and how they are written on the wire.\<close>

definition wf_header :: "str \<times> str \<Rightarrow> bool" where
  "wf_header h \<longleftrightarrow>
     trimmed (fst h) \<and> trimmed (snd h) \<and> 58 \<notin> set (fst h)
     \<and> \<not> has_crlf (fst h) \<and> \<not> has_crlf (snd h)"

definition render_header :: "str \<times> str \<Rightarrow> str" where
  "render_header h = fst h @ 58 # 32 # snd h"

lemma render_header_line:
  "wf_header h \<Longrightarrow> \<not> has_crlf (render_header h) \<and> render_header h \<noteq> []"
  by (simp add: wf_header_def render_header_def no_crlf_colon)

lemma split_once_render:
  "wf_header h \<Longrightarrow> split_once 58 (render_header h) = Some (fst h, 32 # snd h)"
  by (simp add: split_once_Some wf_header_def render_header_def)

lemma header_lines_render:
  "\<forall>h\<in>set hs. wf_header h \<Longrightarrow> header_lines (map render_header hs @ [] # r) = Inr hs"
proof (induction hs)
  case Nil
  then show ?case by simp
next
  case (Cons h hs)
  then have "trim (fst h) = fst h" "trim (32 # snd h) = snd h"
    by (auto simp: wf_header_def trim_trimmed trim_space_left)
  with Cons show ?case by (simp add: render_header_line split_once_render)
qed

lemma header_lines_wf:
  "header_lines ls = Inr hs \<Longrightarrow> \<forall>l\<in>set ls. \<not> has_crlf l \<Longrightarrow> \<forall>h\<in>set hs. wf_header h"
proof (induction ls arbitrary: hs)
  case Nil
  then show ?case by simp
next
  case (Cons l ls)
  show ?case
  proof (cases "l = []")
    case True
    with Cons.prems show ?thesis by simp
  next
    case False
    with Cons.prems(1) obtain n v hs' where l: "split_once 58 l = Some (n, v)"
      "header_lines ls = Inr hs'" "hs = (trim n, trim v) # hs'"
      by (auto simp: result_simps split: option.splits)
    from l(1) have "l = n @ 58 # v" "58 \<notin> set n" by (auto simp: split_once_Some)
    moreover from this have "\<not> has_crlf n" "\<not> has_crlf v"
      using Cons.prems(2) has_crlf_infix [of n "[]" "58 # v"] has_crlf_infix [of v "n @ [58]" "[]"] by auto
    ultimately have "wf_header (trim n, trim v)"
      using set_trim_subset [of n] by (auto simp: wf_header_def trimmed_trim dest: has_crlf_trim)
    with l Cons show ?thesis by simp
  qed
qed

lemma parse_header_fields_wf:
  assumes "parse_header_fields raw = Inr hs"
  shows "\<forall>h\<in>set hs. wf_header h"
proof -
  from assms obtain s where s: "from_utf8 raw = Some s"
    by (auto simp: parse_header_fields_def result_simps)
  obtain start ls where l: "split_crlf s = start # ls" by (cases "split_crlf s") auto
  have "header_lines ls = Inr hs" using assms by (simp add: parse_header_fields_def s l)
  moreover have "\<forall>k\<in>set ls. \<not> has_crlf k"
    using split_crlf_lines_no_crlf [of _ s] l by simp
  ultimately show ?thesis by (rule header_lines_wf)
qed

lemma parse_header_fields_render:
  assumes "from_utf8 raw = Some (head_text (start # map render_header hs))"
    and "\<not> has_crlf start" "\<forall>h\<in>set hs. wf_header h"
  shows "parse_header_fields raw = Inr hs"
proof -
  have "\<forall>l\<in>set (start # map render_header hs). \<not> has_crlf l"
    using assms(2,3) render_header_line by auto
  then have "split_crlf (head_text (start # map render_header hs))
     = (start # map render_header hs) @ [[], []]" by (rule split_crlf_head_text)
  then show ?thesis
    using header_lines_render [OF assms(3), of "[[]]"] by (simp add: parse_header_fields_def assms(1))
qed

text \<open>The terminator of a rendered head is at its end and nowhere earlier.\<close>

lemma from_utf8_header_end:
  assumes "from_utf8 (u @ header_end @ v) = Some s"
  shows "\<exists>s1 s2. s = s1 @ [cr, lf, cr, lf] @ s2 \<and> from_utf8 v = Some s2"
proof -
  from assms have "from_utf8 (u @ 13 # [10, 13, 10] @ v) = Some s" by (simp add: header_end_def)
  from from_utf8_ascii_split [OF this] obtain s1 s2 where
    "s = s1 @ 13 # s2" "from_utf8 ([10, 13, 10] @ v) = Some s2" by auto
  then show ?thesis by auto
qed

lemma find_header_end_rendered:
  assumes raw: "from_utf8 raw = Some (head_text ls)" "ls \<noteq> []"
    and ls: "\<forall>l\<in>set ls. \<not> has_crlf l \<and> l \<noteq> []"
  shows "find_subslice (raw @ body) header_end = Some (length raw - 4) \<and> 4 \<le> length raw"
proof -
  have rawe: "raw = to_utf8 (head_text ls)" using to_utf8_from_utf8 [OF raw(1)] by simp
  obtain x where x: "head_text ls = x @ [cr, lf, cr, lf]" using head_text_join [OF raw(2)] by metis
  have r: "raw = to_utf8 x @ header_end"
    unfolding rawe x by (simp add: header_end_def utf8_char_def)
  have "occurs_at raw header_end (length raw - 4)" by (simp add: occurs_at_def r)
  moreover have "\<not> occurs_at raw header_end i" if "i < length raw - 4" for i
  proof
    assume "occurs_at raw header_end i"
    then have "raw = take i raw @ header_end @ drop (i + 4) raw" using occurs_atD by fastforce
    with raw(1) obtain s1 s2 where "head_text ls = s1 @ [cr, lf, cr, lf] @ s2"
      "from_utf8 (drop (i + 4) raw) = Some s2" using from_utf8_header_end by metis
    then have "from_utf8 (drop (i + 4) raw) = Some []" using head_text_first_blank [OF ls] by blast
    then have "drop (i + 4) raw = []" using to_utf8_from_utf8 by fastforce
    with that show False by simp
  qed
  ultimately have "find_subslice raw header_end = Some (length raw - 4)"
    by (simp add: find_subslice_Some)
  from find_subslice_append [OF header_end_facts(1) this] r show ?thesis by simp
qed

text \<open>
  Completeness: a well-formed request that fits the limits is read, whole and unchanged,
  however the network cuts it into segments.
\<close>

lemma parse_head_render:
  assumes "from_utf8 raw = Some (head_text (line # map render_header hs))"
    and "\<not> has_crlf line" "\<forall>h\<in>set hs. wf_header h" "split_whitespace line = m # path # ws"
  shows "parse_head raw = Inr (parse_method m, path, hs)"
proof -
  have "\<forall>l\<in>set (line # map render_header hs). \<not> has_crlf l"
    using assms(2,3) render_header_line by auto
  then have "split_crlf (head_text (line # map render_header hs))
     = (line # map render_header hs) @ [[], []]" by (rule split_crlf_head_text)
  then show ?thesis
    using assms parse_header_fields_render [OF assms(1-3)] by (simp add: parse_head_def)
qed

context live_reader
begin

lemma rendered_head_read:
  assumes "clean s" and w: "wire s = raw @ body"
    and raw: "from_utf8 raw = Some (head_text (line # map render_header hs))"
    and line: "\<not> has_crlf line" "split_whitespace line = m # path # ws"
    and hs: "\<forall>h\<in>set hs. wf_header h" and lim: "length raw \<le> n + 1"
  obtains pre s1 where "read_header_block rd n s [] = Some (Inr (raw, pre), s1)"
    "clean s1" "pre @ wire s1 = body" "parse_head raw = Inr (parse_method m, path, hs)"
proof -
  have ne: "line \<noteq> []" using line(2) by (auto simp: split_whitespace.simps)
  have ls: "\<forall>k\<in>set (line # map render_header hs). \<not> has_crlf k \<and> k \<noteq> []"
    using line(1) hs ne render_header_line by auto
  from find_header_end_rendered [OF raw _ ls, of body]
  have f: "find_subslice ([] @ wire s) header_end = Some (length raw - 4)" "4 \<le> length raw"
    by (auto simp: w)
  have "find_subslice [] header_end = None" by simp
  moreover have "length raw - 4 + 3 \<le> n" using f(2) lim by simp
  ultimately obtain pre s1 where
    "read_header_block rd n s [] = Some (Inr (raw, pre), s1)" "clean s1" "pre @ wire s1 = body"
    using read_header_block_clean [OF assms(1) _ f(1)] f(2) by (fastforce simp: w)
  moreover have "parse_head raw = Inr (parse_method m, path, hs)" by (rule parse_head_render) fact+
  ultimately show thesis by (rule that)
qed

lemma request_from_stream_complete:
  assumes "clean s" "wire s = raw @ body"
    and "from_utf8 raw = Some (head_text (line # map render_header hs))"
    and "\<not> has_crlf line" "split_whitespace line = m # path # ws"
    and hs: "\<forall>h\<in>set hs. wf_header h" "content_length hs = Inr (length body)"
    and lim: "length raw \<le> max_header_bytes l + 1" "length body \<le> max_body_bytes l"
  shows "\<exists>t. request_from_stream rd l s =
      Some (Inr \<lparr>rq_method = parse_method m, rq_path = path, rq_headers = hs,
                 rq_body = body, rq_raw_head = raw\<rparr>, t) \<and> wire t = []"
proof -
  from rendered_head_read [OF assms(1-6) lim(1)] obtain pre s1 where
    h: "read_header_block rd (max_header_bytes l) s [] = Some (Inr (raw, pre), s1)"
    "clean s1" "pre @ wire s1 = body" and p: "parse_head raw = Inr (parse_method m, path, hs)" .
  have len: "length pre \<le> length body" using h(3) by auto
  show ?thesis
  proof (cases "length pre = length body")
    case True
    with h(3) have "pre = body" "wire s1 = []" by auto
    with h p hs lim show ?thesis by (simp add: request_from_stream_def)
  next
    case False
    have "length body - length pre = length (wire s1)" using h(3) by auto
    with read_exact_clean [OF h(2), of "length body - length pre" "[]"] obtain t where
      "read_exact rd s1 (length body - length pre) [] = Some (Inr (wire s1), t)" "wire t = []"
      by auto
    with h p hs lim len False show ?thesis by (simp add: request_from_stream_def)
  qed
qed

text \<open>A body that is announced too large is refused before it is read, and one that ends
  early is an error.\<close>

lemma request_from_stream_refused:
  assumes "clean s" "wire s = raw @ body"
    and "from_utf8 raw = Some (head_text (line # map render_header hs))"
    and "\<not> has_crlf line" "split_whitespace line = m # path # ws"
    and hs: "\<forall>h\<in>set hs. wf_header h" "content_length hs = Inr len"
    and lim: "length raw \<le> max_header_bytes l + 1" "length body < len \<or> max_body_bytes l < len"
  shows "\<exists>t. request_from_stream rd l s =
      Some (Inl (if max_body_bytes l < len then BodyTooLarge else from_io read_exact_eof), t)"
proof -
  from rendered_head_read [OF assms(1-6) lim(1)] obtain pre s1 where
    h: "read_header_block rd (max_header_bytes l) s [] = Some (Inr (raw, pre), s1)"
    "clean s1" "pre @ wire s1 = body" and p: "parse_head raw = Inr (parse_method m, path, hs)" .
  show ?thesis
  proof (cases "max_body_bytes l < len")
    case True
    with h p hs show ?thesis by (simp add: request_from_stream_def)
  next
    case False
    have b: "length body = length pre + length (wire s1)" using h(3) by auto
    with lim(2) False have "length (wire s1) < len - length pre" "length pre < len" by simp_all
    moreover from read_exact_short [OF h(2) this(1), of "[]"] obtain t where
      "read_exact rd s1 (len - length pre) [] = Some (Inl read_exact_eof, t)" by blast
    ultimately show ?thesis using h p hs False by (simp add: request_from_stream_def)
  qed
qed

end

end
