(* ===== verification/Http_Response.thy ===== *)
theory Http_Response
  imports Http_Request
begin

text \<open>
  \<open>src/src/core/response.rs\<close>: reading a backend's response by its framing (fixed length,
  chunked, or until the end of the stream) and rebuilding it with an explicit
  \<open>Content-Length\<close>. The body readers run on a \<open>PrefixReader\<close>, which first hands out the
  bytes that came with the head; that it satisfies the reader interface whenever its inner
  reader does is proved once, for all of them.
\<close>

definition chunk_header_end :: bytes where
  "chunk_header_end = [13, 10]"

datatype body_mode = Fixed nat | Chunked | UntilEof

section \<open>The status line and the framing\<close>

definition parse_status_code :: "bytes \<Rightarrow> nat mzani_result" where
  "parse_status_code raw_head =
    and_then (ok_or (parse_err (lit ''invalid utf-8 in status line'')) (from_utf8 raw_head)) (\<lambda>head.
    and_then (ok_or (parse_err (lit ''missing status line'')) (first_line head)) (\<lambda>status_line.
      case split_whitespace status_line of
        [] \<Rightarrow> Inl (parse_err (lit ''missing http version''))
      | [version] \<Rightarrow> Inl (parse_err (lit ''missing status code''))
      | version # code # _ \<Rightarrow> ok_or (parse_err (lit ''invalid status code'')) (parse_u16 code)))"

text \<open>\<open>matches!(status, 100..=199 | 204 | 304)\<close>.\<close>

definition no_body_status :: "nat \<Rightarrow> bool" where
  "no_body_status status \<longleftrightarrow> 100 \<le> status \<and> status \<le> 199 \<or> status = 204 \<or> status = 304"

definition body_mode :: "(str \<times> str) list \<Rightarrow> nat \<Rightarrow> body_mode mzani_result" where
  "body_mode headers status =
    (if no_body_status status then Inr (Fixed 0)
     else if (case header_field headers (lit ''transfer-encoding'') of
                Some value \<Rightarrow> eq_ignore_ascii_case value (lit ''chunked'')
              | None \<Rightarrow> False)
     then Inr Chunked
     else case header_field headers (lit ''content-length'') of
            Some value \<Rightarrow>
              and_then (ok_or (parse_err (lit ''invalid content-length in response'')) (parse_usize value))
                       (\<lambda>len. Inr (Fixed len))
          | None \<Rightarrow> Inr UntilEof)"

section \<open>The forwarded message\<close>

definition dropped_header :: "str \<times> str \<Rightarrow> bool" where
  "dropped_header h \<longleftrightarrow>
     eq_ignore_ascii_case (fst h) (lit ''transfer-encoding'')
     \<or> eq_ignore_ascii_case (fst h) (lit ''content-length'')"

definition encode_forwarded_response ::
  "bytes \<Rightarrow> nat \<Rightarrow> (str \<times> str) list \<Rightarrow> bytes \<Rightarrow> bytes mzani_result" where
  "encode_forwarded_response raw_head status headers body =
    (if no_body_status status then Inr raw_head
     else
       and_then (ok_or (parse_err (lit ''invalid utf-8 in response'')) (from_utf8 raw_head)) (\<lambda>head.
       and_then (ok_or (parse_err (lit ''missing status line'')) (first_line head)) (\<lambda>status_line.
         let kept = filter (\<lambda>h. \<not> dropped_header h) headers;
             lines = status_line # map (\<lambda>h. fst h @ lit '': '' @ snd h) kept
                       @ [lit ''Content-Length: '' @ show_nat (length body)]
         in Inr (to_utf8 (join_crlf lines) @ header_end @ body))))"

section \<open>The prefix reader\<close>

record 's prefix_reader =
  pr_prefix :: bytes
  pr_offset :: nat
  pr_inner :: 's

definition new_prefix_reader :: "bytes \<Rightarrow> 's \<Rightarrow> 's prefix_reader" where
  "new_prefix_reader pre s = \<lparr>pr_prefix = pre, pr_offset = 0, pr_inner = s\<rparr>"

definition prefix_read :: "'s read_fn \<Rightarrow> 's prefix_reader read_fn" where
  "prefix_read rd p n =
    (if pr_offset p < length (pr_prefix p)
     then let available = length (pr_prefix p) - pr_offset p;
              k = min available n
          in (Inr (take k (drop (pr_offset p) (pr_prefix p))), p\<lparr>pr_offset := pr_offset p + k\<rparr>)
     else case rd (pr_inner p) n of (r, s') \<Rightarrow> (r, p\<lparr>pr_inner := s'\<rparr>))"

section \<open>Reading a body\<close>

partial_function (option) read_fixed_loop ::
  "'s read_fn \<Rightarrow> nat \<Rightarrow> nat \<Rightarrow> 's \<Rightarrow> bytes \<Rightarrow> (mzani_error, bytes, 's) io" where
  "read_fixed_loop rd len max_bytes s body =
    (if length body < len
     then (case rd s (min (len - length body) 4096) of (r, s') \<Rightarrow>
       (case r of
          Inl e \<Rightarrow> Some (Inl (from_io e), s')
        | Inr bs \<Rightarrow>
            if bs = [] then Some (Inl (parse_err (lit ''unexpected end of response body'')), s')
            else if length (body @ bs) > max_bytes then Some (Inl BodyTooLarge, s')
            else read_fixed_loop rd len max_bytes s' (body @ bs)))
     else if length body > len
     then Some (Inl (parse_err (lit ''response body exceeds content-length'')), s)
     else Some (Inr body, s))"

definition read_fixed_body :: "'s read_fn \<Rightarrow> 's \<Rightarrow> nat \<Rightarrow> nat \<Rightarrow> (mzani_error, bytes, 's) io" where
  "read_fixed_body rd s len max_bytes =
    (if len > max_bytes then Some (Inl BodyTooLarge, s)
     else read_fixed_loop rd len max_bytes s [])"

partial_function (option) read_until_eof_loop ::
  "'s read_fn \<Rightarrow> nat \<Rightarrow> 's \<Rightarrow> bytes \<Rightarrow> (mzani_error, bytes, 's) io" where
  "read_until_eof_loop rd max_bytes s body =
    (case rd s 4096 of (r, s') \<Rightarrow>
      (case r of
         Inl e \<Rightarrow> Some (Inl (from_io e), s')
       | Inr bs \<Rightarrow>
           if bs = [] then Some (Inr body, s')
           else if length (body @ bs) > max_bytes then Some (Inl BodyTooLarge, s')
           else read_until_eof_loop rd max_bytes s' (body @ bs)))"

definition read_until_eof :: "'s read_fn \<Rightarrow> 's \<Rightarrow> nat \<Rightarrow> (mzani_error, bytes, 's) io" where
  "read_until_eof rd s max_bytes = read_until_eof_loop rd max_bytes s []"

definition ends_with :: "bytes \<Rightarrow> bytes \<Rightarrow> bool" where
  "ends_with l suf \<longleftrightarrow> length suf \<le> length l \<and> drop (length l - length suf) l = suf"

partial_function (option) read_line_loop ::
  "'s read_fn \<Rightarrow> 's \<Rightarrow> bytes \<Rightarrow> (mzani_error, bytes, 's) io" where
  "read_line_loop rd s line =
    io_try from_io (read_exact rd s 1 []) (\<lambda>byte s'.
      if ends_with (line @ byte) [13, 10]
      then Some (Inr (take (length (line @ byte) - 2) (line @ byte)), s')
      else if length (line @ byte) > 8 * 1024
      then Some (Inl (parse_err (lit ''chunk metadata line too long'')), s')
      else read_line_loop rd s' (line @ byte))"

definition read_line :: "'s read_fn \<Rightarrow> 's \<Rightarrow> (mzani_error, bytes, 's) io" where
  "read_line rd s = read_line_loop rd s []"

definition read_exact_delimiter :: "'s read_fn \<Rightarrow> 's \<Rightarrow> bytes \<Rightarrow> (mzani_error, unit, 's) io" where
  "read_exact_delimiter rd s delimiter =
    io_try from_io (read_exact rd s (length delimiter) []) (\<lambda>buf s'.
      if buf \<noteq> delimiter then Some (Inl (parse_err (lit ''malformed chunked body'')), s')
      else Some (Inr (), s'))"

text \<open>The size at the start of a chunk: hexadecimal, before any extension.\<close>

definition chunk_size :: "bytes \<Rightarrow> nat mzani_result" where
  "chunk_size size_line =
    and_then (ok_or (parse_err (lit ''invalid chunk size line'')) (from_utf8 size_line)) (\<lambda>line.
      ok_or (parse_err (lit ''invalid chunk size'')) (parse_usize_hex (trim (split_first 59 line))))"

partial_function (option) read_chunked_loop ::
  "'s read_fn \<Rightarrow> nat \<Rightarrow> 's \<Rightarrow> bytes \<Rightarrow> (mzani_error, bytes, 's) io" where
  "read_chunked_loop rd max_bytes s body =
    io_try id (read_line rd s) (\<lambda>size_line s1.
      case chunk_size size_line of
        Inl e \<Rightarrow> Some (Inl e, s1)
      | Inr n \<Rightarrow>
          if n = 0
          then io_try id (read_line rd s1) (\<lambda>_ s2. Some (Inr body, s2))
          else if usize_saturating_add (length body) n > max_bytes
          then Some (Inl BodyTooLarge, s1)
          else io_try from_io (read_exact rd s1 n []) (\<lambda>chunk s2.
               io_try id (read_exact_delimiter rd s2 chunk_header_end) (\<lambda>_ s3.
                 read_chunked_loop rd max_bytes s3 (body @ chunk))))"

definition read_chunked_body :: "'s read_fn \<Rightarrow> 's \<Rightarrow> nat \<Rightarrow> (mzani_error, bytes, 's) io" where
  "read_chunked_body rd s max_bytes = read_chunked_loop rd max_bytes s []"

section \<open>Reading a response\<close>

definition read_body :: "'s read_fn \<Rightarrow> body_mode \<Rightarrow> nat \<Rightarrow> 's \<Rightarrow> (mzani_error, bytes, 's) io" where
  "read_body rd mode max_bytes s =
    (case mode of
       Fixed len \<Rightarrow> read_fixed_body rd s len max_bytes
     | Chunked \<Rightarrow> read_chunked_body rd s max_bytes
     | UntilEof \<Rightarrow> read_until_eof rd s max_bytes)"

text \<open>The prefix reader is dropped with its function; the stream it borrowed remains.\<close>

definition release :: "('e, 'a, 's prefix_reader) io \<Rightarrow> ('e, 'a, 's) io" where
  "release m = map_option (\<lambda>(r, p). (r, pr_inner p)) m"

definition read_http_response :: "'s read_fn \<Rightarrow> limits \<Rightarrow> 's \<Rightarrow> (mzani_error, bytes, 's) io" where
  "read_http_response rd l s =
    io_try id (read_header_block rd (max_header_bytes l) s []) (\<lambda>(raw_head, body_prefix) s1.
      case parse_header_fields raw_head of
        Inl e \<Rightarrow> Some (Inl e, s1)
      | Inr headers \<Rightarrow>
        (case parse_status_code raw_head of
           Inl e \<Rightarrow> Some (Inl e, s1)
         | Inr status \<Rightarrow>
           (case body_mode headers status of
              Inl e \<Rightarrow> Some (Inl e, s1)
            | Inr mode \<Rightarrow>
                release
                  (io_try id
                    (read_body (prefix_read rd) mode (max_response_bytes l) (new_prefix_reader body_prefix s1))
                    (\<lambda>body p. Some (encode_forwarded_response raw_head status headers body, p))))))"

section \<open>The prefix reader satisfies the interface\<close>

definition prefix_wire :: "('s \<Rightarrow> bytes) \<Rightarrow> 's prefix_reader \<Rightarrow> bytes" where
  "prefix_wire wire p = drop (pr_offset p) (pr_prefix p) @ wire (pr_inner p)"

definition prefix_fuel :: "('s \<Rightarrow> nat) \<Rightarrow> 's prefix_reader \<Rightarrow> nat" where
  "prefix_fuel fuel p = length (pr_prefix p) - pr_offset p + fuel (pr_inner p)"

definition prefix_clean :: "('s \<Rightarrow> bool) \<Rightarrow> 's prefix_reader \<Rightarrow> bool" where
  "prefix_clean clean p \<longleftrightarrow> clean (pr_inner p)"

lemmas prefix_defs = prefix_read_def prefix_wire_def prefix_fuel_def prefix_clean_def

lemma new_prefix_reader_simps [simp]:
  "prefix_wire w (new_prefix_reader pre s) = pre @ w s"
  "prefix_clean c (new_prefix_reader pre s) = c s"
  "pr_inner (new_prefix_reader pre s) = s"
  by (simp_all add: prefix_defs new_prefix_reader_def)

context reader
begin

lemma prefix_is_reader: "reader (prefix_read rd) (prefix_wire wire) (prefix_fuel fuel)"
proof
  fix p n bs p'
  assume r: "prefix_read rd p n = (Inr bs, p')"
  show "length bs \<le> n"
    using r by (auto simp: prefix_defs Let_def dest: read_len split: if_splits prod.splits)
  show "prefix_wire wire p = bs @ prefix_wire wire p'"
    using r drop_take_drop [of "pr_offset p" "pr_prefix p"]
    by (auto simp: prefix_defs Let_def dest: read_wire split: if_splits prod.splits)
next
  fix p n e p'
  assume "prefix_read rd p n = (Inl e, p')"
  then show "prefix_wire wire p' = prefix_wire wire p"
    by (auto simp: prefix_defs Let_def dest: read_err_wire split: if_splits prod.splits)
next
  fix p n r p'
  assume "prefix_read rd p n = (r, p')"
  then show "prefix_fuel fuel p' \<le> prefix_fuel fuel p"
    by (auto simp: prefix_defs Let_def dest: read_fuel split: if_splits prod.splits)
next
  fix p n r p'
  assume "0 < n" "prefix_read rd p n = (r, p')" "r \<noteq> Inr []"
  then show "prefix_fuel fuel p' < prefix_fuel fuel p"
    by (auto simp: prefix_defs Let_def dest: read_progress split: if_splits prod.splits)
qed

end

context live_reader
begin

lemma prefix_is_live_reader:
  "live_reader (prefix_read rd) (prefix_wire wire) (prefix_fuel fuel) (prefix_clean clean)"
proof (rule live_reader.intro [OF prefix_is_reader], unfold_locales)
  fix p n
  assume "prefix_clean clean p" "0 < (n::nat)"
  moreover from this obtain bs s' where
    "rd (pr_inner p) n = (Inr bs, s')" "clean s'" "wire (pr_inner p) \<noteq> [] \<longrightarrow> bs \<noteq> []"
    using clean_read [of "pr_inner p" n] by (auto simp: prefix_clean_def)
  ultimately show "\<exists>bs p'. prefix_read rd p n = (Inr bs, p') \<and> prefix_clean clean p'
      \<and> (prefix_wire wire p \<noteq> [] \<longrightarrow> bs \<noteq> [])"
    by (auto simp: prefix_defs Let_def)
qed

end

interpretation tcp_prefix:
  live_reader "prefix_read tcp_read" "prefix_wire tcp_wire" "prefix_fuel tcp_fuel" "prefix_clean tcp_clean"
  by (rule tcp.prefix_is_live_reader)

end
