(* ===== verification/Body_Framing.thy ===== *)
theory Body_Framing
  imports Http_Response
begin

text \<open>
  The body readers against the framings they implement. A fixed body is a prefix of the
  stream of the given length; a body until the end is the whole rest of the stream; a
  chunked body is described by the grammar \<open>chunked\<close>, and the reader both accepts only
  what the grammar derives and accepts all of it (within the limits). Every reader returns
  on every stream.
\<close>

section \<open>Fixed length\<close>

context reader
begin

lemma read_fixed_loop_total: "\<exists>r t. read_fixed_loop rd len m s body = Some (r, t)"
proof (induction "fuel s" arbitrary: s body rule: less_induct)
  case less
  show ?case
  proof (cases "length body < len")
    case True
    obtain r s' where r: "rd s (min (len - length body) 4096) = (r, s')" by force
    have "r \<noteq> Inr [] \<Longrightarrow> fuel s' < fuel s" using read_progress [OF _ r] True by simp
    then have "\<And>b. r \<noteq> Inr [] \<Longrightarrow> \<exists>q t. read_fixed_loop rd len m s' b = Some (q, t)"
      using less.hyps by blast
    with True r show ?thesis by (subst read_fixed_loop.simps) (auto split: sum.splits)
  next
    case False
    then show ?thesis by (subst read_fixed_loop.simps) auto
  qed
qed

lemma read_fixed_loop_ok:
  "read_fixed_loop rd len m s body = Some (Inr b, t) \<Longrightarrow>
     length b = len \<and> (\<exists>d. b = body @ d \<and> wire s = d @ wire t)"
proof (induction "fuel s" arbitrary: s body rule: less_induct)
  case less
  show ?case
  proof (cases "length body < len")
    case True
    obtain r s' where r: "rd s (min (len - length body) 4096) = (r, s')" by force
    from less.prems r True obtain bs where bs: "r = Inr bs" "bs \<noteq> []"
      and rec: "read_fixed_loop rd len m s' (body @ bs) = Some (Inr b, t)"
      by (subst (asm) read_fixed_loop.simps) (auto split: sum.splits if_splits)
    have "fuel s' < fuel s" using read_progress [OF _ r] True bs by simp
    from less.hyps [OF this rec] obtain d where
      "length b = len" "b = (body @ bs) @ d" "wire s' = d @ wire t" by blast
    moreover have "wire s = bs @ wire s'" using read_wire r bs by simp
    ultimately show ?thesis by (intro conjI exI [of _ "bs @ d"]) simp_all
  next
    case False
    with less.prems show ?thesis by (subst (asm) read_fixed_loop.simps) (auto split: if_splits)
  qed
qed

lemma read_fixed_body_total: "\<exists>r t. read_fixed_body rd s len m = Some (r, t)"
  unfolding read_fixed_body_def using read_fixed_loop_total by simp

lemma read_fixed_body_ok:
  "read_fixed_body rd s len m = Some (Inr b, t) \<Longrightarrow> length b = len \<and> len \<le> m \<and> wire s = b @ wire t"
  by (auto simp: read_fixed_body_def dest: read_fixed_loop_ok split: if_splits)

end

context live_reader
begin

lemma read_fixed_loop_clean:
  "clean s \<Longrightarrow> length body \<le> len \<Longrightarrow> len \<le> m \<Longrightarrow> len - length body \<le> length (wire s) \<Longrightarrow>
     \<exists>t. read_fixed_loop rd len m s body = Some (Inr (body @ take (len - length body) (wire s)), t)
       \<and> clean t \<and> wire t = drop (len - length body) (wire s)"
proof (induction "fuel s" arbitrary: s body rule: less_induct)
  case less
  show ?case
  proof (cases "length body < len")
    case True
    then have "0 < min (len - length body) 4096" by simp
    with less.prems(1) obtain bs s' where r: "rd s (min (len - length body) 4096) = (Inr bs, s')"
      "clean s'" "wire s = bs @ wire s'" "length bs \<le> min (len - length body) 4096"
      "bs = [] \<longleftrightarrow> wire s = []" "bs \<noteq> [] \<longrightarrow> fuel s' < fuel s"
      by (rule clean_readE)
    have ne: "bs \<noteq> []" using r(5) True less.prems(4) by auto
    have p: "length (body @ bs) \<le> len" "len - length (body @ bs) \<le> length (wire s')"
      using r(3,4) less.prems(4) True by auto
    have "fuel s' < fuel s" using r(6) ne by simp
    from less.hyps [OF this r(2) p(1) less.prems(3) p(2)] obtain t where
      "read_fixed_loop rd len m s' (body @ bs)
         = Some (Inr ((body @ bs) @ take (len - length (body @ bs)) (wire s')), t)"
      "clean t" "wire t = drop (len - length (body @ bs)) (wire s')" by blast
    moreover have "\<not> length (body @ bs) > m" using p(1) less.prems(3) by simp
    moreover have "take (len - length body) (wire s) = bs @ take (len - length (body @ bs)) (wire s')"
      "drop (len - length body) (wire s) = drop (len - length (body @ bs)) (wire s')"
      using r(3,4) by (simp_all add: diff_diff_eq)
    ultimately show ?thesis using True r(1) ne by (subst read_fixed_loop.simps) simp
  next
    case False
    with less.prems show ?thesis by (subst read_fixed_loop.simps) simp
  qed
qed

lemma read_fixed_body_clean:
  "clean s \<Longrightarrow> len \<le> m \<Longrightarrow> len \<le> length (wire s) \<Longrightarrow>
     \<exists>t. read_fixed_body rd s len m = Some (Inr (take len (wire s)), t) \<and> clean t \<and> wire t = drop len (wire s)"
  using read_fixed_loop_clean [of s "[]" len m] by (simp add: read_fixed_body_def)

lemma read_fixed_loop_short:
  "clean s \<Longrightarrow> length (wire s) < len - length body \<Longrightarrow> len \<le> m \<Longrightarrow>
     \<exists>t. read_fixed_loop rd len m s body = Some (Inl (parse_err (lit ''unexpected end of response body'')), t)"
proof (induction "fuel s" arbitrary: s body rule: less_induct)
  case less
  then have lt: "length body < len" by linarith
  then have "0 < min (len - length body) 4096" by simp
  with less.prems(1) obtain bs s' where r: "rd s (min (len - length body) 4096) = (Inr bs, s')"
    "clean s'" "wire s = bs @ wire s'" "length bs \<le> min (len - length body) 4096"
    "bs = [] \<longleftrightarrow> wire s = []" "bs \<noteq> [] \<longrightarrow> fuel s' < fuel s"
    by (rule clean_readE)
  show ?case
  proof (cases "bs = []")
    case True
    with lt r(1) show ?thesis by (subst read_fixed_loop.simps) simp
  next
    case False
    then have "fuel s' < fuel s" using r(6) by simp
    moreover have "length (wire s') < len - length (body @ bs)" using r(3) less.prems(2) by simp
    ultimately obtain t where "read_fixed_loop rd len m s' (body @ bs) =
        Some (Inl (parse_err (lit ''unexpected end of response body'')), t)"
      using less.hyps [OF _ r(2) _ less.prems(3)] by blast
    moreover have "length bs \<le> len - length body" using r(4) by simp
    then have "length (body @ bs) \<le> len" using lt by simp
    then have "\<not> length (body @ bs) > m" using less.prems(3) by simp
    ultimately show ?thesis using lt r(1) False by (subst read_fixed_loop.simps) simp
  qed
qed

lemma read_fixed_body_short:
  "clean s \<Longrightarrow> length (wire s) < len \<Longrightarrow> len \<le> m \<Longrightarrow>
     \<exists>t. read_fixed_body rd s len m = Some (Inl (parse_err (lit ''unexpected end of response body'')), t)"
  using read_fixed_loop_short [of s len "[]" m] by (simp add: read_fixed_body_def)

end

section \<open>Until the end of the stream\<close>

context reader
begin

lemma read_until_eof_loop_total: "\<exists>r t. read_until_eof_loop rd m s body = Some (r, t)"
proof (induction "fuel s" arbitrary: s body rule: less_induct)
  case less
  obtain r s' where r: "rd s 4096 = (r, s')" by force
  have "r \<noteq> Inr [] \<Longrightarrow> fuel s' < fuel s" using read_progress [OF _ r] by simp
  then have "\<And>b. r \<noteq> Inr [] \<Longrightarrow> \<exists>q t. read_until_eof_loop rd m s' b = Some (q, t)"
    using less.hyps by blast
  with r show ?case by (subst read_until_eof_loop.simps) (auto split: sum.splits)
qed

lemma read_until_eof_loop_ok:
  "read_until_eof_loop rd m s body = Some (Inr b, t) \<Longrightarrow>
     (\<exists>d. b = body @ d \<and> wire s = d @ wire t) \<and> (length body \<le> m \<longrightarrow> length b \<le> m)"
proof (induction "fuel s" arbitrary: s body rule: less_induct)
  case less
  obtain r s' where r: "rd s 4096 = (r, s')" by force
  from less.prems r obtain bs where bs: "r = Inr bs"
    by (subst (asm) read_until_eof_loop.simps) (auto split: sum.splits)
  have w: "wire s = bs @ wire s'" using read_wire r bs by simp
  show ?case
  proof (cases "bs = []")
    case True
    with less.prems r bs w show ?thesis by (subst (asm) read_until_eof_loop.simps) auto
  next
    case False
    with less.prems r bs have le: "length (body @ bs) \<le> m"
      and rec: "read_until_eof_loop rd m s' (body @ bs) = Some (Inr b, t)"
      by (subst (asm) read_until_eof_loop.simps; auto split: if_splits)+
    have "fuel s' < fuel s" using read_progress [OF _ r] bs False by simp
    from less.hyps [OF this rec] le obtain d where
      "b = (body @ bs) @ d" "wire s' = d @ wire t" "length b \<le> m" by blast
    with w show ?thesis by (intro conjI exI [of _ "bs @ d"]) simp_all
  qed
qed

end

context live_reader
begin

lemma read_until_eof_loop_clean:
  "clean s \<Longrightarrow> length body \<le> m \<Longrightarrow>
     \<exists>t. read_until_eof_loop rd m s body =
       Some (if length (body @ wire s) \<le> m then Inr (body @ wire s) else Inl BodyTooLarge, t)"
proof (induction "fuel s" arbitrary: s body rule: less_induct)
  case less
  have "(0::nat) < 4096" by simp
  with less.prems(1) obtain bs s' where r: "rd s 4096 = (Inr bs, s')"
    "clean s'" "wire s = bs @ wire s'" "length bs \<le> 4096" "bs = [] \<longleftrightarrow> wire s = []"
    "bs \<noteq> [] \<longrightarrow> fuel s' < fuel s"
    by (rule clean_readE)
  show ?case
  proof (cases "bs = [] \<or> length (body @ bs) > m")
    case True
    then show ?thesis
      using r(1,3,5) less.prems(2) by (subst read_until_eof_loop.simps) (elim disjE; fastforce)
  next
    case False
    then have "fuel s' < fuel s" "length (body @ bs) \<le> m" using r(6) by auto
    with less.hyps [OF _ r(2)] obtain t where "read_until_eof_loop rd m s' (body @ bs) =
       Some (if length ((body @ bs) @ wire s') \<le> m then Inr ((body @ bs) @ wire s') else Inl BodyTooLarge, t)"
      by blast
    moreover have "(body @ bs) @ wire s' = body @ wire s" using r(3) by simp
    ultimately show ?thesis using False r(1)
      by (subst read_until_eof_loop.simps) (simp del: append_assoc)
  qed
qed

end

section \<open>Metadata lines\<close>

definition crlf_free :: "bytes \<Rightarrow> bool" where
  "crlf_free l \<longleftrightarrow> (\<nexists>u v. l = u @ 13 # 10 # v)"

definition metadata_line :: "bytes \<Rightarrow> bool" where
  "metadata_line l \<longleftrightarrow> crlf_free l \<and> length l < 8 * 1024"

lemma ends_with_crlf: "ends_with (l @ [b]) [13, 10] \<longleftrightarrow> b = 10 \<and> (\<exists>k. l = k @ [13])"
  by (cases l rule: rev_cases) (auto simp: ends_with_def)

lemma crlf_free_prefix: "crlf_free (l @ k) \<Longrightarrow> crlf_free l"
  unfolding crlf_free_def by (metis append.assoc append_Cons)

lemma crlf_free_snoc: "crlf_free (l @ [b]) \<longleftrightarrow> crlf_free l \<and> \<not> ends_with (l @ [b]) [13, 10]"
proof
  assume f: "crlf_free (l @ [b])"
  then have "crlf_free l" by (rule crlf_free_prefix)
  moreover have "\<not> ends_with (l @ [b]) [13, 10]"
  proof
    assume "ends_with (l @ [b]) [13, 10]"
    then obtain k where "l @ [b] = k @ 13 # 10 # []" by (auto simp: ends_with_crlf)
    with f show False unfolding crlf_free_def by blast
  qed
  ultimately show "crlf_free l \<and> \<not> ends_with (l @ [b]) [13, 10]" by simp
next
  assume f: "crlf_free l \<and> \<not> ends_with (l @ [b]) [13, 10]"
  show "crlf_free (l @ [b])"
    unfolding crlf_free_def
  proof (intro notI, elim exE)
    fix u v assume e: "l @ [b] = u @ 13 # 10 # v"
    show False
    proof (cases v rule: rev_cases)
      case Nil
      then have "l @ [b] = (u @ [13]) @ [10]" using e by simp
      then have "l = u @ [13]" "b = 10" by (simp_all only: append1_eq_conv)
      then show False using f by (simp add: ends_with_def)
    next
      case (snoc w x)
      then have "l @ [b] = (u @ 13 # 10 # w) @ [x]" using e by simp
      then have "l = u @ 13 # 10 # w" by (simp only: append1_eq_conv)
      then show False using f by (auto simp: crlf_free_def)
    qed
  qed
qed

context reader
begin

lemma read_line_loop_total: "\<exists>r t. read_line_loop rd s line = Some (r, t)"
proof (induction "fuel s" arbitrary: s line rule: less_induct)
  case less
  have "fuel s' < fuel s" if "read_exact rd s 1 [] = Some (Inr bs, s')" for bs s'
    using read_exact_progress [OF that] by simp
  with less.hyps show ?case
    by (subst read_line_loop.simps) (auto intro!: io_try_returns [OF read_exact_total])
qed

lemma read_line_total: "\<exists>r t. read_line rd s = Some (r, t)"
  by (simp add: read_line_def read_line_loop_total)

lemma read_one:
  assumes "read_exact rd s 1 [] = Some (Inr bs, t)"
  obtains b where "bs = [b]" "wire s = b # wire t" "fuel t < fuel s"
  using read_exact_ok [OF assms] read_exact_progress [OF assms] by (auto simp: length_Suc_conv)

lemma read_line_loop_ok:
  "read_line_loop rd s line = Some (Inr l, t) \<Longrightarrow> crlf_free line \<Longrightarrow> length line \<le> 8 * 1024 \<Longrightarrow>
     metadata_line l \<and> (\<exists>d. wire s = d @ wire t \<and> line @ d = l @ [13, 10]) \<and> fuel t < fuel s"
proof (induction "fuel s" arbitrary: s line rule: less_induct)
  case less
  from less.prems(1) obtain bs s' where b: "read_exact rd s 1 [] = Some (Inr bs, s')"
    by (subst (asm) read_line_loop.simps) (auto simp: result_simps)
  then obtain c where c: "bs = [c]" "wire s = c # wire s'" "fuel s' < fuel s" by (rule read_one)
  show ?case
  proof (cases "ends_with (line @ [c]) [13, 10]")
    case True
    with less.prems b c have l: "l = take (length line - 1) line" "t = s'"
      by (subst (asm) read_line_loop.simps; simp)+
    from True obtain k where k: "c = 10" "line = k @ [13]" by (auto simp: ends_with_crlf)
    with l less.prems(2,3) have "metadata_line l" "line @ [c] = l @ [13, 10]"
      by (auto simp: metadata_line_def crlf_free_snoc)
    with c l show ?thesis by (intro conjI exI [of _ "[c]"]) simp_all
  next
    case False
    with less.prems(1) b c have len: "length (line @ [c]) \<le> 8 * 1024"
      and rec: "read_line_loop rd s' (line @ [c]) = Some (Inr l, t)"
      by (subst (asm) read_line_loop.simps; auto split: if_splits)+
    have "crlf_free (line @ [c])" using False less.prems(2) by (simp add: crlf_free_snoc)
    from less.hyps [OF c(3) rec this len] obtain d where
      "metadata_line l" "wire s' = d @ wire t" "(line @ [c]) @ d = l @ [13, 10]" "fuel t < fuel s'" by blast
    with c show ?thesis by (intro conjI exI [of _ "c # d"]) simp_all
  qed
qed

lemma read_line_ok:
  "read_line rd s = Some (Inr l, t) \<Longrightarrow>
     metadata_line l \<and> wire s = l @ [13, 10] @ wire t \<and> fuel t < fuel s"
  using read_line_loop_ok [of s "[]" l t] by (auto simp: read_line_def crlf_free_def)

end

context live_reader
begin

lemma read_line_loop_clean:
  "clean s \<Longrightarrow> metadata_line l \<Longrightarrow> line @ d = l @ [13, 10] \<Longrightarrow> d \<noteq> [] \<Longrightarrow> wire s = d @ w \<Longrightarrow>
     \<exists>t. read_line_loop rd s line = Some (Inr l, t) \<and> clean t \<and> wire t = w"
proof (induction d arbitrary: s line)
  case Nil
  then show ?case by simp
next
  case (Cons b d)
  from read_exact_clean [OF Cons.prems(1), of 1 "[]"] Cons.prems(5) obtain s' where
    r: "read_exact rd s 1 [] = Some (Inr [b], s')" "clean s'" "wire s' = d @ w" by auto
  show ?case
  proof (cases "d = []")
    case True
    then have e: "line @ [b] = l @ [13, 10]" using Cons.prems(3) by simp
    then have "ends_with (line @ [b]) [13, 10]" by (simp add: ends_with_def)
    with e r True show ?thesis by (subst read_line_loop.simps) simp
  next
    case False
    then obtain e c where d: "d = e @ [c]" by (cases d rule: rev_cases) auto
    have "(line @ b # e) @ [c] = (l @ [13]) @ [10]" using Cons.prems(3) d by simp
    then have p: "(line @ [b]) @ e = l @ [13]" by (simp only: append1_eq_conv) simp
    have "crlf_free (l @ [13])" using Cons.prems(2)
      by (auto simp: metadata_line_def crlf_free_snoc ends_with_crlf)
    then have "crlf_free (line @ [b])" unfolding p [symmetric] by (rule crlf_free_prefix)
    then have n: "\<not> ends_with (line @ [b]) [13, 10]" by (simp add: crlf_free_snoc)
    have "length (line @ [b]) \<le> length (l @ [13])" unfolding p [symmetric] by simp
    then have len: "\<not> length (line @ [b]) > 8 * 1024" using Cons.prems(2) by (simp add: metadata_line_def)
    from Cons.IH [OF r(2) Cons.prems(2) _ False r(3), of "line @ [b]"] Cons.prems(3) obtain t where
      "read_line_loop rd s' (line @ [b]) = Some (Inr l, t)" "clean t" "wire t = w" by auto
    with r n len show ?thesis by (subst read_line_loop.simps) simp
  qed
qed

lemma read_line_clean:
  "clean s \<Longrightarrow> metadata_line l \<Longrightarrow> wire s = l @ [13, 10] @ w \<Longrightarrow>
     \<exists>t. read_line rd s = Some (Inr l, t) \<and> clean t \<and> wire t = w"
  unfolding read_line_def by (rule read_line_loop_clean [of s l "[]" "l @ [13, 10]"]) auto

end

section \<open>Chunked\<close>

text \<open>
  The framing as a grammar: chunks of a size line, that many bytes and CRLF, ended by a
  zero size line and one more line.
\<close>

inductive chunked :: "bytes \<Rightarrow> bytes \<Rightarrow> bool" where
  last_chunk:
    "metadata_line l \<Longrightarrow> chunk_size l = Inr 0 \<Longrightarrow> metadata_line tr \<Longrightarrow>
     chunked (l @ [13, 10] @ tr @ [13, 10]) []"
| data_chunk:
    "metadata_line l \<Longrightarrow> chunk_size l = Inr (length c) \<Longrightarrow> c \<noteq> [] \<Longrightarrow> chunked w body \<Longrightarrow>
     chunked (l @ [13, 10] @ c @ [13, 10] @ w) (c @ body)"

context reader
begin

lemma read_exact_delimiter_total: "\<exists>r t. read_exact_delimiter rd s d = Some (r, t)"
  unfolding read_exact_delimiter_def by (rule io_try_returns [OF read_exact_total]) auto

lemma read_exact_delimiter_ok:
  "read_exact_delimiter rd s d = Some (Inr u, t) \<Longrightarrow> wire s = d @ wire t \<and> fuel t \<le> fuel s"
  by (auto simp: read_exact_delimiter_def result_simps split: if_splits
      dest: read_exact_ok read_exact_fuel)

lemma read_chunked_loop_total: "\<exists>r t. read_chunked_loop rd m s body = Some (r, t)"
proof (induction "fuel s" arbitrary: s body rule: less_induct)
  case less
  have IH: "\<exists>r t. read_chunked_loop rd m s3 b = Some (r, t)"
    if "read_line rd s = Some (Inr l, s1)" "read_exact rd s1 n [] = Some (Inr c, s2)"
      "read_exact_delimiter rd s2 chunk_header_end = Some (Inr u, s3)" for l s1 n c s2 u s3 b
    using less.hyps [of s3 b] read_line_ok [OF that(1)] read_exact_fuel [OF that(2)]
      read_exact_delimiter_ok [OF that(3)] by simp
  show ?case
    by (subst read_chunked_loop.simps, rule io_try_returns [OF read_line_total])
       (auto split: sum.splits intro!: IH io_try_returns [OF read_line_total]
         io_try_returns [OF read_exact_total] io_try_returns [OF read_exact_delimiter_total])
qed

lemma read_chunked_body_total: "\<exists>r t. read_chunked_body rd s m = Some (r, t)"
  by (simp add: read_chunked_body_def read_chunked_loop_total)

text \<open>Soundness: what was read is derived by the grammar, and the body respects the limit.\<close>

lemma read_chunked_loop_ok:
  "read_chunked_loop rd m s body = Some (Inr b, t) \<Longrightarrow>
     \<exists>w d. wire s = w @ wire t \<and> chunked w d \<and> b = body @ d
         \<and> (m < usize_bound - 1 \<longrightarrow> length body \<le> m \<longrightarrow> length b \<le> m)"
proof (induction "fuel s" arbitrary: s body rule: less_induct)
  case less
  from less.prems obtain l s1 where l: "read_line rd s = Some (Inr l, s1)"
    by (subst (asm) read_chunked_loop.simps) (auto simp: result_simps)
  from read_line_ok [OF l] have l': "metadata_line l" "wire s = l @ [13, 10] @ wire s1" "fuel s1 < fuel s"
    by auto
  from less.prems l obtain n where n: "chunk_size l = Inr n"
    by (subst (asm) read_chunked_loop.simps) (auto split: sum.splits)
  show ?case
  proof (cases "n = 0")
    case True
    with less.prems l n obtain tr where tr: "read_line rd s1 = Some (Inr tr, t)" "b = body"
      by (subst (asm) read_chunked_loop.simps) (auto simp: result_simps)
    from read_line_ok [OF tr(1)] have "metadata_line tr" "wire s1 = tr @ [13, 10] @ wire t" by auto
    moreover from this have "chunked (l @ [13, 10] @ tr @ [13, 10]) []"
      using l' n True by (intro last_chunk) auto
    moreover have "wire s = (l @ [13, 10] @ tr @ [13, 10]) @ wire t"
      using l'(2) \<open>wire s1 = tr @ [13, 10] @ wire t\<close> by simp
    ultimately show ?thesis using tr(2) by (metis append_Nil2)
  next
    case False
    from less.prems l n False obtain c s2 u s3 where
      lim: "\<not> usize_saturating_add (length body) n > m"
      and c: "read_exact rd s1 n [] = Some (Inr c, s2)"
      and d: "read_exact_delimiter rd s2 chunk_header_end = Some (Inr u, s3)"
      and rec: "read_chunked_loop rd m s3 (body @ c) = Some (Inr b, t)"
      by (subst (asm) read_chunked_loop.simps) (auto simp: result_simps split: if_splits)
    from read_exact_ok [OF c] have c': "length c = n" "wire s1 = c @ wire s2" by auto
    from read_exact_delimiter_ok [OF d] have d': "wire s2 = [13, 10] @ wire s3"
      by (simp add: chunk_header_end_def)
    have "fuel s3 < fuel s"
      using l' read_exact_fuel [OF c] read_exact_delimiter_ok [OF d] by simp
    from less.hyps [OF this rec] obtain w e where
      w: "wire s3 = w @ wire t" "chunked w e" "b = (body @ c) @ e"
        "m < usize_bound - 1 \<longrightarrow> length (body @ c) \<le> m \<longrightarrow> length b \<le> m" by blast
    have "m < usize_bound - 1 \<Longrightarrow> length (body @ c) \<le> m"
      using lim usize_saturating_add_gt [of m "length body" n] c' by simp
    moreover have "chunked (l @ [13, 10] @ c @ [13, 10] @ w) (c @ e)"
      using l' n c' w(2) False by (intro data_chunk) auto
    moreover have "wire s = (l @ [13, 10] @ c @ [13, 10] @ w) @ wire t"
      using l'(2) c'(2) d' w(1) by simp
    ultimately show ?thesis using w(3,4) by (intro exI conjI) auto
  qed
qed

end

context live_reader
begin

text \<open>Completeness: what the grammar derives is read, whatever the segments.\<close>

lemma read_chunked_loop_clean:
  "chunked w d \<Longrightarrow> clean s \<Longrightarrow> wire s = w @ rest \<Longrightarrow> length body + length d \<le> m \<Longrightarrow>
     \<exists>t. read_chunked_loop rd m s body = Some (Inr (body @ d), t) \<and> clean t \<and> wire t = rest"
proof (induction arbitrary: s body rule: chunked.induct)
  case (last_chunk l tr)
  from read_line_clean [OF last_chunk.prems(1) last_chunk.hyps(1)] last_chunk.prems(2) obtain s1 where
    1: "read_line rd s = Some (Inr l, s1)" "clean s1" "wire s1 = tr @ [13, 10] @ rest" by auto
  from read_line_clean [OF 1(2) last_chunk.hyps(3) 1(3)] obtain s2 where
    "read_line rd s1 = Some (Inr tr, s2)" "clean s2" "wire s2 = rest" by blast
  with 1 last_chunk.hyps(2) show ?case by (subst read_chunked_loop.simps) simp
next
  case (data_chunk l c w d)
  from read_line_clean [OF data_chunk.prems(1) data_chunk.hyps(1)] data_chunk.prems(2) obtain s1 where
    1: "read_line rd s = Some (Inr l, s1)" "clean s1" "wire s1 = c @ [13, 10] @ w @ rest" by auto
  from read_exact_clean [OF 1(2), of "length c" "[]"] 1(3) obtain s2 where
    2: "read_exact rd s1 (length c) [] = Some (Inr c, s2)" "clean s2" "wire s2 = [13, 10] @ w @ rest" by auto
  from read_exact_clean [OF 2(2), of 2 "[]"] 2(3) obtain s3 where
    3: "read_exact rd s2 2 [] = Some (Inr [13, 10], s3)" "clean s3" "wire s3 = w @ rest"
    by (auto simp: numeral_2_eq_2)
  have "read_exact_delimiter rd s2 chunk_header_end = Some (Inr (), s3)"
    using 3(1) by (simp add: read_exact_delimiter_def chunk_header_end_def numeral_2_eq_2)
  moreover have "\<not> usize_saturating_add (length body) (length c) > m"
    using data_chunk.prems(3) by (simp add: usize_saturating_add_def)
  moreover obtain t where
    "read_chunked_loop rd m s3 (body @ c) = Some (Inr ((body @ c) @ d), t)" "clean t" "wire t = rest"
    using data_chunk.IH [OF 3(2,3), of "body @ c"] data_chunk.prems(3) by auto
  ultimately show ?case using 1 2 data_chunk.hyps
    by (subst read_chunked_loop.simps) simp
qed

end

text \<open>The encoder a backend may use: one chunk per piece, sizes in lower-case hexadecimal.\<close>

fun chunk_encode :: "bytes list \<Rightarrow> bytes" where
  "chunk_encode [] = blit ''0'' @ [13, 10, 13, 10]"
| "chunk_encode (c # cs) =
     to_utf8 (show_radix 16 (length c)) @ [13, 10] @ c @ [13, 10] @ chunk_encode cs"

lemma hex_line:
  assumes "n < usize_bound"
  shows "chunk_size (to_utf8 (show_radix 16 n)) = Inr n"
proof -
  have ch: "c \<in> set (show_radix 16 n) \<Longrightarrow> 48 \<le> c \<and> c \<le> 57 \<or> 97 \<le> c \<and> c \<le> 102" for c
    by (rule show_radix_chars) simp_all
  then have "list_all scalar (show_radix 16 n)" by (fastforce simp: list_all_iff scalar_def)
  moreover have "split_first 59 (show_radix 16 n) = show_radix 16 n"
    unfolding split_first_def by (rule takeWhile_eq_all) (use ch in \<open>fastforce simp: list_all_iff\<close>)
  moreover have "trim (show_radix 16 n) = show_radix 16 n"
    by (rule trim_trimmed, rule show_radix_trimmed) simp_all
  ultimately show ?thesis using assms
    by (simp add: chunk_size_def from_utf8_to_utf8 parse_usize_hex_show)
qed

lemma length_show_radix: "n < r ^ k \<Longrightarrow> 2 \<le> r \<Longrightarrow> 0 < k \<Longrightarrow> length (show_radix r n) \<le> k"
proof (induction k arbitrary: n)
  case 0
  then show ?case by simp
next
  case (Suc k)
  show ?case
  proof (cases "n < r")
    case True
    then show ?thesis by (simp add: show_radix.simps [of r n])
  next
    case False
    then have "k \<noteq> 0" using Suc.prems by (cases k) auto
    moreover have "n div r < r ^ k" using Suc.prems by (simp add: less_mult_imp_div_less mult.commute)
    ultimately have "length (show_radix r (n div r)) \<le> k" using Suc by simp
    with False Suc.prems show ?thesis by (simp add: show_radix.simps [of r n])
  qed
qed

lemma length_show_nat: "n < 10 ^ k \<Longrightarrow> 0 < k \<Longrightarrow> length (show_nat n) \<le> k"
  unfolding show_nat_def by (rule length_show_radix) simp_all

lemma hex_metadata_line:
  assumes "n < usize_bound"
  shows "metadata_line (to_utf8 (show_radix 16 n))"
proof -
  have ch: "c \<in> set (show_radix 16 n) \<Longrightarrow> 48 \<le> c \<and> c \<le> 57 \<or> 97 \<le> c \<and> c \<le> 102" for c
    by (rule show_radix_chars) simp_all
  then have u: "to_utf8 (show_radix 16 n) = map of_nat (show_radix 16 n)"
    by (intro to_utf8_ascii) fastforce
  have "length (show_radix 16 n) \<le> 16"
    by (rule length_show_radix) (use assms in \<open>simp_all add: usize_bound_def\<close>)
  moreover have "crlf_free (map of_nat (show_radix 16 n))"
    unfolding crlf_free_def
  proof (intro notI, elim exE)
    fix x y assume "map of_nat (show_radix 16 n) = x @ (13::byte) # 10 # y"
    then have "(13::byte) \<in> set (map of_nat (show_radix 16 n))" by simp
    then obtain c where c: "c \<in> set (show_radix 16 n)" "of_nat c = (13::byte)" by auto
    then have "unat (of_nat c :: byte) = 13" by simp
    moreover have "c < 256" using ch [OF c(1)] by auto
    ultimately show False using ch [OF c(1)] by (simp add: unat_byte_of_nat)
  qed
  ultimately show ?thesis by (simp add: metadata_line_def u)
qed

lemma chunked_encode:
  "\<forall>c\<in>set cs. c \<noteq> [] \<and> length c < usize_bound \<Longrightarrow> chunked (chunk_encode cs) (concat cs)"
proof (induction cs)
  case Nil
  have z: "blit ''0'' = to_utf8 (show_radix 16 0)"
    by (simp add: show_radix.simps [of 16 0] digit_char_def utf8_char_def)
  have "metadata_line []" by (simp add: metadata_line_def crlf_free_def)
  then have "chunked (to_utf8 (show_radix 16 0) @ [13, 10] @ [] @ [13, 10]) []"
    by (intro last_chunk hex_metadata_line hex_line) (simp_all add: usize_bound_def)
  then show ?case using z by simp
next
  case (Cons c cs)
  then have "chunked (to_utf8 (show_radix 16 (length c)) @ [13, 10] @ c @ [13, 10] @ chunk_encode cs)
       (c @ concat cs)"
    by (intro data_chunk hex_metadata_line hex_line) auto
  then show ?case by simp
qed

end
