(* ===== verification/Forwarding.thy ===== *)
theory Forwarding
  imports Body_Framing
begin

text \<open>
  \<open>read_http_response\<close> as a whole: it returns on every stream; a response it accepts is a
  head followed by a body in the announced framing, within the limits; and the message it
  rebuilds carries the same status and body, the same header fields apart from the framing
  ones, and is read back unchanged by the same function.
\<close>

section \<open>What an accepted response is\<close>

fun framed :: "body_mode \<Rightarrow> bytes \<Rightarrow> bytes \<Rightarrow> bool" where
  "framed (Fixed n) f b \<longleftrightarrow> f = b \<and> length b = n"
| "framed Chunked f b \<longleftrightarrow> chunked f b"
| "framed UntilEof f b \<longleftrightarrow> f = b"

definition head_block :: "bytes \<Rightarrow> bool" where
  "head_block raw \<longleftrightarrow> 4 \<le> length raw \<and> find_subslice raw header_end = Some (length raw - 4)"

definition forwards :: "bytes \<Rightarrow> bytes \<Rightarrow> bytes \<Rightarrow> bytes \<Rightarrow> bool" where
  "forwards raw f body m \<longleftrightarrow>
     head_block raw \<and>
     (\<exists>headers status mode.
        parse_header_fields raw = Inr headers \<and> parse_status_code raw = Inr status
        \<and> body_mode headers status = Inr mode \<and> framed mode f body
        \<and> encode_forwarded_response raw status headers body = Inr m)"

context reader
begin

lemma read_body_total: "\<exists>r t. read_body rd mode m s = Some (r, t)"
  using read_fixed_body_total read_chunked_body_total read_until_eof_loop_total
  by (simp add: read_body_def read_until_eof_def split: body_mode.splits)

lemma read_body_ok:
  assumes "read_body rd mode m s = Some (Inr body, t)" "m < usize_bound - 1"
  shows "\<exists>f. wire s = f @ wire t \<and> framed mode f body \<and> length body \<le> m"
proof (cases mode)
  case (Fixed n)
  with assms read_fixed_body_ok [of s n m body t] show ?thesis by (auto simp: read_body_def)
next
  case Chunked
  with assms read_chunked_loop_ok [of m s "[]" body t] show ?thesis
    by (auto simp: read_body_def read_chunked_body_def)
next
  case UntilEof
  with assms read_until_eof_loop_ok [of m s "[]" body t] show ?thesis
    by (auto simp: read_body_def read_until_eof_def)
qed

lemma read_http_response_total: "\<exists>r t. read_http_response rd l s = Some (r, t)"
proof -
  have "\<exists>r t. release (io_try id (read_body (prefix_read rd) mode k p)
      (\<lambda>body q. Some (F body, q))) = Some (r, t)" for mode k p and F :: "bytes \<Rightarrow> bytes mzani_result"
  proof -
    obtain r q where "read_body (prefix_read rd) mode k p = Some (r, q)"
      using reader.read_body_total [OF prefix_is_reader] by blast
    then show ?thesis by (cases r) (simp_all add: release_def)
  qed
  then show ?thesis
    unfolding read_http_response_def
    by (intro io_try_returns [OF read_header_block_total]) (auto split: sum.splits)
qed

lemma read_http_response_ok:
  assumes r: "read_http_response rd l s = Some (Inr m, t)" and lim: "max_response_bytes l < usize_bound - 1"
  shows "\<exists>raw f body lost. wire s = raw @ f @ lost @ wire t \<and> forwards raw f body m
           \<and> length body \<le> max_response_bytes l \<and> length raw \<le> max_header_bytes l + header_chunk_size"
proof -
  from r obtain raw pre s1 where
    h: "read_header_block rd (max_header_bytes l) s [] = Some (Inr (raw, pre), s1)"
    by (auto simp: read_http_response_def result_simps)
  from r h obtain headers status mode where
    p: "parse_header_fields raw = Inr headers" "parse_status_code raw = Inr status"
      "body_mode headers status = Inr mode"
    by (auto simp: read_http_response_def split: sum.splits)
  from r h p obtain body q where
    b: "read_body (prefix_read rd) mode (max_response_bytes l) (new_prefix_reader pre s1) = Some (Inr body, q)"
      "encode_forwarded_response raw status headers body = Inr m" "pr_inner q = t"
    by (auto simp: read_http_response_def release_def result_simps)
  from reader.read_body_ok [OF prefix_is_reader b(1) lim] obtain f where
    f: "pre @ wire s1 = f @ prefix_wire wire q" "framed mode f body" "length body \<le> max_response_bytes l"
    by auto
  from read_header_block_ok [OF h] obtain e where
    e: "wire s = (raw @ pre) @ wire s1" "length raw = e + 4"
      "find_subslice (raw @ pre) header_end = Some e"
      "length (raw @ pre) \<le> max_header_bytes l + header_chunk_size"
    by auto
  have "occurs_at raw header_end e" "\<forall>i<e. \<not> occurs_at raw header_end i"
    using e(2,3) find_subslice_Some [of header_end "raw @ pre" e]
    by (auto simp: occurs_at_append)
  then have hb: "head_block raw"
    using e(2) by (simp add: head_block_def find_subslice_Some)
  have "wire s = raw @ f @ drop (pr_offset q) (pr_prefix q) @ wire t"
    using e(1) f(1) b(3) by (simp add: prefix_wire_def)
  moreover have "forwards raw f body m" using hb p b(2) f(2) by (auto simp: forwards_def)
  ultimately show ?thesis using f(3) e(4) by (intro exI conjI) auto
qed

end

section \<open>The rebuilt message\<close>

lemma from_utf8_scalar: "from_utf8 bs = Some s \<Longrightarrow> list_all scalar s"
proof (induction bs arbitrary: s rule: from_utf8.induct)
  case 1
  then show ?case by simp
next
  case (2 a bs)
  consider "unat a < 128" | "194 \<le> unat a" "unat a < 224" | "224 \<le> unat a" "unat a < 240"
    | "240 \<le> unat a" "unat a < 245"
    using "2.prems" by (auto split: if_splits)
  then show ?case
  proof cases
    case 1
    with "2.prems" "2.IH"(1) show ?thesis by (auto simp: scalar_def)
  next
    case 2
    with "2.prems" obtain b r v where "bs = b # r" "utf8_cont b" "from_utf8 r = Some v"
      "s = ((unat a - 192) * 64 + (unat b - 128)) # v"
      by (auto split: list.splits if_splits)
    with 2 "2.IH"(2) show ?thesis by (auto simp: scalar_def utf8_cont_def)
  next
    case 3
    with "2.prems" obtain b c r v where v: "bs = b # c # r" "utf8_second3 a b" "utf8_cont c"
      "from_utf8 r = Some v"
      "s = ((unat a - 224) * 4096 + (unat b - 128) * 64 + (unat c - 128)) # v"
      by (auto split: list.splits if_splits)
    then have "scalar ((unat a - 224) * 4096 + (unat b - 128) * 64 + (unat c - 128))"
      using 3 by (cases "unat a = 237") (auto simp: scalar_def utf8_cont_def utf8_second3_def split: if_splits)
    with 3 "2.IH"(3) v show ?thesis by auto
  next
    case 4
    with "2.prems" obtain b c d r v where v: "bs = b # c # d # r" "utf8_second4 a b" "utf8_cont c"
      "utf8_cont d" "from_utf8 r = Some v"
      "s = ((unat a - 240) * 262144 + (unat b - 128) * 4096
            + (unat c - 128) * 64 + (unat d - 128)) # v"
      by (auto split: list.splits if_splits)
    then have "scalar ((unat a - 240) * 262144 + (unat b - 128) * 4096
            + (unat c - 128) * 64 + (unat d - 128))"
      using 4 by (cases "unat a = 244") (auto simp: scalar_def utf8_cont_def utf8_second4_def split: if_splits)
    with 4 "2.IH"(4) v show ?thesis by auto
  qed
qed

lemma split_crlf_chars: "l \<in> set (split_crlf s) \<Longrightarrow> set l \<subseteq> set s"
proof (induction s arbitrary: l rule: split_crlf.induct)
  case (3 c d s)
  then show ?case by (fastforce split: if_splits list.splits)
qed auto

lemma header_lines_chars:
  "header_lines ls = Inr hs \<Longrightarrow> h \<in> set hs \<Longrightarrow> set (fst h) \<union> set (snd h) \<subseteq> \<Union> (set ` set ls)"
proof (induction ls arbitrary: hs)
  case Nil
  then show ?case by simp
next
  case (Cons l ls)
  show ?case
  proof (cases "l = []")
    case True
    with Cons.prems show ?thesis by simp
  next
    case False
    with Cons.prems(1) obtain n v hs' where l: "split_once 58 l = Some (n, v)"
      "header_lines ls = Inr hs'" "hs = (trim n, trim v) # hs'"
      by (auto simp: result_simps split: option.splits)
    then have "set n \<union> set v \<subseteq> set l" by (auto simp: split_once_Some)
    with l Cons set_trim_subset [of n] set_trim_subset [of v] show ?thesis by fastforce
  qed
qed

lemma parse_header_fields_chars:
  assumes "parse_header_fields raw = Inr hs" "from_utf8 raw = Some s" "h \<in> set hs"
  shows "set (fst h) \<union> set (snd h) \<subseteq> set s"
proof -
  obtain start ls where l: "split_crlf s = start # ls" by (cases "split_crlf s") auto
  have "header_lines ls = Inr hs" using assms(1,2) l by (simp add: parse_header_fields_def)
  from header_lines_chars [OF this assms(3)] have "set (fst h) \<union> set (snd h) \<subseteq> \<Union> (set ` set ls)" .
  moreover have "\<Union> (set ` set ls) \<subseteq> set s"
  proof (rule UN_least)
    fix k assume "k \<in> set ls"
    then have "k \<in> set (split_crlf s)" by (simp add: l)
    then show "set k \<subseteq> set s" by (rule split_crlf_chars)
  qed
  ultimately show ?thesis by (rule subset_trans)
qed

lemma first_line_chars: "first_line s = Some l \<Longrightarrow> set l \<subseteq> set s"
  by (auto simp: first_line_def Let_def dest: set_takeWhileD in_set_butlastD split: if_splits)

lemma first_line_head_text:
  assumes "lf \<notin> set l"
  shows "first_line (head_text (l # ls)) = Some l"
proof -
  have "takeWhile (\<lambda>c. c \<noteq> lf) (l @ cr # lf # r) = l @ [cr]" for r
    using assms by (induction l) auto
  then show ?thesis by (simp add: first_line_def head_text_def Let_def)
qed

text \<open>The rebuilt header fields.\<close>

definition content_length_header :: "nat \<Rightarrow> str \<times> str" where
  "content_length_header n = (lit ''Content-Length'', show_nat n)"

definition forwarded_headers :: "(str \<times> str) list \<Rightarrow> nat \<Rightarrow> (str \<times> str) list" where
  "forwarded_headers headers n = filter (\<lambda>h. \<not> dropped_header h) headers @ [content_length_header n]"

lemma content_length_header_wf: "wf_header (content_length_header n)"
proof -
  have "c \<noteq> cr" if "c \<in> set (show_nat n)" for c using show_nat_chars [OF that] by auto
  then have "\<not> has_crlf (show_nat n)" by (fastforce simp: has_crlf_def)
  moreover have "\<not> has_crlf (lit ''Content-Length'')" by (intro no_lf_no_crlf) simp
  ultimately show ?thesis
    by (simp add: content_length_header_def wf_header_def show_nat_trimmed)
       (simp add: trimmed_def is_ws_def)
qed

lemma dropped_content_length [simp]: "dropped_header (content_length_header n)"
  by (simp add: dropped_header_def content_length_header_def eq_ignore_ascii_case_def ascii_lower_def)

lemma forwarded_headers_idem: "forwarded_headers (forwarded_headers hs k) n = forwarded_headers hs n"
  by (simp add: forwarded_headers_def)

lemma find_not_dropped:
  "eq_ignore_ascii_case name (lit ''transfer-encoding'') \<or> eq_ignore_ascii_case name (lit ''content-length'')
   \<Longrightarrow> find (\<lambda>h. eq_ignore_ascii_case (fst h) name) (filter (\<lambda>h. \<not> dropped_header h) hs) = None"
  by (auto simp: find_None_iff dropped_header_def dest: eq_ignore_ascii_case_trans)

lemma find_append: "find P xs = None \<Longrightarrow> find P (xs @ ys) = find P ys"
  by (induction xs) (auto split: if_splits)

lemma forwarded_transfer_encoding:
  "header_field (forwarded_headers hs n) (lit ''transfer-encoding'') = None"
  unfolding header_field_def forwarded_headers_def
  by (subst find_append [OF find_not_dropped])
     (simp_all add: content_length_header_def eq_ignore_ascii_case_def ascii_lower_def)

lemma forwarded_content_length:
  "header_field (forwarded_headers hs n) (lit ''content-length'') = Some (show_nat n)"
  unfolding header_field_def forwarded_headers_def
  by (subst find_append [OF find_not_dropped])
     (simp_all add: content_length_header_def eq_ignore_ascii_case_def ascii_lower_def)

text \<open>The head of the rebuilt message, and what parsing it gives.\<close>

lemma parse_status_code_ok:
  assumes "parse_status_code raw = Inr status"
  obtains s line v c ws where "from_utf8 raw = Some s" "first_line s = Some line"
    "split_whitespace line = v # c # ws" "parse_u16 c = Some status"
proof -
  from assms obtain s line where s: "from_utf8 raw = Some s" "first_line s = Some line"
    by (auto simp: parse_status_code_def and_then_Inr ok_or_Inr)
  then show thesis using that assms
    by (cases "split_whitespace line"; cases "tl (split_whitespace line)")
       (auto simp: parse_status_code_def result_simps)
qed

lemma encode_forwarded_shape:
  assumes enc: "encode_forwarded_response raw status headers body = Inr m"
    and hs: "parse_header_fields raw = Inr headers" and st: "parse_status_code raw = Inr status"
    and "\<not> no_body_status status"
  obtains line where
    "m = to_utf8 (head_text (line # map render_header (forwarded_headers headers (length body)))) @ body"
    "from_utf8 (to_utf8 (head_text (line # map render_header (forwarded_headers headers (length body)))))
       = Some (head_text (line # map render_header (forwarded_headers headers (length body))))"
    "lf \<notin> set line" "line \<noteq> []" "\<forall>h\<in>set (forwarded_headers headers (length body)). wf_header h"
    "first_line (the (from_utf8 raw)) = Some line"
proof -
  from parse_status_code_ok [OF st] obtain s line where
    s: "from_utf8 raw = Some s" "first_line s = Some line" "split_whitespace line \<noteq> []"
    by (metis list.distinct(1))
  define fh where "fh = forwarded_headers headers (length body)"
  define lines where "lines = line # map render_header fh"
  have wf: "\<forall>h\<in>set fh. wf_header h"
    using parse_header_fields_wf [OF hs] content_length_header_wf by (auto simp: fh_def forwarded_headers_def)
  have ne: "line \<noteq> []" using s(3) by (auto simp: split_whitespace.simps)
  have nolf: "lf \<notin> set line" by (rule first_line_no_lf) (rule s(2))
  have j: "m = to_utf8 (join_crlf lines) @ header_end @ body"
    using enc s(1,2) \<open>\<not> no_body_status status\<close>
    by (simp add: encode_forwarded_response_def lines_def fh_def forwarded_headers_def
        content_length_header_def render_header_def [abs_def] Let_def)
  have "to_utf8 (join_crlf lines) @ header_end = to_utf8 (head_text lines)"
    unfolding lines_def by (subst head_text_join [symmetric]) (simp_all add: header_end_def utf8_char_def)
  with j have m: "m = to_utf8 (head_text lines) @ body" by (metis append_assoc)
  have sc: "list_all scalar s" using s(1) by (rule from_utf8_scalar)
  have "list_all scalar line" using sc first_line_chars [OF s(2)] by (auto simp: list_all_iff)
  moreover have "list_all scalar (render_header h)" if "h \<in> set fh" for h
  proof (cases "h = content_length_header (length body)")
    case True
    then show ?thesis
      using show_nat_chars [of _ "length body"]
      by (fastforce simp: render_header_def content_length_header_def list_all_iff scalar_def)
  next
    case False
    with that have "h \<in> set headers" by (auto simp: fh_def forwarded_headers_def)
    from parse_header_fields_chars [OF hs s(1) this] sc show ?thesis
      by (auto simp: render_header_def list_all_iff scalar_def)
  qed
  ultimately have "list_all scalar (head_text lines)"
    by (auto simp: head_text_def lines_def list_all_iff scalar_def)
  then have "from_utf8 (to_utf8 (head_text lines)) = Some (head_text lines)" by (rule from_utf8_to_utf8)
  then show thesis
    using that [of line] m nolf ne wf s(1,2) unfolding lines_def fh_def by simp
qed

lemma forwarded_head_parses:
  assumes "from_utf8 raw = Some (head_text (line # map render_header hs))"
    and "lf \<notin> set line" "line \<noteq> []" "\<forall>h\<in>set hs. wf_header h"
  shows "parse_header_fields raw = Inr hs" "head_block raw"
    "first_line (head_text (line # map render_header hs)) = Some line"
proof -
  show "parse_header_fields raw = Inr hs"
    using parse_header_fields_render [OF assms(1)] no_lf_no_crlf assms by blast
  have "\<forall>k\<in>set (line # map render_header hs). \<not> has_crlf k \<and> k \<noteq> []"
    using assms no_lf_no_crlf render_header_line by auto
  from find_header_end_rendered [OF assms(1) _ this, of "[]"] show "head_block raw"
    by (simp add: head_block_def)
  show "first_line (head_text (line # map render_header hs)) = Some line"
    using assms(2) by (rule first_line_head_text)
qed

text \<open>
  The status and the header fields of the rebuilt message: those of the response, the
  framing fields replaced by one \<open>Content-Length\<close>.
\<close>

lemma forwards_head:
  assumes "forwards raw f body m" "parse_status_code raw = Inr status" "\<not> no_body_status status"
  obtains raw' headers where "m = raw' @ body" "head_block raw'" "parse_header_fields raw = Inr headers"
    "parse_header_fields raw' = Inr (forwarded_headers headers (length body))"
    "parse_status_code raw' = Inr status"
    "\<And>b. encode_forwarded_response raw' status (forwarded_headers headers (length body)) b
         = encode_forwarded_response raw status headers b"
proof -
  from assms obtain headers where h: "parse_header_fields raw = Inr headers"
    "encode_forwarded_response raw status headers body = Inr m"
    by (auto simp: forwards_def)
  from encode_forwarded_shape [OF h(2,1) assms(2,3)] obtain line where
    e: "m = to_utf8 (head_text (line # map render_header (forwarded_headers headers (length body)))) @ body"
    "from_utf8 (to_utf8 (head_text (line # map render_header (forwarded_headers headers (length body)))))
       = Some (head_text (line # map render_header (forwarded_headers headers (length body))))"
    "lf \<notin> set line" "line \<noteq> []" "\<forall>k\<in>set (forwarded_headers headers (length body)). wf_header k"
    "first_line (the (from_utf8 raw)) = Some line"
    by blast
  define fh where "fh = forwarded_headers headers (length body)"
  define text' where "text' = head_text (line # map render_header fh)"
  define raw' where "raw' = to_utf8 text'"
  have u: "from_utf8 raw' = Some text'" using e(2) by (simp only: raw'_def text'_def fh_def)
  have p: "parse_header_fields raw' = Inr fh" "head_block raw'" "first_line text' = Some line"
    using forwarded_head_parses [OF e(2-5)] by (simp_all only: raw'_def text'_def fh_def)
  from parse_status_code_ok [OF assms(2)] obtain s where s: "from_utf8 raw = Some s" by blast
  with e(6) have fl: "first_line s = Some line" by simp
  have "parse_status_code raw' = parse_status_code raw"
    by (simp add: parse_status_code_def u p(3) s fl)
  moreover have "encode_forwarded_response raw' status fh b = encode_forwarded_response raw status headers b" for b
    using assms(3) by (simp add: encode_forwarded_response_def u p(3) s fl fh_def forwarded_headers_def)
  ultimately show thesis
    using that [of raw' headers] e(1) p(1,2) h(1) assms(2) by (simp only: fh_def raw'_def text'_def simp_thms)
qed

section \<open>Reading the rebuilt message back\<close>

lemma forwards_no_body:
  assumes "forwards raw f body m" "parse_status_code raw = Inr status" "no_body_status status"
  shows "m = raw \<and> body = []"
  using assms by (auto simp: forwards_def encode_forwarded_response_def body_mode_def)

lemma body_mode_forwarded:
  assumes "\<not> no_body_status status" "n < usize_bound"
  shows "body_mode (forwarded_headers headers n) status = Inr (Fixed n)"
  using assms unfolding body_mode_def forwarded_transfer_encoding forwarded_content_length
  by (simp add: parse_usize_show_nat)

context live_reader
begin

lemma read_http_response_fixed:
  assumes "clean s" "wire s = raw @ body" "head_block raw"
    and p: "parse_header_fields raw = Inr headers" "parse_status_code raw = Inr status"
      "body_mode headers status = Inr (Fixed (length body))"
    and lim: "length raw \<le> max_header_bytes l + 1" "length body \<le> max_response_bytes l"
  shows "\<exists>t. read_http_response rd l s = Some (encode_forwarded_response raw status headers body, t)"
proof -
  have "find_subslice ([] @ wire s) header_end = Some (length raw - 4)"
    using assms(2,3) find_subslice_append [OF header_end_facts(1), of raw] by (simp add: head_block_def)
  moreover have "length raw - 4 + 3 \<le> max_header_bytes l" using assms(3) lim(1) by (simp add: head_block_def)
  ultimately obtain pre s1 where
    h: "read_header_block rd (max_header_bytes l) s [] = Some (Inr (raw, pre), s1)"
    "clean s1" "pre @ wire s1 = body"
    using read_header_block_clean [OF assms(1), of "[]"] assms(2,3)
    by (fastforce simp: head_block_def)
  have "\<exists>q. read_fixed_body (prefix_read rd) (new_prefix_reader pre s1) (length body) (max_response_bytes l)
      = Some (Inr body, q)"
    using live_reader.read_fixed_body_clean [OF prefix_is_live_reader, of "new_prefix_reader pre s1"
        "length body" "max_response_bytes l"] h(2,3) lim(2) by auto
  with h p show ?thesis by (auto simp: read_http_response_def read_body_def release_def)
qed

lemma read_http_response_again:
  assumes fw: "forwards raw f body m" and s: "clean s" "wire s = m"
    and lim: "length body \<le> max_response_bytes l" "length body < usize_bound"
      "length m - length body \<le> max_header_bytes l + 1"
  shows "\<exists>t. read_http_response rd l s = Some (Inr m, t)"
proof -
  from fw obtain status headers where st: "parse_status_code raw = Inr status"
    "parse_header_fields raw = Inr headers" "encode_forwarded_response raw status headers body = Inr m"
    by (auto simp: forwards_def)
  show ?thesis
  proof (cases "no_body_status status")
    case True
    with forwards_no_body [OF fw st(1)] have m: "m = raw" "body = []" by auto
    have "body_mode headers status = Inr (Fixed (length []))" using True by (simp add: body_mode_def)
    from read_http_response_fixed [OF s(1) _ _ st(2,1) this, of l] fw m s(2) lim True
    show ?thesis by (auto simp: forwards_def encode_forwarded_response_def)
  next
    case False
    from forwards_head [OF fw st(1) False] st(2) obtain raw' where
      r: "m = raw' @ body" "head_block raw'"
        "parse_header_fields raw' = Inr (forwarded_headers headers (length body))"
        "parse_status_code raw' = Inr status"
        "\<And>b. encode_forwarded_response raw' status (forwarded_headers headers (length body)) b
         = encode_forwarded_response raw status headers b"
      by (metis sum.inject(2))
    have "wire s = raw' @ body" using s(2) r(1) by simp
    from read_http_response_fixed [OF s(1) this r(2-4) body_mode_forwarded [OF False lim(2)]] lim r(1,5) st(3)
    show ?thesis by simp
  qed
qed

end

end
