(* ===== verification/Http_Replies.thy ===== *)
theory Http_Replies
  imports Forwarding
begin

text \<open>
  \<open>src/src/utils/http.rs\<close>: the replies the balancer writes itself, 503 and 413. They are
  HTTP responses that announce the length of their body in bytes; a reader of responses
  gets back their status and their body.
\<close>

text \<open>The text of both replies, and the sequence write, flush, close of the write half.
  The result of the close is ignored.\<close>

definition reply_text :: "str \<Rightarrow> str \<Rightarrow> str" where
  "reply_text status_line body =
    status_line @ [cr, lf]
    @ lit ''Content-Length: '' @ show_nat (length (to_utf8 body)) @ [cr, lf]
    @ lit ''Connection: close'' @ [cr, lf, cr, lf] @ body"

definition send_and_close :: "bytes \<Rightarrow> socket \<Rightarrow> unit mzani_result \<times> socket" where
  "send_and_close bs sk =
    (case write_all bs sk of
       (Inl e, sk1) \<Rightarrow> (Inl (from_io e), sk1)
     | (Inr _, sk1) \<Rightarrow>
         (case flush sk1 of
            Inl e \<Rightarrow> (Inl (from_io e), sk1)
          | Inr _ \<Rightarrow> (Inr (), snd (shutdown_write sk1))))"

definition service_unavailable_line :: str where
  "service_unavailable_line = lit ''HTTP/1.1 503 Service Unavailable''"

definition service_unavailable_body :: "str \<Rightarrow> str" where
  "service_unavailable_body message = lit ''service unavailable: '' @ message"

definition write_service_unavailable :: "str \<Rightarrow> socket \<Rightarrow> unit mzani_result \<times> socket" where
  "write_service_unavailable message sk =
    send_and_close (to_utf8 (reply_text service_unavailable_line (service_unavailable_body message))) sk"

definition payload_too_large_line :: str where
  "payload_too_large_line = lit ''HTTP/1.1 413 Payload Too Large''"

definition payload_too_large_body :: str where
  "payload_too_large_body = lit ''payload too large''"

definition write_payload_too_large :: "socket \<Rightarrow> unit mzani_result \<times> socket" where
  "write_payload_too_large sk =
    send_and_close (to_utf8 (reply_text payload_too_large_line payload_too_large_body)) sk"

section \<open>What reaches the client\<close>

lemma send_and_close_outbound:
  "\<exists>ds z. outbound (snd (send_and_close bs sk)) = outbound sk @ ds \<and> bs = ds @ z"
proof -
  have o: "outbound (snd (shutdown_write k)) = outbound k" for k
    by (simp add: shutdown_write_def split: option.splits)
  from write_all_outbound [of bs sk] obtain ds z where
    "outbound (snd (write_all bs sk)) = outbound sk @ ds" "bs = ds @ z" by blast
  then show ?thesis
    by (auto simp: send_and_close_def o split: prod.splits sum.splits)
qed

lemma send_and_close_ok:
  "send_and_close bs sk = (Inr (), sk') \<Longrightarrow> outbound sk' = outbound sk @ bs"
  by (auto simp: send_and_close_def shutdown_write_def dest: write_all_ok
      split: prod.splits sum.splits option.splits)

section \<open>The replies are responses\<close>

definition reply_headers :: "nat \<Rightarrow> (str \<times> str) list" where
  "reply_headers n = [content_length_header n, (lit ''Connection'', lit ''close'')]"

definition reply_head :: "str \<Rightarrow> nat \<Rightarrow> str" where
  "reply_head status_line n = head_text (status_line # map render_header (reply_headers n))"

lemma reply_text_head:
  "to_utf8 (reply_text status_line body) = to_utf8 (reply_head status_line (length (to_utf8 body))) @ to_utf8 body"
proof -
  have "reply_text status_line body = reply_head status_line (length (to_utf8 body)) @ body"
    by (simp add: reply_text_def reply_head_def reply_headers_def content_length_header_def
        render_header_def head_text_def)
  then show ?thesis by simp
qed

lemma reply_headers_wf: "\<forall>h\<in>set (reply_headers n). wf_header h"
proof -
  have "wf_header (lit ''Connection'', lit ''close'')"
    unfolding wf_header_def fst_conv snd_conv
    by (intro conjI no_lf_no_crlf) (simp_all add: trimmed_def is_ws_def)
  with content_length_header_wf show ?thesis by (simp add: reply_headers_def)
qed

lemma reply_headers_framing:
  assumes "n < usize_bound" "\<not> no_body_status status"
  shows "body_mode (reply_headers n) status = Inr (Fixed n)"
proof -
  have "header_field (reply_headers n) (lit ''transfer-encoding'') = None"
    by (simp add: header_field_def reply_headers_def content_length_header_def
        eq_ignore_ascii_case_def ascii_lower_def)
  moreover have "header_field (reply_headers n) (lit ''content-length'') = Some (show_nat n)"
    by (simp add: header_field_def reply_headers_def content_length_header_def
        eq_ignore_ascii_case_def ascii_lower_def)
  ultimately show ?thesis
    using assms by (simp only: body_mode_def) (simp add: parse_usize_show_nat)
qed

lemma reply_headers_kept:
  "forwarded_headers (reply_headers n) k = [(lit ''Connection'', lit ''close''), content_length_header k]"
proof -
  have "\<not> dropped_header (lit ''Connection'', lit ''close'')"
    by (simp add: dropped_header_def eq_ignore_ascii_case_def ascii_lower_def)
  then show ?thesis by (simp add: forwarded_headers_def reply_headers_def)
qed

definition plain_status_line :: "str \<Rightarrow> nat \<Rightarrow> bool" where
  "plain_status_line line status \<longleftrightarrow>
     list_all scalar line \<and> lf \<notin> set line \<and> line \<noteq> [] \<and> \<not> no_body_status status
     \<and> (\<exists>v c ws. split_whitespace line = v # c # ws \<and> parse_u16 c = Some status)"

lemma reply_head_text:
  assumes "plain_status_line line status"
  shows "from_utf8 (to_utf8 (reply_head line n)) = Some (reply_head line n)"
proof -
  have "list_all scalar (render_header h)" if "h \<in> set (reply_headers n)" for h
    using that show_nat_chars [of _ n]
    by (fastforce simp: render_header_def reply_headers_def content_length_header_def list_all_iff scalar_def)
  then have "list_all scalar (reply_head line n)"
    using assms by (auto simp: reply_head_def head_text_def plain_status_line_def list_all_iff scalar_def)
  then show ?thesis by (rule from_utf8_to_utf8)
qed

lemma reply_head_parses:
  assumes "plain_status_line line status"
  shows "parse_header_fields (to_utf8 (reply_head line n)) = Inr (reply_headers n)"
    "head_block (to_utf8 (reply_head line n))"
    "first_line (reply_head line n) = Some line"
    "parse_status_code (to_utf8 (reply_head line n)) = Inr status"
proof -
  have l: "lf \<notin> set line" "line \<noteq> []" using assms by (simp_all add: plain_status_line_def)
  note u = reply_head_text [OF assms, of n]
  show "parse_header_fields (to_utf8 (reply_head line n)) = Inr (reply_headers n)"
    "head_block (to_utf8 (reply_head line n))" and f: "first_line (reply_head line n) = Some line"
    using forwarded_head_parses [OF u [unfolded reply_head_def] l reply_headers_wf]
    by (simp_all only: reply_head_def)
  show "parse_status_code (to_utf8 (reply_head line n)) = Inr status"
    using assms by (auto simp: parse_status_code_def u f plain_status_line_def)
qed

definition reply_rebuilt :: "str \<Rightarrow> nat \<Rightarrow> str" where
  "reply_rebuilt line n =
     head_text (line # map render_header [(lit ''Connection'', lit ''close''), content_length_header n])"

lemma reply_reads_back:
  assumes line: "plain_status_line line status" and s: "tcp_clean s"
    and w: "tcp_wire s = to_utf8 (reply_text line body)"
    and lim: "length (to_utf8 (reply_head line (length (to_utf8 body)))) \<le> max_header_bytes l + 1"
      "length (to_utf8 body) \<le> max_response_bytes l" "length (to_utf8 body) < usize_bound"
  shows "\<exists>t. read_http_response tcp_read l s
      = Some (Inr (to_utf8 (reply_rebuilt line (length (to_utf8 body))) @ to_utf8 body), t)"
proof -
  define n where "n = length (to_utf8 body)"
  define raw where "raw = to_utf8 (reply_head line n)"
  have nb: "\<not> no_body_status status" using line by (simp add: plain_status_line_def)
  have u: "from_utf8 raw = Some (reply_head line n)" unfolding raw_def by (rule reply_head_text) (rule line)
  note p = reply_head_parses [OF line, of n, folded raw_def]
  have "\<exists>m. encode_forwarded_response raw status (reply_headers n) (to_utf8 body) = Inr m"
    by (simp add: encode_forwarded_response_def u p(3) Let_def)
  then obtain m where m: "encode_forwarded_response raw status (reply_headers n) (to_utf8 body) = Inr m" ..
  from encode_forwarded_shape [OF m p(1,4) nb] obtain line' where
    e: "m = to_utf8 (head_text (line' # map render_header (forwarded_headers (reply_headers n) (length (to_utf8 body)))))
          @ to_utf8 body" "first_line (the (from_utf8 raw)) = Some line'" by blast
  have "line' = line" using e(2) u p(3) by simp
  with e(1) have m': "m = to_utf8 (reply_rebuilt line n) @ to_utf8 body"
    by (simp only: reply_rebuilt_def reply_headers_kept n_def [symmetric])
  have w': "tcp_wire s = raw @ to_utf8 body" unfolding w raw_def n_def by (rule reply_text_head)
  have "body_mode (reply_headers n) status = Inr (Fixed (length (to_utf8 body)))"
    using lim(3) nb unfolding n_def by (rule reply_headers_framing)
  from tcp.read_http_response_fixed [OF s w' p(2,1,4) this, of l, unfolded m m'] lim(1,2)
  show ?thesis by (simp only: raw_def n_def)
qed

end
