(* ===== verification/Rust_Float.thy ===== *)
theory Rust_Float
  imports Rust_Num
begin

text \<open>
  The floating-point numbers of the metrics report: non-negative values of \<open>f64\<close>, their
  rounding to 53 significant bits (to nearest, ties to even), \<open>{:.2}\<close>, and the \<open>Debug\<close> format
  of \<open>Duration\<close>. A value \<open>(m, k)\<close> stands for \<open>m / 2 ^ k\<close>. The values of the report lie
  between \<open>10 ^ -9\<close> and \<open>2 ^ 94\<close>, so that neither the smallest nor the largest exponent is
  met.
\<close>

section \<open>Rounding\<close>

text \<open>The nearest natural number to \<open>p / q\<close>, the even one of two.\<close>

definition round_half_even :: "nat \<Rightarrow> nat \<Rightarrow> nat" where
  "round_half_even p q =
    (let d = p div q; r = p mod q
     in if 2 * r < q \<or> (2 * r = q \<and> even d) then d else d + 1)"

lemma round_half_even_error:
  assumes "0 < q"
  shows "2 * (round_half_even p q * q) \<le> 2 * p + q" "2 * p \<le> 2 * (round_half_even p q * q) + q"
proof -
  define d where "d = p div q"
  define r where "r = p mod q"
  have p: "p = d * q + r" by (simp add: d_def r_def)
  have r: "r < q" using assms by (simp add: r_def)
  have e: "round_half_even p q = (if 2 * r < q \<or> (2 * r = q \<and> even d) then d else d + 1)"
    by (simp add: round_half_even_def Let_def d_def r_def)
  show "2 * (round_half_even p q * q) \<le> 2 * p + q" "2 * p \<le> 2 * (round_half_even p q * q) + q"
    unfolding e using p r by (auto simp: algebra_simps)
qed

lemma round_half_even_exact: "0 < q \<Longrightarrow> round_half_even (n * q) q = n"
  by (simp add: round_half_even_def)

fun bit_count :: "nat \<Rightarrow> nat" where
  "bit_count n = (if n = 0 then 0 else Suc (bit_count (n div 2)))"

declare bit_count.simps [simp del]

lemma bit_count_bounds: "0 < n \<Longrightarrow> 2 ^ (bit_count n - 1) \<le> n \<and> n < 2 ^ bit_count n \<and> 0 < bit_count n"
proof (induction n rule: bit_count.induct)
  case (1 n)
  show ?case
  proof (cases "n < 2")
    case True
    with 1 have "n = 1" by simp
    then show ?thesis by (simp add: bit_count.simps)
  next
    case False
    then have "0 < n div 2" by simp
    with 1 have IH: "2 ^ (bit_count (n div 2) - 1) \<le> n div 2" "n div 2 < 2 ^ bit_count (n div 2)"
      "0 < bit_count (n div 2)" by auto
    obtain b where b: "bit_count (n div 2) = Suc b" using IH(3) by (cases "bit_count (n div 2)") auto
    have "bit_count n = Suc (Suc b)" using False b by (simp add: bit_count.simps [of n])
    with IH b show ?thesis by auto
  qed
qed

lemma bit_count_double: "0 < n \<Longrightarrow> bit_count (2 * n) = Suc (bit_count n)"
  by (simp add: bit_count.simps [of "2 * n"])

lemma bit_count_shift: "0 < n \<Longrightarrow> bit_count (n * 2 ^ k) = bit_count n + k"
proof (induction k)
  case (Suc k)
  have "n * 2 ^ Suc k = 2 * (n * 2 ^ k)" by simp
  with Suc show ?case by (metis bit_count_double add_Suc_right nat_0_less_mult_iff zero_less_numeral zero_less_power)
qed simp

lemma bit_count_le: "n < 2 ^ k \<Longrightarrow> bit_count n \<le> k"
proof (cases "n = 0")
  case False
  then have b: "2 ^ (bit_count n - 1) \<le> n" "0 < bit_count n" using bit_count_bounds [of n] by auto
  assume "n < 2 ^ k"
  with b(1) have "(2::nat) ^ (bit_count n - 1) < 2 ^ k" by linarith
  then have "bit_count n - 1 < k" by (rule power_less_imp_less_exp [rotated]) simp
  with b(2) show ?thesis by simp
qed (simp add: bit_count.simps)

type_synonym f64 = "nat \<times> nat"

text \<open>\<open>p / q\<close> rounded. The significand is \<open>p * 2 ^ s / q\<close> with \<open>s\<close> such that it has 53 bits;
  where \<open>s\<close> would be negative the result is a multiple of a power of two.\<close>

definition round53 :: "nat \<Rightarrow> nat \<Rightarrow> f64" where
  "round53 p q =
    (if p = 0 then (0, 0)
     else
       let s0 = 53 + int (bit_count q) - int (bit_count p);
           big = (if 0 \<le> s0 then q * 2 ^ 53 \<le> p * 2 ^ nat s0 else q * 2 ^ (53 + nat (- s0)) \<le> p);
           s = (if big then s0 - 1 else s0)
       in if 0 \<le> s then (round_half_even (p * 2 ^ nat s) q, nat s)
          else (round_half_even p (q * 2 ^ nat (- s)) * 2 ^ nat (- s), 0))"

text \<open>\<open>u64 as f64\<close>, sums and quotients.\<close>

definition f64_of_nat :: "nat \<Rightarrow> f64" where
  "f64_of_nat n = round53 n 1"

definition f64_add :: "f64 \<Rightarrow> f64 \<Rightarrow> f64" where
  "f64_add x y = (case x of (a, i) \<Rightarrow> case y of (b, j) \<Rightarrow> round53 (a * 2 ^ j + b * 2 ^ i) (2 ^ (i + j)))"

definition f64_div :: "f64 \<Rightarrow> f64 \<Rightarrow> f64" where
  "f64_div x y = (case x of (a, i) \<Rightarrow> case y of (b, j) \<Rightarrow> round53 (a * 2 ^ j) (b * 2 ^ i))"

definition f64_le :: "f64 \<Rightarrow> f64 \<Rightarrow> bool" where
  "f64_le x y = (case x of (a, i) \<Rightarrow> case y of (b, j) \<Rightarrow> a * 2 ^ j \<le> b * 2 ^ i)"

text \<open>Division by a power of two is exact.\<close>

lemma round53_nat_exact:
  assumes "n < 2 ^ 53"
  shows "\<exists>k. f64_of_nat n = (n * 2 ^ k, k)"
proof (cases "n = 0")
  case True
  then show ?thesis by (intro exI [of _ 0]) (simp add: f64_of_nat_def round53_def)
next
  case False
  have b: "2 ^ (bit_count n - 1) \<le> n" "n < 2 ^ bit_count n" "0 < bit_count n"
    using bit_count_bounds [of n] False by auto
  have "(2::nat) ^ (bit_count n - 1) < 2 ^ 53" using b(1) assms by linarith
  then have "bit_count n - 1 < 53" by (rule power_less_imp_less_exp [rotated]) simp
  then have le: "bit_count n \<le> 53" by simp
  have one: "bit_count 1 = 1" by (simp add: bit_count.simps)
  define k where "k = nat (53 + 1 - int (bit_count n))"
  have k: "int k = 53 + 1 - int (bit_count n)" "1 \<le> k" using le by (simp_all add: k_def)
  show ?thesis
    using False k one
    by (auto simp: f64_of_nat_def round53_def Let_def round_half_even_def)
qed

lemma round53_power_of_two:
  assumes "n < 2 ^ 53"
  shows "\<exists>s. round53 (n * 2 ^ k) (2 ^ (i + k)) = (n * 2 ^ s, s + i)
    \<or> n = 0 \<and> round53 (n * 2 ^ k) (2 ^ (i + k)) = (0, 0)"
proof (cases "n = 0")
  case False
  have "bit_count n \<le> 53" by (rule bit_count_le) (rule assms)
  have one: "bit_count (2 ^ (i + k)) = 1 + i + k"
    using bit_count_shift [of 1 "i + k"] by (simp add: bit_count.simps)
  have p: "bit_count (n * 2 ^ k) = bit_count n + k" using False by (simp add: bit_count_shift)
  define s0 where "s0 = 54 + i - bit_count n"
  have s0: "53 + int (bit_count (2 ^ (i + k))) - int (bit_count (n * 2 ^ k)) = int s0" "i + 1 \<le> s0"
    using \<open>bit_count n \<le> 53\<close> by (simp_all add: one p s0_def)
  have ex: "round_half_even (n * 2 ^ k * 2 ^ s) (2 ^ (i + k)) = n * 2 ^ (s - i)" if "i \<le> s" for s
  proof -
    have "(2::nat) ^ k * 2 ^ s = 2 ^ (s - i) * 2 ^ (i + k)"
      using that by (simp add: power_add [symmetric] add.commute)
    then have "n * 2 ^ k * 2 ^ s = (n * 2 ^ (s - i)) * 2 ^ (i + k)" by (simp only: mult.assoc)
    moreover have "(0::nat) < 2 ^ (i + k)" by simp
    ultimately show ?thesis by (simp only: round_half_even_exact)
  qed
  have "\<exists>s. i \<le> s \<and> round53 (n * 2 ^ k) (2 ^ (i + k)) = (n * 2 ^ (s - i), s)"
    using False s0(2) ex [of s0] ex [of "s0 - 1"]
    by (auto simp: round53_def Let_def s0(1) nat_diff_distrib intro: exI [of _ s0] exI [of _ "s0 - 1"])
  then obtain s where "i \<le> s" "round53 (n * 2 ^ k) (2 ^ (i + k)) = (n * 2 ^ (s - i), s)" by blast
  then show ?thesis by (intro exI [of _ "s - i"]) simp
qed (simp add: round53_def)

section \<open>Text\<close>

text \<open>\<open>{:.2}\<close> prints the exact value rounded to hundredths.\<close>

definition show_hundredths :: "nat \<Rightarrow> str" where
  "show_hundredths n = show_nat (n div 100) @ [46, 48 + n mod 100 div 10, 48 + n mod 10]"

definition show_fixed2 :: "f64 \<Rightarrow> str" where
  "show_fixed2 x = (case x of (m, k) \<Rightarrow> show_hundredths (round_half_even (100 * m) (2 ^ k)))"

lemma f64_le_nat: "n < 2 ^ 53 \<Longrightarrow> f64_le (m, 0) (f64_of_nat n) \<longleftrightarrow> m \<le> n"
  using round53_nat_exact [of n] by (auto simp: f64_le_def)

text \<open>The hundredths of \<open>n / 2 ^ i\<close>, rounded.\<close>

definition hundredths :: "nat \<Rightarrow> nat \<Rightarrow> nat" where
  "hundredths n i = round_half_even (100 * n) (2 ^ i)"

lemma round_half_even_scale: "0 < c \<Longrightarrow> round_half_even (p * c) (q * c) = round_half_even p q"
  by (cases "q = 0") (auto simp: round_half_even_def Let_def mult.assoc [symmetric] mod_mult_mult2 simp flip: )

lemma show_fixed2_nat:
  assumes "n < 2 ^ 53"
  shows "show_fixed2 (f64_div (f64_of_nat n) (2 ^ i, 0)) = show_hundredths (hundredths n i)"
proof -
  obtain k where k: "f64_of_nat n = (n * 2 ^ k, k)" using round53_nat_exact [OF assms] by blast
  from round53_power_of_two [OF assms, of k i] obtain s where
    "round53 (n * 2 ^ k) (2 ^ (i + k)) = (n * 2 ^ s, s + i) \<or> n = 0 \<and> round53 (n * 2 ^ k) (2 ^ (i + k)) = (0, 0)"
    by blast
  then show ?thesis
  proof
    assume "round53 (n * 2 ^ k) (2 ^ (i + k)) = (n * 2 ^ s, s + i)"
    then have "show_fixed2 (f64_div (f64_of_nat n) (2 ^ i, 0))
        = show_hundredths (round_half_even (100 * n * 2 ^ s) (2 ^ i * 2 ^ s))"
      by (simp add: k f64_div_def show_fixed2_def power_add ac_simps)
    then show ?thesis by (simp only: round_half_even_scale hundredths_def zero_less_power zero_less_numeral)
  next
    assume "n = 0 \<and> round53 (n * 2 ^ k) (2 ^ (i + k)) = (0, 0)"
    then show ?thesis
      by (simp add: f64_div_def show_fixed2_def hundredths_def round_half_even_def f64_of_nat_def round53_def)
  qed
qed

text \<open>What is printed is within half a hundredth of a unit of the number.\<close>

lemma hundredths_error:
  "2 * 2 ^ i * hundredths n i \<le> 2 * 100 * n + 2 ^ i" "2 * 100 * n \<le> 2 * 2 ^ i * hundredths n i + 2 ^ i"
  using round_half_even_error [of "2 ^ i" "100 * n"] by (simp_all add: hundredths_def ac_simps)

text \<open>\<open>Duration::as_secs_f64\<close> and \<open>Debug for Duration\<close>.\<close>

definition as_secs_f64 :: "duration \<Rightarrow> f64" where
  "as_secs_f64 d =
    f64_add (f64_of_nat (d div 1000000000)) (f64_div (f64_of_nat (d mod 1000000000)) (f64_of_nat 1000000000))"

function fraction_digits :: "nat \<Rightarrow> nat \<Rightarrow> str" where
  "fraction_digits fractional divisor =
    (if fractional = 0 \<or> divisor = 0 then []
     else (48 + fractional div divisor) # fraction_digits (fractional mod divisor) (divisor div 10))"
  by pat_completeness auto

termination
  by (relation "measure snd") auto

declare fraction_digits.simps [simp del]

definition show_decimal :: "nat \<Rightarrow> nat \<Rightarrow> nat \<Rightarrow> str \<Rightarrow> str" where
  "show_decimal whole fractional divisor suffix =
    show_nat whole
    @ (let ds = fraction_digits fractional divisor in if ds = [] then [] else 46 # ds)
    @ suffix"

definition debug_duration :: "duration \<Rightarrow> str" where
  "debug_duration d =
    (let secs = d div 1000000000; nanos = d mod 1000000000
     in if 0 < secs then show_decimal secs nanos 100000000 (lit ''s'')
        else if 1000000 \<le> nanos then show_decimal (nanos div 1000000) (nanos mod 1000000) 100000 (lit ''ms'')
        else if 1000 \<le> nanos then show_decimal (nanos div 1000) (nanos mod 1000) 100 [181, 115]
        else show_decimal nanos 0 1 (lit ''ns''))"

lemma debug_duration_examples:
  "debug_duration 1050000000 = lit ''1.05s''" "debug_duration 2500000 = lit ''2.5ms''"
  "debug_duration 0 = lit ''0ns''" "debug_duration 90000000000 = lit ''90s''"
  by (simp_all add: debug_duration_def show_decimal_def fraction_digits.simps show_nat_def show_radix.simps
      digit_char_def)

end
