(* ===== verification/Channels.thy ===== *)
theory Channels
  imports Prelude
begin

text \<open>
  \<open>std::sync::mpsc::sync_channel\<close> as the sources use it: a bounded queue with
  \<open>try_send\<close> on the sending side and \<open>recv\<close> on the receiving side. \<open>senders\<close> counts the
  live \<open>SyncSender\<close> handles; a receiver waits while the queue is empty and a sender lives,
  and ends when none is left. Capacities are at least 1 (\<open>PoolConfig::validate\<close>).
\<close>

record 'a channel =
  capacity :: nat
  queue :: "'a list"
  senders :: nat
  receiver_alive :: bool

datatype 'a send_error = Full 'a | Disconnected 'a

definition sync_channel :: "nat \<Rightarrow> 'a channel" where
  "sync_channel n = \<lparr>capacity = n, queue = [], senders = 1, receiver_alive = True\<rparr>"

definition try_send :: "'a \<Rightarrow> 'a channel \<Rightarrow> ('a send_error + unit) \<times> 'a channel" where
  "try_send x ch =
    (if \<not> receiver_alive ch then (Inl (Disconnected x), ch)
     else if capacity ch \<le> length (queue ch) then (Inl (Full x), ch)
     else (Inr (), ch\<lparr>queue := queue ch @ [x]\<rparr>))"

datatype 'a receive = Received 'a | Closed | Waiting

definition recv :: "'a channel \<Rightarrow> 'a receive \<times> 'a channel" where
  "recv ch =
    (case queue ch of
       x # q \<Rightarrow> (Received x, ch\<lparr>queue := q\<rparr>)
     | [] \<Rightarrow> if senders ch = 0 then (Closed, ch) else (Waiting, ch))"

definition clone_sender :: "'a channel \<Rightarrow> 'a channel" where
  "clone_sender ch = ch\<lparr>senders := Suc (senders ch)\<rparr>"

definition drop_sender :: "'a channel \<Rightarrow> 'a channel" where
  "drop_sender ch = ch\<lparr>senders := senders ch - 1\<rparr>"

definition within_capacity :: "'a channel \<Rightarrow> bool" where
  "within_capacity ch \<longleftrightarrow> length (queue ch) \<le> capacity ch"

lemma try_send_cases:
  "(\<exists>e. fst (try_send x ch) = Inl e) \<and> snd (try_send x ch) = ch
   \<or> fst (try_send x ch) = Inr () \<and> queue (snd (try_send x ch)) = queue ch @ [x]
     \<and> length (queue ch) < capacity ch \<and> receiver_alive ch"
  by (auto simp: try_send_def)

lemma try_send_frame [simp]:
  "capacity (snd (try_send x ch)) = capacity ch"
  "senders (snd (try_send x ch)) = senders ch"
  "receiver_alive (snd (try_send x ch)) = receiver_alive ch"
  by (simp_all add: try_send_def)

lemma try_send_within: "within_capacity ch \<Longrightarrow> within_capacity (snd (try_send x ch))"
  by (simp add: within_capacity_def try_send_def)

lemma recv_within: "within_capacity ch \<Longrightarrow> within_capacity (snd (recv ch))"
  by (auto simp: within_capacity_def recv_def split: list.splits)

lemma recv_Received: "recv ch = (Received x, ch') \<Longrightarrow> queue ch = x # queue ch'"
  by (auto simp: recv_def split: list.splits if_splits)

lemma recv_Closed: "recv ch = (Closed, ch') \<Longrightarrow> queue ch = [] \<and> senders ch = 0 \<and> ch' = ch"
  by (auto simp: recv_def split: list.splits if_splits)

text \<open>Sending only appends, and never beyond the capacity.\<close>

definition extends :: "'a channel \<Rightarrow> 'a list \<Rightarrow> 'a channel \<Rightarrow> bool" where
  "extends ch rs ch' \<longleftrightarrow>
     ch' = ch\<lparr>queue := queue ch @ rs\<rparr> \<and> (within_capacity ch \<longrightarrow> within_capacity ch')"

lemma extends_Nil [simp]: "extends ch [] ch"
  by (simp add: extends_def)

lemma extends_trans: "extends ch rs ch1 \<Longrightarrow> extends ch1 rs' ch2 \<Longrightarrow> extends ch (rs @ rs') ch2"
  by (auto simp: extends_def within_capacity_def)

lemma extends_queue: "extends ch rs ch' \<Longrightarrow> queue ch' = queue ch @ rs"
  by (simp add: extends_def)

lemma extends_within: "extends ch rs ch' \<Longrightarrow> within_capacity ch \<Longrightarrow> within_capacity ch'"
  by (auto simp only: extends_def)

lemma try_send_extends: "\<exists>rs. extends ch rs (snd (try_send x ch)) \<and> (rs = [] \<or> rs = [x])"
proof (cases "fst (try_send x ch)")
  case (Inl e)
  then have "snd (try_send x ch) = ch" by (auto simp: try_send_def split: if_splits)
  then show ?thesis by (intro exI [of _ "[]"]) simp
next
  case (Inr u)
  then have "snd (try_send x ch) = ch\<lparr>queue := queue ch @ [x]\<rparr>" by (auto simp: try_send_def split: if_splits)
  with try_send_within [of ch x] show ?thesis by (intro exI [of _ "[x]"]) (simp add: extends_def)
qed

end
