(* ===== verification/Log_Records.thy ===== *)
theory Log_Records
  imports Streams Channels
begin

text \<open>
  \<open>src/src/utils/log_record.rs\<close> and \<open>src/src/utils/logger.rs\<close>: structured log records, their
  one-line format, the level filter, and the two sinks. The clock and the environment
  variable \<open>MZANI_LOG\<close> are arguments.
\<close>

section \<open>Levels and roles\<close>

datatype log_level = Debug | Info | Warn | Error

fun level_str :: "log_level \<Rightarrow> str" where
  "level_str Debug = lit ''DEBUG''"
| "level_str Info = lit ''INFO''"
| "level_str Warn = lit ''WARN''"
| "level_str Error = lit ''ERROR''"

text \<open>The derived order is that of the declaration.\<close>

fun level_rank :: "log_level \<Rightarrow> nat" where
  "level_rank Debug = 0"
| "level_rank Info = 1"
| "level_rank Warn = 2"
| "level_rank Error = 3"

lemma level_rank_inject [simp]: "level_rank a = level_rank b \<longleftrightarrow> a = b"
  by (cases a; cases b) simp_all

instantiation log_level :: linorder
begin

definition less_eq_log_level :: "log_level \<Rightarrow> log_level \<Rightarrow> bool" where
  "less_eq_log_level a b \<longleftrightarrow> level_rank a \<le> level_rank b"

definition less_log_level :: "log_level \<Rightarrow> log_level \<Rightarrow> bool" where
  "less_log_level a b \<longleftrightarrow> level_rank a < level_rank b"

instance
  by standard (auto simp: less_eq_log_level_def less_log_level_def)

end

text \<open>\<open>LogLevel::from_env\<close>; the argument is the value of \<open>MZANI_LOG\<close>, if set.\<close>

definition level_from_env :: "str option \<Rightarrow> log_level" where
  "level_from_env var =
    (case map_option (map ascii_lower) var of
       None \<Rightarrow> Info
     | Some level \<Rightarrow>
         if level = lit ''debug'' then Debug
         else if level = lit ''warn'' then Warn
         else if level = lit ''error'' then Error
         else Info)"

datatype log_role = Accept | Worker | MetricsRole | LogRole | Health

fun role_str :: "log_role \<Rightarrow> str" where
  "role_str Accept = lit ''accept''"
| "role_str Worker = lit ''worker''"
| "role_str MetricsRole = lit ''metrics''"
| "role_str LogRole = lit ''log''"
| "role_str Health = lit ''health''"

section \<open>Records\<close>

record request_context =
  rc_req_id :: u64
  rc_worker_id :: nat

record log_record =
  lr_level :: log_level
  lr_event :: str
  lr_role :: log_role
  lr_req_id :: "u64 option"
  lr_worker_id :: "nat option"
  lr_fields :: "(str \<times> str) list"

definition new_record :: "log_level \<Rightarrow> str \<Rightarrow> log_role \<Rightarrow> log_record" where
  "new_record level event role =
    \<lparr>lr_level = level, lr_event = event, lr_role = role, lr_req_id = None, lr_worker_id = None,
     lr_fields = []\<rparr>"

definition with_request :: "request_context \<Rightarrow> log_record \<Rightarrow> log_record" where
  "with_request ctx r = r\<lparr>lr_req_id := Some (rc_req_id ctx), lr_worker_id := Some (rc_worker_id ctx)\<rparr>"

definition field :: "str \<Rightarrow> str \<Rightarrow> log_record \<Rightarrow> log_record" where
  "field key value r = r\<lparr>lr_fields := lr_fields r @ [(key, value)]\<rparr>"

definition meets_min_level :: "log_level \<Rightarrow> log_record \<Rightarrow> bool" where
  "meets_min_level min_level r \<longleftrightarrow> min_level \<le> lr_level r"

section \<open>The line format\<close>

fun escape_quotes :: "str \<Rightarrow> str" where
  "escape_quotes [] = []"
| "escape_quotes (c # s) = (if c = 34 then 92 # 34 # escape_quotes s else c # escape_quotes s)"

definition needs_quotes :: "str \<Rightarrow> bool" where
  "needs_quotes value \<longleftrightarrow> list_ex (\<lambda>ch. is_ws ch \<or> ch = 34 \<or> ch = 61) value"

definition write_field :: "str \<Rightarrow> str \<Rightarrow> str" where
  "write_field key value =
    (if needs_quotes value then key @ [61, 34] @ escape_quotes value @ [34]
     else key @ [61] @ value)"

text \<open>\<open>now\<close> is the clock in milliseconds, \<open>None\<close> before the epoch.\<close>

definition utc_timestamp_ms :: "nat option \<Rightarrow> nat mzani_result" where
  "utc_timestamp_ms now = ok_or InvalidTimestamp now"

text \<open>\<open>utils::now\<close>.\<close>

definition now_seconds :: "nat option \<Rightarrow> nat mzani_result" where
  "now_seconds now = ok_or InvalidTimestamp (map_option (\<lambda>ms. ms div 1000) now)"

definition format_line :: "nat option \<Rightarrow> log_record \<Rightarrow> str" where
  "format_line now r =
    (let ts = (case utc_timestamp_ms now of Inr t \<Rightarrow> t | Inl _ \<Rightarrow> 0)
     in lit ''ts_ms='' @ show_nat ts
        @ lit '' level='' @ level_str (lr_level r)
        @ lit '' event='' @ lr_event r
        @ lit '' role='' @ role_str (lr_role r)
        @ (case lr_req_id r of Some i \<Rightarrow> lit '' req_id='' @ show_nat (unat i) | None \<Rightarrow> [])
        @ (case lr_worker_id r of Some w \<Rightarrow> lit '' worker_id='' @ show_nat w | None \<Rightarrow> [])
        @ concat (map (\<lambda>(key, value). lit '' '' @ write_field key value) (lr_fields r)))"

definition path_for_log :: "str \<Rightarrow> str" where
  "path_for_log path = split_first 63 path"

text \<open>\<open>log_record::parse_status_code\<close>: the status from the first 128 bytes, if any.\<close>

definition log_status_code :: "bytes \<Rightarrow> nat option" where
  "log_status_code response =
    Option.bind (from_utf8 (take (min (length response) 128) response)) (\<lambda>head.
    Option.bind (first_line head) (\<lambda>status_line.
      case split_whitespace status_line of
        _ # code # _ \<Rightarrow> parse_u16 code
      | _ \<Rightarrow> None))"

definition next_request_id :: "u64 \<Rightarrow> u64 \<times> u64" where
  "next_request_id counter = (counter, counter + 1)"

section \<open>Sinks\<close>

text \<open>
  The trait \<open>LogSink\<close>: emitting either accepts the record at the end or drops it, and
  never touches what was accepted before.
\<close>

locale log_sink =
  fixes emit :: "'k \<Rightarrow> log_record \<Rightarrow> 'k"
    and accepted :: "'k \<Rightarrow> log_record list"
  assumes emit_accepted: "accepted (emit k r) = accepted k \<or> accepted (emit k r) = accepted k @ [r]"
begin

lemma emits_prefix:
  "\<exists>rs. accepted (foldl emit k xs) = accepted k @ rs \<and> set rs \<subseteq> set xs"
proof (induction xs arbitrary: k)
  case Nil
  then show ?case by simp
next
  case (Cons x xs)
  obtain rs where rs: "accepted (foldl emit (emit k x) xs) = accepted (emit k x) @ rs" "set rs \<subseteq> set xs"
    using Cons [of "emit k x"] by blast
  from emit_accepted [of k x] show ?case
  proof
    assume "accepted (emit k x) = accepted k"
    with rs show ?thesis by (intro exI [of _ rs]) auto
  next
    assume "accepted (emit k x) = accepted k @ [x]"
    with rs show ?thesis by (intro exI [of _ "x # rs"]) auto
  qed
qed

end

text \<open>\<open>ChannelLogSink\<close>.\<close>

definition channel_emit :: "log_record channel \<Rightarrow> log_record \<Rightarrow> log_record channel" where
  "channel_emit ch r = snd (try_send r ch)"

interpretation channel_sink: log_sink channel_emit queue
  by unfold_locales (simp add: channel_emit_def try_send_def)

text \<open>
  The file logger. \<open>lf_lines\<close> holds the lines appended to the file with the time and the
  record each was formatted from; a fault is the result of the next write.
\<close>

record logger =
  lg_lines :: "(nat option \<times> log_record) list"
  lg_min_level :: log_level
  lg_now :: "nat option"
  lg_fault :: "io_error option"

definition logger_text :: "logger \<Rightarrow> str" where
  "logger_text lg = concat (map (\<lambda>(now, r). format_line now r @ [lf]) (lg_lines lg))"

text \<open>\<open>Logger::new_in_dir\<close>: the results of creating the directory and opening the file
  are arguments.\<close>

definition logger_new_in_dir ::
  "io_error option \<Rightarrow> io_error option \<Rightarrow> str \<Rightarrow> str option \<Rightarrow> nat option \<Rightarrow> logger mzani_result" where
  "logger_new_in_dir mkdir_fault open_fault dir env now =
    (case mkdir_fault of
       Some e \<Rightarrow> Inl (LoggerInit (lit ''failed to create log directory: '' @ err_text e))
     | None \<Rightarrow>
       (case open_fault of
          Some e \<Rightarrow> Inl (LoggerInit (lit ''failed to open log file '' @ dir @ lit ''/mzani.log: '' @ err_text e))
        | None \<Rightarrow> Inr \<lparr>lg_lines = [], lg_min_level = level_from_env env, lg_now = now, lg_fault = None\<rparr>))"

definition logger_write_record :: "log_record \<Rightarrow> logger \<Rightarrow> unit mzani_result \<times> logger" where
  "logger_write_record r lg =
    (if \<not> meets_min_level (lg_min_level lg) r then (Inr (), lg)
     else case lg_fault lg of
            Some e \<Rightarrow> (Inl (mzani_io e), lg)
          | None \<Rightarrow> (Inr (), lg\<lparr>lg_lines := lg_lines lg @ [(lg_now lg, r)]\<rparr>))"

definition logger_emit :: "logger \<Rightarrow> log_record \<Rightarrow> logger" where
  "logger_emit lg r = snd (logger_write_record r lg)"

definition logger_accepted :: "logger \<Rightarrow> log_record list" where
  "logger_accepted lg = map snd (lg_lines lg)"

interpretation file_sink: log_sink logger_emit logger_accepted
  by unfold_locales
     (simp add: logger_emit_def logger_accepted_def logger_write_record_def split: option.splits)

section \<open>Fields: lemmas\<close>

text \<open>The value of a field as it was before quoting.\<close>

fun unescape_quotes :: "str \<Rightarrow> str" where
  "unescape_quotes [] = []"
| "unescape_quotes (c # s) =
    (case s of
       d # r \<Rightarrow> if c = 92 \<and> d = 34 then 34 # unescape_quotes r else c # unescape_quotes s
     | [] \<Rightarrow> [c])"

definition read_value :: "str \<Rightarrow> str" where
  "read_value t = (if t \<noteq> [] \<and> hd t = 34 then unescape_quotes (butlast (tl t)) else t)"

lemma escape_no_leading_quote: "escape_quotes s = c # r \<Longrightarrow> c \<noteq> 34"
  by (cases s) (auto split: if_splits)

lemma unescape_escape: "unescape_quotes (escape_quotes s) = s"
proof (induction s)
  case Nil
  then show ?case by simp
next
  case (Cons c s)
  show ?case
  proof (cases "escape_quotes s")
    case Nil
    then have "s = []" by (cases s) (auto split: if_splits)
    then show ?thesis by simp
  next
    case (Cons d r)
    with escape_no_leading_quote [OF this] Cons.IH show ?thesis by (auto split: list.splits)
  qed
qed

lemma read_value_write_field: "read_value (drop (length key + 1) (write_field key v)) = v"
proof (cases "needs_quotes v")
  case True
  then show ?thesis by (simp add: write_field_def read_value_def unescape_escape butlast_append)
next
  case False
  then have "v \<noteq> [] \<Longrightarrow> hd v \<noteq> 34" by (cases v) (auto simp: needs_quotes_def)
  with False show ?thesis by (auto simp: write_field_def read_value_def)
qed

text \<open>Quoting does not remove line feeds.\<close>

lemma write_field_lf: "lf \<in> set v \<Longrightarrow> lf \<in> set (write_field key v)"
proof -
  have "lf \<in> set (escape_quotes v)" if "lf \<in> set v"
    using that by (induction v) auto
  then show "lf \<in> set v \<Longrightarrow> lf \<in> set (write_field key v)" by (simp add: write_field_def)
qed

lemma escape_quotes_chars: "set (escape_quotes s) \<subseteq> set s \<union> {92}"
  by (induction s) auto

lemma write_field_no_lf: "lf \<notin> set key \<Longrightarrow> lf \<notin> set v \<Longrightarrow> lf \<notin> set (write_field key v)"
  using escape_quotes_chars [of v] by (auto simp: write_field_def)

lemma show_nat_no_lf: "lf \<notin> set (show_nat n)"
  using show_nat_chars [of lf n] by auto

lemma level_role_no_lf: "lf \<notin> set (level_str l)" "lf \<notin> set (role_str ro)"
  by (cases l; simp) (cases ro; simp)

lemma format_line_no_lf:
  assumes "lf \<notin> set (lr_event r)" "\<forall>(k, v)\<in>set (lr_fields r). lf \<notin> set k \<and> lf \<notin> set v"
  shows "lf \<notin> set (format_line now r)"
proof -
  have "lf \<notin> set (lit '' '' @ write_field k v)" if "(k, v) \<in> set (lr_fields r)" for k v
    using write_field_no_lf [of k v] assms(2) that by auto
  then have "lf \<notin> set (concat (map (\<lambda>(key, value). lit '' '' @ write_field key value) (lr_fields r)))"
    by auto
  then show ?thesis
    using assms(1) show_nat_no_lf level_role_no_lf
    by (simp add: format_line_def Let_def split: option.splits)
qed

end
