(* ===== verification/Metrics.thy ===== *)
theory Metrics
  imports Rust_Float Log_Records
begin

text \<open>
  \<open>src/src/state/metrics.rs\<close>: the counters of the balancer, their update per request, the
  snapshot, the human-readable report, and what the counters mean in terms of the requests
  recorded. The counters are 64-bit and wrap. The order in which a \<open>HashMap\<close> gives its entries
  is not specified: \<open>order m\<close> is the order in which the report of \<open>m\<close> finds the backends.
\<close>

datatype request_outcome = OutcomeOk | OutcomeError

fun outcome_str :: "request_outcome \<Rightarrow> str" where
  "outcome_str OutcomeOk = lit ''ok''"
| "outcome_str OutcomeError = lit ''error''"

record request_stats =
  st_req_id :: u64
  st_worker_id :: nat
  st_backend :: socket_addr
  st_request_len :: nat
  st_response_len :: nat
  st_duration :: duration
  st_outcome :: request_outcome
  st_status_code :: "nat option"

definition to_metrics_record :: "request_stats \<Rightarrow> request_context \<Rightarrow> log_record" where
  "to_metrics_record st req =
    (let r = field (lit ''outcome'') (outcome_str (st_outcome st))
               (field (lit ''duration_ms'') (show_nat (as_millis (st_duration st)))
                 (field (lit ''resp_bytes'') (show_nat (st_response_len st))
                   (field (lit ''req_bytes'') (show_nat (st_request_len st))
                     (field (lit ''backend'') (format_addr (st_backend st))
                       (with_request req (new_record Info (lit ''metrics_record'') MetricsRole))))))
     in case st_status_code st of
          Some status \<Rightarrow> field (lit ''status'') (show_nat status) r
        | None \<Rightarrow> r)"

record backend_metrics =
  bm_requests :: u64
  bm_errors :: u64

definition default_backend_metrics :: backend_metrics where
  "default_backend_metrics = \<lparr>bm_requests = 0, bm_errors = 0\<rparr>"

record metrics_snapshot =
  sn_total_requests :: u64
  sn_total_bytes_proxied :: u64
  sn_pool_rejected :: u64
  sn_dropped_logs :: u64
  sn_avg_latency :: duration
  sn_last_request_duration :: duration
  sn_per_backend :: "socket_addr \<rightharpoonup> backend_metrics"

record metrics =
  mt_total_requests :: u64
  mt_total_bytes_proxied :: u64
  mt_largest_request_bytes :: nat
  mt_last_request_duration :: duration
  mt_total_duration :: duration
  mt_server_start_time :: instant
  mt_per_backend :: "socket_addr \<rightharpoonup> backend_metrics"
  mt_pool_rejected :: u64

definition default_metrics :: "instant \<Rightarrow> metrics" where
  "default_metrics now =
    \<lparr>mt_total_requests = 0, mt_total_bytes_proxied = 0, mt_largest_request_bytes = 0,
     mt_last_request_duration = 0, mt_total_duration = 0, mt_server_start_time = now,
     mt_per_backend = Map.empty, mt_pool_rejected = 0\<rparr>"

definition record_request :: "request_stats \<Rightarrow> metrics \<Rightarrow> metrics" where
  "record_request st m =
    (let entry = (case mt_per_backend m (st_backend st) of
                    Some e \<Rightarrow> e | None \<Rightarrow> default_backend_metrics);
         entry1 = entry\<lparr>bm_requests := bm_requests entry + 1\<rparr>;
         entry2 = (if st_outcome st = OutcomeError
                   then entry1\<lparr>bm_errors := bm_errors entry1 + 1\<rparr> else entry1)
     in m\<lparr>mt_total_requests := mt_total_requests m + 1,
          mt_total_bytes_proxied :=
            mt_total_bytes_proxied m + of_nat (st_request_len st + st_response_len st),
          mt_total_duration := mt_total_duration m + st_duration st,
          mt_last_request_duration := st_duration st,
          mt_largest_request_bytes :=
            (if mt_largest_request_bytes m < st_request_len st then st_request_len st
             else mt_largest_request_bytes m),
          mt_per_backend := (mt_per_backend m)(st_backend st \<mapsto> entry2)\<rparr>)"

definition metrics_record_pool_rejected :: "metrics \<Rightarrow> metrics" where
  "metrics_record_pool_rejected m = m\<lparr>mt_pool_rejected := mt_pool_rejected m + 1\<rparr>"

text \<open>\<open>u32::try_from(n).unwrap_or(1)\<close>, and the average of \<open>snapshot\<close> and \<open>format_report\<close>.\<close>

definition latency_divisor :: "u64 \<Rightarrow> nat" where
  "latency_divisor n = (if unat n < 2 ^ 32 then unat n else 1)"

definition avg_latency :: "metrics \<Rightarrow> duration" where
  "avg_latency m =
    (if 0 < mt_total_requests m then mt_total_duration m div latency_divisor (mt_total_requests m)
     else 0)"

definition snapshot :: "u64 \<Rightarrow> metrics \<Rightarrow> metrics_snapshot" where
  "snapshot dropped_logs m =
    \<lparr>sn_total_requests = mt_total_requests m,
     sn_total_bytes_proxied = mt_total_bytes_proxied m,
     sn_pool_rejected = mt_pool_rejected m,
     sn_dropped_logs = dropped_logs,
     sn_avg_latency = avg_latency m,
     sn_last_request_duration = mt_last_request_duration m,
     sn_per_backend = mt_per_backend m\<rparr>"

section \<open>The report\<close>

definition f64_kb :: f64 where
  "f64_kb = (2 ^ 10, 0)"

definition f64_mb :: f64 where
  "f64_mb = (2 ^ 20, 0)"

definition f64_gb :: f64 where
  "f64_gb = (2 ^ 30, 0)"

definition format_bytes :: "nat \<Rightarrow> str" where
  "format_bytes n =
    (let x = f64_of_nat n
     in if f64_le f64_gb x then show_fixed2 (f64_div x f64_gb) @ lit '' GB''
        else if f64_le f64_mb x then show_fixed2 (f64_div x f64_mb) @ lit '' MB''
        else if f64_le f64_kb x then show_fixed2 (f64_div x f64_kb) @ lit '' KB''
        else show_nat n @ lit '' bytes'')"

definition report_line :: "string \<Rightarrow> str \<Rightarrow> str" where
  "report_line label s = lit label @ s @ [10]"

definition backend_line :: "metrics \<Rightarrow> socket_addr \<Rightarrow> str" where
  "backend_line m a =
    (case mt_per_backend m a of
       Some bm \<Rightarrow> lit ''   '' @ format_addr a @ lit '' requests='' @ show_nat (unat (bm_requests bm))
         @ report_line '' errors='' (show_nat (unat (bm_errors bm)))
     | None \<Rightarrow> [])"

text \<open>The requests per second: the uptime is 0 only where its two parts are.\<close>

definition requests_per_second :: "u64 \<Rightarrow> f64 \<Rightarrow> f64" where
  "requests_per_second n uptime =
    (if 0 < fst uptime then f64_div (f64_of_nat (unat n)) uptime else (0, 0))"

definition format_report :: "(metrics \<Rightarrow> socket_addr list) \<Rightarrow> instant \<Rightarrow> metrics \<Rightarrow> str" where
  "format_report order now m =
    (let uptime = as_secs_f64 (now - mt_server_start_time m);
         rps = requests_per_second (mt_total_requests m) uptime;
         report = report_line ''--- [ LOAD BALANCER METRICS ] ---'' []
           @ report_line ''Uptime            : '' (show_fixed2 uptime @ lit ''s'')
           @ report_line ''Total Requests    : '' (show_nat (unat (mt_total_requests m)))
           @ report_line ''Pool Rejected     : '' (show_nat (unat (mt_pool_rejected m)))
           @ report_line ''Throughput        : '' (format_bytes (unat (mt_total_bytes_proxied m)))
           @ report_line ''Avg Latency       : '' (debug_duration (avg_latency m))
           @ report_line ''Last Req Duration : '' (debug_duration (mt_last_request_duration m))
           @ report_line ''Largest Payload   : '' (format_bytes (mt_largest_request_bytes m))
           @ report_line ''Requests / Sec    : '' (show_fixed2 rps);
         per_backend = (if order m \<noteq> []
           then report_line '' Per-Backend:'' [] @ concat (map (backend_line m) (order m)) else [])
     in report @ per_backend @ lit '' ---------------------------------'')"

text \<open>The unit is the largest one not above the number.\<close>

definition byte_unit :: "nat \<Rightarrow> (nat \<times> str) option" where
  "byte_unit n =
    (if 2 ^ 30 \<le> n then Some (30, lit '' GB'') else if 2 ^ 20 \<le> n then Some (20, lit '' MB'')
     else if 2 ^ 10 \<le> n then Some (10, lit '' KB'') else None)"

lemma format_bytes_unit:
  assumes "n < 2 ^ 53"
  shows "format_bytes n =
    (case byte_unit n of
       Some (i, u) \<Rightarrow> show_hundredths (hundredths n i) @ u
     | None \<Rightarrow> show_nat n @ lit '' bytes'')"
  using show_fixed2_nat [OF assms]
  by (simp add: format_bytes_def Let_def f64_gb_def f64_mb_def f64_kb_def f64_le_nat [OF assms] byte_unit_def
      del: power_numeral)

lemma bytes_rounded_up: "format_bytes (2 ^ 20 - 1) = lit ''1024.00 KB''"
  by (subst format_bytes_unit)
     (simp_all add: byte_unit_def hundredths_def round_half_even_def show_hundredths_def show_nat_def
      show_radix.simps digit_char_def)

definition snapshot_record :: "(metrics \<Rightarrow> socket_addr list) \<Rightarrow> instant \<Rightarrow> metrics \<Rightarrow> log_record" where
  "snapshot_record order now m =
    field (lit ''report'') (format_report order now m)
      (field (lit ''total_requests'') (show_nat (unat (mt_total_requests m)))
        (new_record Info (lit ''metrics_snapshot'') MetricsRole))"

text \<open>\<open>Display for Metrics\<close>.\<close>

definition display_metrics :: "(metrics \<Rightarrow> socket_addr list) \<Rightarrow> instant \<Rightarrow> metrics \<Rightarrow> str" where
  "display_metrics order now m = format_report order now m"

section \<open>What the counters count\<close>

text \<open>The metrics after the given requests, in order.\<close>

definition recorded :: "request_stats list \<Rightarrow> metrics \<Rightarrow> metrics" where
  "recorded sts m = fold record_request sts m"

definition for_backend :: "socket_addr \<Rightarrow> request_stats list \<Rightarrow> request_stats list" where
  "for_backend a sts = filter (\<lambda>st. st_backend st = a) sts"

definition failed :: "request_stats list \<Rightarrow> request_stats list" where
  "failed sts = filter (\<lambda>st. st_outcome st = OutcomeError) sts"

text \<open>The abstract state: the list of requests. The counters are functions of it.\<close>

definition counts :: "request_stats list \<Rightarrow> metrics \<Rightarrow> bool" where
  "counts sts m \<longleftrightarrow>
     mt_total_requests m = of_nat (length sts)
     \<and> mt_total_bytes_proxied m = of_nat (\<Sum>st\<leftarrow>sts. st_request_len st + st_response_len st)
     \<and> mt_total_duration m = (\<Sum>st\<leftarrow>sts. st_duration st)
     \<and> mt_last_request_duration m = (if sts = [] then 0 else st_duration (last sts))
     \<and> mt_largest_request_bytes m = foldr max (map st_request_len sts) 0
     \<and> (\<forall>a. mt_per_backend m a =
          (if for_backend a sts = [] then None
           else Some \<lparr>bm_requests = of_nat (length (for_backend a sts)),
                      bm_errors = of_nat (length (failed (for_backend a sts)))\<rparr>))"

lemma counts_default: "counts [] (default_metrics now)"
  by (simp add: counts_def default_metrics_def for_backend_def)

lemma foldr_max_snoc: "foldr max (xs @ [x]) (0::nat) = max (foldr max xs 0) x"
  by (induction xs) (simp_all add: max.assoc)

lemma for_backend_snoc [simp]:
  "for_backend a [] = []"
  "for_backend a (sts @ [st]) = for_backend a sts @ (if st_backend st = a then [st] else [])"
  by (simp_all add: for_backend_def)

lemma failed_snoc [simp]:
  "failed [] = []"
  "failed (sts @ [st]) = failed sts @ (if st_outcome st = OutcomeError then [st] else [])"
  by (simp_all add: failed_def)

lemma failed_single [simp]: "failed [st] = (if st_outcome st = OutcomeError then [st] else [])"
  by (simp add: failed_def)

lemma counts_record_request:
  assumes c: "counts sts m"
  shows "counts (sts @ [st]) (record_request st m)"
  unfolding counts_def
proof (intro conjI allI)
  fix a
  show "mt_per_backend (record_request st m) a =
      (if for_backend a (sts @ [st]) = [] then None
       else Some \<lparr>bm_requests = of_nat (length (for_backend a (sts @ [st]))),
                  bm_errors = of_nat (length (failed (for_backend a (sts @ [st]))))\<rparr>)"
    using c by (simp add: counts_def record_request_def default_backend_metrics_def Let_def)
next
  show "mt_largest_request_bytes (record_request st m) = foldr max (map st_request_len (sts @ [st])) 0"
    using c unfolding map_append list.map foldr_max_snoc
    by (simp add: counts_def record_request_def Let_def max_def)
qed (use c in \<open>simp_all add: counts_def record_request_def Let_def\<close>)

lemma counts_recorded: "counts xs m \<Longrightarrow> counts (xs @ sts) (recorded sts m)"
proof (induction sts arbitrary: xs m)
  case Nil
  then show ?case by (simp add: recorded_def)
next
  case (Cons st sts)
  from Cons.IH [OF counts_record_request [OF Cons.prems]] show ?case by (simp add: recorded_def)
qed

lemma counts_pool_rejected [simp]: "counts sts (metrics_record_pool_rejected m) = counts sts m"
  by (simp add: counts_def metrics_record_pool_rejected_def)

lemma record_request_rejected [simp]: "mt_pool_rejected (record_request st m) = mt_pool_rejected m"
  by (simp add: record_request_def Let_def)

text \<open>The backends split the total.\<close>

lemma sum_for_backend:
  "finite A \<Longrightarrow> st_backend ` set sts \<subseteq> A \<Longrightarrow> (\<Sum>a\<in>A. length (for_backend a sts)) = length sts"
proof (induction sts)
  case Nil
  then show ?case by (simp add: for_backend_def)
next
  case (Cons st sts)
  have "(\<Sum>a\<in>A. length (for_backend a (st # sts)))
      = (\<Sum>a\<in>A. (if a = st_backend st then 1 else 0) + length (for_backend a sts))"
    by (rule sum.cong) (auto simp: for_backend_def)
  also have "\<dots> = 1 + length sts"
    using Cons by (simp add: sum.distrib)
  finally show ?case by simp
qed

lemma counts_dom: "counts sts m \<Longrightarrow> dom (mt_per_backend m) = st_backend ` set sts"
  by (auto simp: counts_def dom_def for_backend_def filter_empty_conv split: if_splits)

lemma failed_le: "length (failed sts) \<le> length sts"
  by (simp add: failed_def)

text \<open>The average: exact below \<open>2 ^ 32\<close> requests, the total beyond.\<close>

lemma avg_latency_exact:
  assumes "counts sts m" "sts \<noteq> []" "length sts < 2 ^ 32"
  shows "avg_latency m = (\<Sum>st\<leftarrow>sts. st_duration st) div length sts"
proof -
  have u: "unat (mt_total_requests m) = length sts"
    using assms(1,3) by (simp add: counts_def unsigned_of_nat take_bit_nat_eq_self)
  then have "0 < mt_total_requests m" using assms(2) by (metis length_0_conv unat_0 word_gt_0)
  with u assms(1,3) show ?thesis by (simp add: avg_latency_def latency_divisor_def counts_def)
qed

lemma avg_latency_beyond:
  assumes "2 ^ 32 \<le> unat (mt_total_requests m)"
  shows "avg_latency m = mt_total_duration m"
proof -
  have "0 < mt_total_requests m" using assms by (auto simp: word_gt_0)
  then show ?thesis using assms by (simp add: avg_latency_def latency_divisor_def)
qed

end
