(* ===== verification/Backends.thy ===== *)
theory Backends
  imports Errors Net_Addr "HOL-Library.Multiset"
begin

text \<open>
  \<open>src/src/state/backend.rs\<close> and \<open>src/src/routing.rs\<close>: the backend registry with its
  round-robin cursor and its health state, and the routing interface on top of it. Each
  operation is one atomic step on the registry. The cursor is a 64-bit counter that wraps,
  and so does its sum with the offset, as in the release profile; \<open>consecutive_failures\<close>
  and \<open>consecutive_successes\<close> saturate. The mutexes are never held across a panic, so the
  branches for poisoned locks do not arise.
\<close>

section \<open>The registry\<close>

record backend_entry =
  be_addr :: socket_addr
  be_healthy :: bool
  consecutive_failures :: u32
  consecutive_successes :: u32

record backend_set =
  entries :: "backend_entry list"
  next_index :: u64

definition new_entry :: "socket_addr \<Rightarrow> backend_entry" where
  "new_entry a = \<lparr>be_addr = a, be_healthy = True, consecutive_failures = 0, consecutive_successes = 0\<rparr>"

definition new_backend_set :: "socket_addr list \<Rightarrow> backend_set" where
  "new_backend_set addrs = \<lparr>entries = map new_entry addrs, next_index = 0\<rparr>"

definition addresses :: "backend_set \<Rightarrow> socket_addr list" where
  "addresses bs = map be_addr (entries bs)"

definition healthy_count :: "backend_set \<Rightarrow> nat" where
  "healthy_count bs = length (filter be_healthy (entries bs))"

text \<open>The loop over \<open>offset in 0..len\<close>; the last argument is the number of rounds left.\<close>

fun scan_from :: "backend_entry list \<Rightarrow> u64 \<Rightarrow> nat \<Rightarrow> nat \<Rightarrow> socket_addr option" where
  "scan_from es start off 0 = None"
| "scan_from es start off (Suc k) =
    (let index = unat (start + of_nat off) mod length es;
         entry = es ! index
     in if be_healthy entry then Some (be_addr entry) else scan_from es start (Suc off) k)"

definition select_next :: "backend_set \<Rightarrow> socket_addr mzani_result \<times> backend_set" where
  "select_next bs =
    (let len = length (entries bs)
     in if len = 0 then (Inl EmptyServerList, bs)
        else let start = next_index bs;
                 bs' = bs\<lparr>next_index := start + 1\<rparr>
             in case scan_from (entries bs) start 0 len of
                  Some a \<Rightarrow> (Inr a, bs')
                | None \<Rightarrow> (Inl NoHealthyBackend, bs'))"

definition entry_for :: "socket_addr \<Rightarrow> backend_set \<Rightarrow> backend_entry option" where
  "entry_for a bs = find (\<lambda>e. be_addr e = a) (entries bs)"

text \<open>An operation on the entry that \<open>entry_for\<close> finds.\<close>

fun update_first :: "socket_addr \<Rightarrow> (backend_entry \<Rightarrow> backend_entry) \<Rightarrow> backend_entry list \<Rightarrow> backend_entry list" where
  "update_first a f [] = []"
| "update_first a f (e # es) = (if be_addr e = a then f e # es else e # update_first a f es)"

definition entry_success :: "u32 \<Rightarrow> backend_entry \<Rightarrow> backend_entry" where
  "entry_success recovery e =
    (let successes = u32_saturating_add1 (consecutive_successes e);
         e' = e\<lparr>consecutive_failures := 0, consecutive_successes := successes\<rparr>
     in if successes \<ge> recovery then e'\<lparr>be_healthy := True\<rparr> else e')"

definition entry_failure :: "u32 \<Rightarrow> backend_entry \<Rightarrow> backend_entry" where
  "entry_failure failure e =
    (let failures = u32_saturating_add1 (consecutive_failures e);
         e' = e\<lparr>consecutive_successes := 0, consecutive_failures := failures\<rparr>
     in if failures \<ge> failure then e'\<lparr>be_healthy := False\<rparr> else e')"

definition record_probe_success :: "socket_addr \<Rightarrow> u32 \<Rightarrow> backend_set \<Rightarrow> backend_set" where
  "record_probe_success a recovery bs = bs\<lparr>entries := update_first a (entry_success recovery) (entries bs)\<rparr>"

definition record_probe_failure :: "socket_addr \<Rightarrow> u32 \<Rightarrow> backend_set \<Rightarrow> backend_set" where
  "record_probe_failure a failure bs = bs\<lparr>entries := update_first a (entry_failure failure) (entries bs)\<rparr>"

definition is_healthy :: "socket_addr \<Rightarrow> backend_set \<Rightarrow> bool" where
  "is_healthy a bs = (case entry_for a bs of Some e \<Rightarrow> be_healthy e | None \<Rightarrow> False)"

section \<open>Selection: lemmas\<close>

text \<open>While the cursor is not within a round of its wrap-around, the scan is a search in the
  rotated registry.\<close>

definition no_wrap :: "backend_set \<Rightarrow> nat \<Rightarrow> bool" where
  "no_wrap bs n \<longleftrightarrow> unat (next_index bs) + n \<le> 2 ^ 64"

lemma unat_add_of_nat64: "unat (a :: u64) + n < 2 ^ 64 \<Longrightarrow> unat (a + of_nat n) = unat a + n"
  by (subst unat_add_lem [THEN iffD1]) (simp_all add: unsigned_of_nat take_bit_nat_eq_self)

lemma scan_from_eq:
  assumes "unat start + off + k \<le> 2 ^ 64" "es \<noteq> []"
  shows "scan_from es start off k =
     map_option be_addr (find be_healthy (map (\<lambda>i. es ! ((unat start + off + i) mod length es)) [0..<k]))"
  using assms(1)
proof (induction k arbitrary: off)
  case 0
  then show ?case by simp
next
  case (Suc k)
  have u: "unat (start + of_nat off) = unat start + off"
    by (rule unat_add_of_nat64) (use Suc.prems in simp)
  have m: "map (\<lambda>i. es ! ((unat start + off + i) mod length es)) [0..<Suc k]
      = es ! ((unat start + off) mod length es)
        # map (\<lambda>i. es ! ((unat start + Suc off + i) mod length es)) [0..<k]"
    by (simp add: upt_conv_Cons map_Suc_upt [symmetric] comp_def del: upt_Suc)
  have "scan_from es start (Suc off) k = map_option be_addr
      (find be_healthy (map (\<lambda>i. es ! ((unat start + Suc off + i) mod length es)) [0..<k]))"
    by (rule Suc.IH) (use Suc.prems in simp)
  then show ?case by (simp only: m scan_from.simps Let_def u find.simps if_distrib [of "map_option be_addr"]
        option.map)
qed

lemma rotate_as_map: "rotate n es = map (\<lambda>i. es ! ((n + i) mod length es)) [0..<length es]"
  by (rule nth_equalityI) (simp_all add: nth_rotate)

lemma scan_from_rotate:
  assumes "no_wrap bs (length (entries bs))" "entries bs \<noteq> []"
  shows "scan_from (entries bs) (next_index bs) 0 (length (entries bs))
     = map_option be_addr (find be_healthy (rotate (unat (next_index bs)) (entries bs)))"
  using scan_from_eq [of "next_index bs" 0 "length (entries bs)" "entries bs"] assms
  by (simp add: no_wrap_def rotate_as_map)

lemma scan_from_sound:
  "scan_from es start off k = Some a \<Longrightarrow> es \<noteq> [] \<Longrightarrow> \<exists>e\<in>set es. be_healthy e \<and> be_addr e = a"
proof (induction k arbitrary: off)
  case 0
  then show ?case by simp
next
  case (Suc k)
  define e where "e = es ! (unat (start + of_nat off) mod length es)"
  have "e \<in> set es" using Suc.prems(2) by (simp add: e_def)
  with Suc show ?case by (auto simp: Let_def simp flip: e_def split: if_splits)
qed

lemma select_next_ok:
  "select_next bs = (Inr a, bs') \<Longrightarrow>
     \<exists>e\<in>set (entries bs). be_healthy e \<and> be_addr e = a"
  by (auto simp: select_next_def Let_def split: if_splits option.splits dest: scan_from_sound)

lemma select_next_err:
  "select_next bs = (Inl e, bs') \<Longrightarrow>
     e = EmptyServerList \<and> entries bs = [] \<or> e = NoHealthyBackend \<and> entries bs \<noteq> []"
  by (auto simp: select_next_def Let_def split: if_splits option.splits)

lemma select_next_frame [simp]: "entries (snd (select_next bs)) = entries bs"
  by (simp add: select_next_def Let_def split: option.splits)

lemma select_next_addresses [simp]: "addresses (snd (select_next bs)) = addresses bs"
  by (simp add: addresses_def)

lemma select_next_cursor:
  "entries bs \<noteq> [] \<Longrightarrow> next_index (snd (select_next bs)) = next_index bs + 1"
  by (simp add: select_next_def Let_def split: option.splits)

lemma select_next_rotate:
  assumes "no_wrap bs (length (entries bs))" "entries bs \<noteq> []"
  shows "fst (select_next bs) =
     (case find be_healthy (rotate (unat (next_index bs)) (entries bs)) of
        Some e \<Rightarrow> Inr (be_addr e) | None \<Rightarrow> Inl NoHealthyBackend)"
  using assms by (simp add: select_next_def scan_from_rotate Let_def split: option.splits)

lemma select_next_complete:
  assumes "no_wrap bs (length (entries bs))" "e \<in> set (entries bs)" "be_healthy e"
  shows "\<exists>a. fst (select_next bs) = Inr a"
proof -
  have "find be_healthy (rotate (unat (next_index bs)) (entries bs)) \<noteq> None"
    using assms(2,3) by (auto simp: find_None_iff)
  then show ?thesis using assms by (subst select_next_rotate) auto
qed

text \<open>When the entry under the cursor is healthy it is the one selected.\<close>

lemma select_next_at_cursor:
  assumes "no_wrap bs (length (entries bs))" "entries bs \<noteq> []"
    and "be_healthy (entries bs ! (unat (next_index bs) mod length (entries bs)))"
  shows "fst (select_next bs) = Inr (be_addr (entries bs ! (unat (next_index bs) mod length (entries bs))))"
proof -
  obtain n where "length (entries bs) = Suc n" using assms(2) by (cases "entries bs") auto
  then have "rotate (unat (next_index bs)) (entries bs)
     = entries bs ! (unat (next_index bs) mod length (entries bs))
       # map (\<lambda>i. entries bs ! ((unat (next_index bs) + i) mod length (entries bs))) [1..<length (entries bs)]"
    by (simp add: rotate_as_map upt_conv_Cons del: upt_Suc)
  then show ?thesis using assms by (simp add: select_next_rotate)
qed

section \<open>Successive selections\<close>

fun select_many :: "nat \<Rightarrow> backend_set \<Rightarrow> socket_addr mzani_result list \<times> backend_set" where
  "select_many 0 bs = ([], bs)"
| "select_many (Suc n) bs =
    (case select_next bs of (r, bs') \<Rightarrow>
       (case select_many n bs' of (rs, bs'') \<Rightarrow> (r # rs, bs'')))"

lemma select_many_all_healthy:
  assumes "no_wrap bs (n + length (entries bs))" "entries bs \<noteq> []" "\<forall>e\<in>set (entries bs). be_healthy e"
  shows "fst (select_many n bs)
     = map (\<lambda>i. Inr (be_addr (entries bs ! ((unat (next_index bs) + i) mod length (entries bs))))) [0..<n]"
  using assms
proof (induction n arbitrary: bs)
  case 0
  then show ?case by simp
next
  case (Suc n)
  obtain r bs' where s: "select_next bs = (r, bs')" by force
  have e: "entries bs' = entries bs" using s select_next_frame [of bs] by simp
  have "unat (next_index bs) + 1 < 2 ^ 64"
    using Suc.prems(1,2) by (cases "entries bs") (auto simp: no_wrap_def)
  then have i: "unat (next_index bs') = unat (next_index bs) + 1"
    using select_next_cursor [OF Suc.prems(2)] s unat_add_of_nat64 [of "next_index bs" 1] by simp
  have "no_wrap bs (length (entries bs))" using Suc.prems(1) by (simp add: no_wrap_def)
  then have r: "r = Inr (be_addr (entries bs ! (unat (next_index bs) mod length (entries bs))))"
    using select_next_at_cursor [of bs] Suc.prems s by simp
  have "fst (select_many n bs') = map (\<lambda>i. Inr (be_addr (entries bs' !
      ((unat (next_index bs') + i) mod length (entries bs'))))) [0..<n]"
    by (rule Suc.IH) (use Suc.prems i e in \<open>auto simp: no_wrap_def\<close>)
  then show ?case
    by (simp add: s r e i upt_conv_Cons map_Suc_upt [symmetric] comp_def split_beta del: upt_Suc)
qed

lemma mset_rotate_list: "mset (rotate n xs) = mset xs"
  by (simp add: rotate_drop_take) (metis append_take_drop_id mset_append union_commute)

lemma mset_round:
  "xs \<noteq> [] \<Longrightarrow> mset (map (\<lambda>i. xs ! ((s + i) mod length xs)) [0..<k * length xs]) = repeat_mset k (mset xs)"
proof (induction k)
  case 0
  then show ?case by simp
next
  case (Suc k)
  have "[0..<Suc k * length xs] = [0..<k * length xs] @ map (\<lambda>i. i + k * length xs) [0..<length xs]"
    using upt_add_eq_append [of 0 "k * length xs" "length xs"] by (simp add: map_add_upt add.commute)
  moreover have "map (\<lambda>i. xs ! ((s + (i + k * length xs)) mod length xs)) [0..<length xs] = rotate s xs"
    by (simp add: rotate_as_map add.assoc [symmetric])
  ultimately show ?case using Suc
    by (simp add: comp_def mset_rotate_list)
qed

section \<open>Probes: lemmas\<close>

lemma update_first_addrs:
  "(\<And>e. be_addr (f e) = be_addr e) \<Longrightarrow> map be_addr (update_first a f es) = map be_addr es"
  by (induction es) auto

lemma entry_probe_addr [simp]:
  "be_addr (entry_success n e) = be_addr e" "be_addr (entry_failure n e) = be_addr e"
  by (simp_all add: entry_success_def entry_failure_def Let_def)

lemma probe_addresses [simp]:
  "addresses (record_probe_success a n bs) = addresses bs"
  "addresses (record_probe_failure a n bs) = addresses bs"
  by (simp_all add: addresses_def record_probe_success_def record_probe_failure_def update_first_addrs)

lemma find_update_first:
  assumes "\<And>e. be_addr (f e) = be_addr e"
  shows "find (\<lambda>e. be_addr e = b) (update_first a f es)
     = (if b = a then map_option f (find (\<lambda>e. be_addr e = b) es) else find (\<lambda>e. be_addr e = b) es)"
  by (induction es) (use assms in auto)

lemma entry_for_probe:
  "entry_for b (record_probe_success a n bs)
     = (if b = a then map_option (entry_success n) (entry_for b bs) else entry_for b bs)"
  "entry_for b (record_probe_failure a n bs)
     = (if b = a then map_option (entry_failure n) (entry_for b bs) else entry_for b bs)"
  by (simp_all add: entry_for_def record_probe_success_def record_probe_failure_def find_update_first)

lemma is_healthy_iff_entry:
  "distinct (addresses bs) \<Longrightarrow> is_healthy a bs \<longleftrightarrow> (\<exists>e\<in>set (entries bs). be_addr e = a \<and> be_healthy e)"
proof -
  assume d: "distinct (addresses bs)"
  have f: "e \<in> set es \<Longrightarrow> distinct (map be_addr es) \<Longrightarrow> find (\<lambda>x. be_addr x = be_addr e) es = Some e" for e es
    by (induction es) (auto simp: image_iff)
  have "find (\<lambda>x. be_addr x = be_addr e) (entries bs) = Some e" if "e \<in> set (entries bs)" for e
    using f that d by (simp add: addresses_def)
  then have e: "entry_for (be_addr e) bs = Some e" if "e \<in> set (entries bs)" for e
    using that by (simp add: entry_for_def)
  show ?thesis
  proof
    assume "is_healthy a bs"
    then obtain e where "entry_for a bs = Some e" "be_healthy e"
      by (auto simp: is_healthy_def split: option.splits)
    then show "\<exists>e\<in>set (entries bs). be_addr e = a \<and> be_healthy e"
      by (auto simp: entry_for_def find_Some_iff)
  qed (use e in \<open>auto simp: is_healthy_def\<close>)
qed

section \<open>Health as a function of the probe history\<close>

text \<open>
  The specification the counters implement: an entry starts healthy; it becomes unhealthy
  when the last \<open>failure\<close> probes failed, healthy again when the last \<open>recovery\<close> probes
  succeeded, and otherwise keeps its state. Histories have the latest probe first.
\<close>

definition run_length :: "bool \<Rightarrow> bool list \<Rightarrow> nat" where
  "run_length b h = length (takeWhile (\<lambda>x. x = b) h)"

fun health_spec :: "nat \<Rightarrow> nat \<Rightarrow> bool list \<Rightarrow> bool" where
  "health_spec failure recovery [] = True"
| "health_spec failure recovery (True # h) =
     (recovery \<le> run_length True (True # h) \<or> health_spec failure recovery h)"
| "health_spec failure recovery (False # h) =
     (run_length False (False # h) < failure \<and> health_spec failure recovery h)"

definition entry_probe :: "u32 \<Rightarrow> u32 \<Rightarrow> bool \<Rightarrow> backend_entry \<Rightarrow> backend_entry" where
  "entry_probe failure recovery ok e = (if ok then entry_success recovery e else entry_failure failure e)"

text \<open>The registry after a history of probes of one address, the latest first.\<close>

fun probe_history :: "u32 \<Rightarrow> u32 \<Rightarrow> socket_addr \<Rightarrow> bool list \<Rightarrow> backend_set \<Rightarrow> backend_set" where
  "probe_history failure recovery a [] bs = bs"
| "probe_history failure recovery a (ok # h) bs =
    (if ok then record_probe_success a recovery (probe_history failure recovery a h bs)
     else record_probe_failure a failure (probe_history failure recovery a h bs))"

lemma run_length_simps [simp]:
  "run_length b [] = 0"
  "run_length b (x # h) = (if x = b then Suc (run_length b h) else 0)"
  by (simp_all add: run_length_def)

definition sat32 :: "nat \<Rightarrow> nat" where
  "sat32 n = min n (2 ^ 32 - 1)"

lemma sat32_Suc: "min (sat32 n + 1) (2 ^ 32 - 1) = sat32 (Suc n)"
  by (auto simp: sat32_def min_def)

lemma le_sat32: "unat (t :: u32) \<le> sat32 n \<longleftrightarrow> unat t \<le> n"
proof -
  have "unat t < 2 ^ 32" using unsigned_less [of t] by simp
  then show ?thesis by (auto simp: sat32_def)
qed

text \<open>Both counters hold the length of the current run, saturated.\<close>

definition entry_matches :: "u32 \<Rightarrow> u32 \<Rightarrow> bool list \<Rightarrow> backend_entry \<Rightarrow> bool" where
  "entry_matches failure recovery h e \<longleftrightarrow>
     unat (consecutive_failures e) = sat32 (run_length False h)
     \<and> unat (consecutive_successes e) = sat32 (run_length True h)
     \<and> be_healthy e = health_spec (unat failure) (unat recovery) h"

lemma entry_matches_new: "entry_matches failure recovery [] (new_entry a)"
  by (simp add: entry_matches_def new_entry_def sat32_def)

lemma entry_matches_probe:
  assumes "entry_matches failure recovery h e"
  shows "entry_matches failure recovery (ok # h) (entry_probe failure recovery ok e)"
proof (cases ok)
  case True
  define n where "n = u32_saturating_add1 (consecutive_successes e)"
  have n: "unat n = sat32 (Suc (run_length True h))"
    using assms by (simp only: n_def unat_u32_saturating_add1 entry_matches_def sat32_Suc)
  have "recovery \<le> n \<longleftrightarrow> unat recovery \<le> Suc (run_length True h)"
    by (simp add: word_le_nat_alt n le_sat32)
  with True n assms show ?thesis
    by (simp add: entry_probe_def entry_success_def entry_matches_def n_def [symmetric] Let_def sat32_def)
next
  case False
  define n where "n = u32_saturating_add1 (consecutive_failures e)"
  have n: "unat n = sat32 (Suc (run_length False h))"
    using assms by (simp only: n_def unat_u32_saturating_add1 entry_matches_def sat32_Suc)
  have "failure \<le> n \<longleftrightarrow> unat failure \<le> Suc (run_length False h)"
    by (simp add: word_le_nat_alt n le_sat32)
  with False n assms show ?thesis
    by (simp add: entry_probe_def entry_failure_def entry_matches_def n_def [symmetric] Let_def sat32_def)
qed

lemma entry_for_new: "a \<in> set addrs \<Longrightarrow> entry_for a (new_backend_set addrs) = Some (new_entry a)"
proof (induction addrs)
  case (Cons b addrs)
  then show ?case by (cases "b = a") (auto simp: entry_for_def new_backend_set_def new_entry_def)
qed simp

lemma probe_history_entry:
  assumes "a \<in> set addrs"
  shows "\<exists>e. entry_for a (probe_history failure recovery a h (new_backend_set addrs)) = Some e
           \<and> entry_matches failure recovery h e"
proof (induction h)
  case Nil
  then show ?case using assms by (simp add: entry_for_new entry_matches_new)
next
  case (Cons ok h)
  then obtain e where "entry_for a (probe_history failure recovery a h (new_backend_set addrs)) = Some e"
    "entry_matches failure recovery h e" by blast
  with entry_matches_probe [OF this(2), of ok] show ?case
    by (cases ok) (auto simp: entry_for_probe entry_probe_def)
qed

lemma probe_history_other:
  "b \<noteq> a \<Longrightarrow> entry_for b (probe_history failure recovery a h bs) = entry_for b bs"
  by (induction h) (simp_all add: entry_for_probe)

section \<open>The routing interface\<close>

text \<open>
  The trait \<open>RoutingStrategy\<close>: what its clients rely on. A selected backend is one of the
  configured ones, selecting does not change them, and the only failures are the two the
  documentation of the registry names.
\<close>

locale routing_strategy =
  fixes select_backend :: "'r \<Rightarrow> socket_addr mzani_result \<times> 'r"
    and backend_addresses :: "'r \<Rightarrow> socket_addr list"
  assumes select_member: "select_backend r = (Inr a, r') \<Longrightarrow> a \<in> set (backend_addresses r)"
    and select_stable: "backend_addresses (snd (select_backend r)) = backend_addresses r"
    and select_error: "select_backend r = (Inl e, r') \<Longrightarrow>
      e = NoHealthyBackend \<or> e = EmptyServerList \<and> backend_addresses r = []"
begin

lemma select_stable': "select_backend r = (x, r') \<Longrightarrow> backend_addresses r' = backend_addresses r"
  using select_stable [of r] by simp

end

record round_robin =
  rr_backends :: backend_set

definition rr_new :: "backend_set \<Rightarrow> round_robin" where
  "rr_new bs = \<lparr>rr_backends = bs\<rparr>"

definition rr_select_backend :: "round_robin \<Rightarrow> socket_addr mzani_result \<times> round_robin" where
  "rr_select_backend r = (case select_next (rr_backends r) of (x, bs) \<Rightarrow> (x, r\<lparr>rr_backends := bs\<rparr>))"

definition rr_backend_addresses :: "round_robin \<Rightarrow> socket_addr list" where
  "rr_backend_addresses r = addresses (rr_backends r)"

interpretation rr: routing_strategy rr_select_backend rr_backend_addresses
proof
  fix r a r'
  assume "rr_select_backend r = (Inr a, r')"
  then obtain bs where "select_next (rr_backends r) = (Inr a, bs)"
    by (auto simp: rr_select_backend_def split: prod.splits)
  from select_next_ok [OF this] show "a \<in> set (rr_backend_addresses r)"
    by (auto simp: rr_backend_addresses_def addresses_def)
next
  fix r
  show "rr_backend_addresses (snd (rr_select_backend r)) = rr_backend_addresses r"
    using select_next_addresses [of "rr_backends r"]
    by (simp add: rr_backend_addresses_def rr_select_backend_def split_beta)
next
  fix r e r'
  assume "rr_select_backend r = (Inl e, r')"
  then obtain bs where "select_next (rr_backends r) = (Inl e, bs)"
    by (auto simp: rr_select_backend_def split: prod.splits)
  from select_next_err [OF this] show "e = NoHealthyBackend \<or> e = EmptyServerList \<and> rr_backend_addresses r = []"
    by (auto simp: rr_backend_addresses_def addresses_def)
qed

end
