(* ===== verification/Proxy.thy ===== *)
theory Proxy
  imports Http_Replies Metrics Backends Config
begin

text \<open>
  \<open>src/src/state/context.rs\<close>: the runtime context and the handling of one client connection.

  The routing strategy is a parameter of the definitions (its interface is the locale
  \<open>routing_strategy\<close> of \<^theory_text>\<open>Backends\<close>). What the threads share is the record \<open>world\<close>;
  the context itself only says which handles it holds. The environment of a connection is
  \<open>connect k a\<close>, the outcome of the k-th \<open>TcpStream::connect\<close>, made to \<open>a\<close>: an error or
  a connection whose script is what the backend sends; and \<open>elapsed k\<close>, the k-th reading of
  \<open>start_time.elapsed()\<close>. Each function acts on the shared state without interference from
  other threads; the pool interleaves whole connections.
\<close>

section \<open>The context\<close>

text \<open>The last four fields tell whether the option in the source is \<open>Some\<close>.\<close>

record proxy_context =
  cx_socket_addr :: socket_addr
  cx_log_dir :: str
  cx_limits :: limits
  cx_timeouts :: timeouts
  cx_max_backend_retries :: u32
  cx_log_tx :: bool
  cx_metrics_tx :: bool
  cx_metrics :: bool
  cx_dropped_logs :: bool

record 'r world =
  wd_routing :: 'r
  wd_log :: "log_record channel"
  wd_stats :: "request_stats channel"
  wd_metrics :: metrics
  wd_dropped :: u64

text \<open>\<open>Context::from_config\<close>: the context, and the routing state it holds.\<close>

definition context_from_config ::
  "balancer_config \<Rightarrow> backend_set \<Rightarrow> (proxy_context \<times> round_robin) mzani_result" where
  "context_from_config c bs =
    and_then (validate_config c) (\<lambda>_.
      Inr (\<lparr>cx_socket_addr = listen c, cx_log_dir = log_dir c, cx_limits = limits c,
            cx_timeouts = timeouts c, cx_max_backend_retries = max_backend_retries c,
            cx_log_tx = False, cx_metrics_tx = False, cx_metrics = False, cx_dropped_logs = False\<rparr>,
           rr_new bs))"

definition context_new_with_options ::
  "socket_addr list \<Rightarrow> socket_addr \<Rightarrow> str option \<Rightarrow> (proxy_context \<times> round_robin) mzani_result" where
  "context_new_with_options server_list listen_addr dir =
    (if server_list = [] then Inl EmptyServerList
     else
       let c = default_config\<lparr>listen := listen_addr, backends := server_list,
                 log_dir := (case dir of Some d \<Rightarrow> d | None \<Rightarrow> lit ''logs'')\<rparr>
       in context_from_config c (new_backend_set (backends c)))"

definition attach_observability :: "proxy_context \<Rightarrow> proxy_context" where
  "attach_observability cx =
    cx\<lparr>cx_log_tx := True, cx_metrics_tx := True, cx_metrics := True, cx_dropped_logs := True\<rparr>"

definition detach_observability :: "proxy_context \<Rightarrow> proxy_context" where
  "detach_observability cx =
    cx\<lparr>cx_log_tx := False, cx_metrics_tx := False, cx_metrics := False, cx_dropped_logs := False\<rparr>"

section \<open>Logging and metrics\<close>

definition dropped_record :: "u64 \<Rightarrow> log_record" where
  "dropped_record n =
    field (lit ''dropped_count'') (show_nat (unat n)) (new_record Warn (lit ''log_dropped'') LogRole)"

definition emit_log :: "proxy_context \<Rightarrow> log_record \<Rightarrow> 'r world \<Rightarrow> 'r world" where
  "emit_log cx r w =
    (if \<not> cx_log_tx cx then w
     else case try_send r (wd_log w) of
       (Inr _, ch) \<Rightarrow> w\<lparr>wd_log := ch\<rparr>
     | (Inl _, ch) \<Rightarrow>
         if \<not> cx_dropped_logs cx then w
         else let prev = wd_dropped w;
                  w1 = w\<lparr>wd_dropped := prev + 1\<rparr>
              in if 0 < prev \<and> prev mod 100 = 0
                 then w1\<lparr>wd_log := snd (try_send (dropped_record (prev + 1)) (wd_log w1))\<rparr>
                 else w1)"

definition record_metrics :: "proxy_context \<Rightarrow> request_stats \<Rightarrow> 'r world \<Rightarrow> 'r world" where
  "record_metrics cx st w =
    (if cx_metrics_tx cx then w\<lparr>wd_stats := snd (try_send st (wd_stats w))\<rparr> else w)"

definition log_accept_event ::
  "proxy_context \<Rightarrow> str \<Rightarrow> log_level \<Rightarrow> (str \<times> str) list \<Rightarrow> 'r world \<Rightarrow> 'r world" where
  "log_accept_event cx event level fs w =
    emit_log cx (fold (\<lambda>(key, v). field key v) fs (new_record level event Accept)) w"

definition record_pool_rejected :: "proxy_context \<Rightarrow> 'r world \<Rightarrow> 'r world" where
  "record_pool_rejected cx w =
    (let w1 = (if cx_metrics cx then w\<lparr>wd_metrics := metrics_record_pool_rejected (wd_metrics w)\<rparr> else w)
     in log_accept_event cx (lit ''pool_saturated'') Warn [] w1)"

definition request_failed_record :: "request_context \<Rightarrow> duration \<Rightarrow> str \<Rightarrow> str \<Rightarrow> log_record" where
  "request_failed_record req el stage error =
    field (lit ''duration_ms'') (show_nat (as_millis el))
      (field (lit ''error'') error
        (field (lit ''stage'') stage
          (with_request req (new_record Error (lit ''request_failed'') Worker))))"

definition log_request_failed ::
  "proxy_context \<Rightarrow> request_context \<Rightarrow> duration \<Rightarrow> str \<Rightarrow> str \<Rightarrow> 'r world \<Rightarrow> 'r world" where
  "log_request_failed cx req el stage error w = emit_log cx (request_failed_record req el stage error) w"

text \<open>\<open>metrics_report\<close>.\<close>

definition metrics_report :: "(metrics \<Rightarrow> socket_addr list) \<Rightarrow> instant \<Rightarrow> proxy_context \<Rightarrow> 'r world \<Rightarrow> str" where
  "metrics_report order now cx w =
    (if cx_metrics cx then format_report order now (wd_metrics w)
     else format_report order now (default_metrics now))"

section \<open>Proxying\<close>

text \<open>\<open>proxy_to_backend\<close> on the outcome of the connection attempt; the second component is the
  connection it leaves behind.\<close>

definition proxy_to_backend ::
  "bytes \<Rightarrow> limits \<Rightarrow> duration \<Rightarrow> io_error + socket \<Rightarrow> (bytes mzani_result \<times> socket option) option" where
  "proxy_to_backend bs l read_timeout conn =
    (case conn of
       Inl e \<Rightarrow> Some (Inl (from_io e), None)
     | Inr sk \<Rightarrow>
         (case set_read_timeout read_timeout sk of
            Inl e \<Rightarrow> Some (Inl (from_io e), Some sk)
          | Inr _ \<Rightarrow>
              (case write_all bs sk of
                 (Inl e, sk1) \<Rightarrow> Some (Inl (from_io e), Some sk1)
               | (Inr _, sk1) \<Rightarrow>
                   map_option (\<lambda>(r, es). (r, Some (sk1\<lparr>inbound := es\<rparr>)))
                     (read_http_response tcp_read l (inbound sk1)))))"

text \<open>One attempt: its target, its result and the connection it leaves.\<close>

type_synonym attempt = "socket_addr \<times> bytes mzani_result \<times> socket option"

text \<open>The loop \<open>for attempt in 0..attempts\<close>; the last argument counts the attempts left after
  this one. The attempts made are returned with the result.\<close>

fun proxy_attempts ::
  "('r \<Rightarrow> socket_addr mzani_result \<times> 'r) \<Rightarrow> (nat \<Rightarrow> socket_addr \<Rightarrow> io_error + socket)
    \<Rightarrow> limits \<Rightarrow> duration \<Rightarrow> bytes \<Rightarrow> nat \<Rightarrow> socket_addr \<Rightarrow> 'r \<Rightarrow> nat
    \<Rightarrow> (bytes mzani_result \<times> 'r \<times> attempt list) option" where
  "proxy_attempts select connect l rt bs k target ro left =
    (case proxy_to_backend bs l rt (connect k target) of
       None \<Rightarrow> None
     | Some (Inr response, sk) \<Rightarrow> Some (Inr response, ro, [(target, Inr response, sk)])
     | Some (Inl error, sk) \<Rightarrow>
         (case left of
            0 \<Rightarrow> Some (Inl error, ro, [(target, Inl error, sk)])
          | Suc left' \<Rightarrow>
              (case select ro of
                 (x, ro') \<Rightarrow>
                   map_option (\<lambda>(r, ro'', ats). (r, ro'', (target, Inl error, sk) # ats))
                     (proxy_attempts select connect l rt bs (Suc k)
                       (case x of Inr a \<Rightarrow> a | Inl _ \<Rightarrow> target) ro' left'))))"

declare proxy_attempts.simps [simp del]

definition proxy_with_retries ::
  "('r \<Rightarrow> socket_addr mzani_result \<times> 'r) \<Rightarrow> (nat \<Rightarrow> socket_addr \<Rightarrow> io_error + socket)
    \<Rightarrow> proxy_context \<Rightarrow> bytes \<Rightarrow> socket_addr \<Rightarrow> 'r \<Rightarrow> (bytes mzani_result \<times> 'r \<times> attempt list) option" where
  "proxy_with_retries select connect cx bs first_target ro =
    (let attempts = u32_saturating_add1 (cx_max_backend_retries cx)
     in proxy_attempts select connect (cx_limits cx) (read (cx_timeouts cx)) bs 0 first_target ro
          (unat attempts - 1))"

definition header_value :: "(str \<times> str) list \<Rightarrow> str \<Rightarrow> str option" where
  "header_value headers name =
    map_option snd (find (\<lambda>h. eq_ignore_ascii_case (fst h) name) headers)"

section \<open>One connection\<close>

definition accepted_record :: "proxy_context \<Rightarrow> request_context \<Rightarrow> socket_addr option \<Rightarrow> log_record" where
  "accepted_record cx req client =
    field (lit ''listen'') (format_addr (cx_socket_addr cx))
      (field (lit ''client'') (case client of Some a \<Rightarrow> format_addr a | None \<Rightarrow> lit ''-'')
        (with_request req (new_record Debug (lit ''connection_accepted'') Worker)))"

definition backend_record :: "str \<Rightarrow> request_context \<Rightarrow> socket_addr \<Rightarrow> log_record" where
  "backend_record event req target =
    field (lit ''backend'') (format_addr target) (with_request req (new_record Debug event Worker))"

definition parsed_record :: "request_context \<Rightarrow> request \<Rightarrow> nat \<Rightarrow> log_record" where
  "parsed_record req rq request_len =
    (let host = (case header_value (rq_headers rq) (lit ''host'') of Some v \<Rightarrow> v | None \<Rightarrow> lit ''-'');
         r = field (lit ''req_bytes'') (show_nat request_len)
               (field (lit ''content_length'') (show_nat (length (rq_body rq)))
                 (field (lit ''host'') host
                   (field (lit ''path'') (path_for_log (rq_path rq))
                     (field (lit ''method'') (method_str (rq_method rq))
                       (with_request req (new_record Info (lit ''request_parsed'') Worker))))));
         r1 = (case header_value (rq_headers rq) (lit ''user-agent'') of
                 Some ua \<Rightarrow> field (lit ''user_agent'') ua r | None \<Rightarrow> r)
     in case header_value (rq_headers rq) (lit ''x-request-id'') of
          Some rid \<Rightarrow> field (lit ''x_request_id'') rid r1 | None \<Rightarrow> r1)"

definition stats_for ::
  "request_context \<Rightarrow> socket_addr \<Rightarrow> nat \<Rightarrow> nat \<Rightarrow> duration \<Rightarrow> request_outcome \<Rightarrow> nat option \<Rightarrow> request_stats" where
  "stats_for req target request_len response_len el outcome status =
    \<lparr>st_req_id = rc_req_id req, st_worker_id = rc_worker_id req, st_backend = target,
     st_request_len = request_len, st_response_len = response_len, st_duration = el,
     st_outcome = outcome, st_status_code = status\<rparr>"

definition complete_record ::
  "request_context \<Rightarrow> socket_addr \<Rightarrow> nat \<Rightarrow> nat \<Rightarrow> duration \<Rightarrow> nat option \<Rightarrow> log_record" where
  "complete_record req target request_len response_len el status =
    (let r = field (lit ''outcome'') (lit ''ok'')
               (field (lit ''duration_ms'') (show_nat (as_millis el))
                 (field (lit ''resp_bytes'') (show_nat response_len)
                   (field (lit ''req_bytes'') (show_nat request_len)
                     (field (lit ''backend'') (format_addr target)
                       (with_request req (new_record Info (lit ''request_complete'') Worker))))))
     in case status of Some code \<Rightarrow> field (lit ''status'') (show_nat code) r | None \<Rightarrow> r)"

definition slow_record :: "proxy_context \<Rightarrow> request_context \<Rightarrow> duration \<Rightarrow> log_record" where
  "slow_record cx req el =
    field (lit ''threshold_ms'') (show_nat (as_millis (slow_request_warn (cx_timeouts cx))))
      (field (lit ''duration_ms'') (show_nat (as_millis el))
        (with_request req (new_record Warn (lit ''slow_request'') Worker)))"

text \<open>\<open>handle_connection\<close> from the response on: writing it to the client, flush, close of the
  write half, metrics and completion records.\<close>

definition deliver_response ::
  "proxy_context \<Rightarrow> request_context \<Rightarrow> (nat \<Rightarrow> duration) \<Rightarrow> socket_addr \<Rightarrow> nat \<Rightarrow> bytes
    \<Rightarrow> socket \<Rightarrow> 'r world \<Rightarrow> unit mzani_result \<times> socket \<times> 'r world" where
  "deliver_response cx req elapsed target request_len response sk w =
    (let fail = (\<lambda>stage e sk'. (Inl (from_io e), sk',
                   log_request_failed cx req (elapsed 0) stage (display_error (from_io e)) w));
         response_len = length response;
         status = log_status_code response
     in case write_all response sk of
          (Inl e, sk1) \<Rightarrow> fail (lit ''client_write'') e sk1
        | (Inr _, sk1) \<Rightarrow>
            (case flush sk1 of
               Inl e \<Rightarrow> fail (lit ''client_flush'') e sk1
             | Inr _ \<Rightarrow>
                 (case shutdown_write sk1 of
                    (Inl e, sk2) \<Rightarrow> fail (lit ''client_shutdown'') e sk2
                  | (Inr _, sk2) \<Rightarrow>
                      let el = elapsed 0;
                          w1 = record_metrics cx
                                 (stats_for req target request_len response_len el OutcomeOk status) w;
                          w2 = emit_log cx (complete_record req target request_len response_len el status) w1;
                          w3 = (if el \<ge> slow_request_warn (cx_timeouts cx)
                                then emit_log cx (slow_record cx req el) w2 else w2)
                      in (Inr (), sk2, w3))))"

text \<open>\<open>handle_connection\<close> with the request parsed: the attempts on the backends.\<close>

definition forward_request ::
  "('r \<Rightarrow> socket_addr mzani_result \<times> 'r) \<Rightarrow> (nat \<Rightarrow> socket_addr \<Rightarrow> io_error + socket)
    \<Rightarrow> proxy_context \<Rightarrow> request_context \<Rightarrow> (nat \<Rightarrow> duration) \<Rightarrow> socket_addr \<Rightarrow> request
    \<Rightarrow> socket \<Rightarrow> 'r world \<Rightarrow> (unit mzani_result \<times> socket \<times> 'r world \<times> attempt list) option" where
  "forward_request select connect cx req elapsed target rq sk w =
    (let request_bytes = request_to_bytes rq;
         request_len = length request_bytes;
         w1 = emit_log cx (parsed_record req rq request_len) w;
         w2 = emit_log cx (backend_record (lit ''backend_connect'') req target) w1
     in case proxy_with_retries select connect cx request_bytes target (wd_routing w2) of
          None \<Rightarrow> None
        | Some (Inl e, ro, ats) \<Rightarrow>
            let w3 = log_request_failed cx req (elapsed 0) (lit ''proxy'') (display_error e)
                       (w2\<lparr>wd_routing := ro\<rparr>);
                w4 = record_metrics cx (stats_for req target request_len 0 (elapsed 1) OutcomeError None) w3
            in Some (Inl e, sk, w4, ats)
        | Some (Inr response, ro, ats) \<Rightarrow>
            (case deliver_response cx req elapsed target request_len response sk (w2\<lparr>wd_routing := ro\<rparr>) of
               (r, sk', w') \<Rightarrow> Some (r, sk', w', ats)))"

definition handle_connection ::
  "('r \<Rightarrow> socket_addr mzani_result \<times> 'r) \<Rightarrow> (nat \<Rightarrow> socket_addr \<Rightarrow> io_error + socket)
    \<Rightarrow> proxy_context \<Rightarrow> request_context \<Rightarrow> (nat \<Rightarrow> duration) \<Rightarrow> socket \<Rightarrow> 'r world
    \<Rightarrow> (unit mzani_result \<times> socket \<times> 'r world \<times> attempt list) option" where
  "handle_connection select connect cx req elapsed sk w =
    (case set_read_timeout (read (cx_timeouts cx)) sk of
       Inl e \<Rightarrow> Some (Inl (from_io e), sk,
           log_request_failed cx req (elapsed 0) (lit ''set_timeout'') (display_error (from_io e)) w, [])
     | Inr _ \<Rightarrow>
         let w1 = emit_log cx (accepted_record cx req (peer sk)) w
         in case select (wd_routing w1) of
              (Inl e, ro) \<Rightarrow>
                let w2 = w1\<lparr>wd_routing := ro\<rparr>
                in if e = NoHealthyBackend
                   then Some (Inl NoHealthyBackend,
                          snd (write_service_unavailable (lit ''no healthy backends'') sk),
                          log_request_failed cx req (elapsed 0) (lit ''no_backend'')
                            (lit ''no healthy backends'') w2, [])
                   else Some (Inl e, sk, w2, [])
            | (Inr target, ro) \<Rightarrow>
                let w2 = emit_log cx (backend_record (lit ''backend_selected'') req target)
                           (w1\<lparr>wd_routing := ro\<rparr>)
                in case request_from_stream tcp_read (cx_limits cx) (inbound sk) of
                     None \<Rightarrow> None
                   | Some (Inr rq, es) \<Rightarrow>
                       forward_request select connect cx req elapsed target rq (sk\<lparr>inbound := es\<rparr>) w2
                   | Some (Inl e, es) \<Rightarrow>
                       let sk1 = sk\<lparr>inbound := es\<rparr>
                       in if e = BodyTooLarge
                          then Some (Inl BodyTooLarge, snd (write_payload_too_large sk1),
                                 log_request_failed cx req (elapsed 0) (lit ''body_limit'')
                                   (lit ''body too large'') w2, [])
                          else Some (Inl e, sk1,
                                 log_request_failed cx req (elapsed 0) (lit ''parse'')
                                   (display_error e) w2, []))"

end
