(* ===== verification/Pool.thy ===== *)
theory Pool
  imports Proxy
begin

text \<open>
  \<open>src/src/core/pool.rs\<close>: the worker pool. A pool is its bounded queues, one per worker, the
  senders it still holds (\<open>pl_connection_txs\<close>, as indices of queues), the dispatch counter,
  the stop flag and the request counter. Each operation and each turn of a thread's loop is
  one function; \<^theory_text>\<open>System\<close> interleaves them.
\<close>

datatype pool_role = ConnectionWorker | LogWriter | MetricsAggregator

record pool =
  pl_queues :: "socket channel list"
  pl_connection_txs :: "nat list"
  pl_dispatch_index :: u64
  pl_shutting_down :: bool
  pl_next_req_id :: u64
  pl_handles :: "pool_role list"
  pl_log_tx :: bool
  pl_metrics_tx :: bool
  pl_config :: pool_config

section \<open>Starting\<close>

definition startup_record :: "socket_addr \<Rightarrow> socket_addr list \<Rightarrow> pool_config \<Rightarrow> log_record" where
  "startup_record listen_addr addrs pc =
    field (lit ''worker_count'') (show_nat (workers pc))
      (field (lit ''backends'') (join_with (lit '','') (map format_addr addrs))
        (field (lit ''listen'') (format_addr listen_addr)
          (new_record Info (lit ''server_start'') LogRole)))"

text \<open>\<open>Observability::start\<close>: the context with its handles, the shared state and the logger.
  The log channel has three senders (pool, context, metrics thread), the statistics channel
  two (pool and context). \<open>mk_logger\<close> is the result of \<open>Logger::new_in_dir\<close>.\<close>

definition observability_start ::
  "logger mzani_result \<Rightarrow> instant \<Rightarrow> socket_addr list \<Rightarrow> proxy_context \<Rightarrow> 'r \<Rightarrow> pool_config
    \<Rightarrow> (proxy_context \<times> 'r world \<times> logger) mzani_result" where
  "observability_start mk_logger now addrs cx ro pc =
    (let log_ch = sync_channel (log_channel_capacity pc);
         stats_ch = sync_channel (metrics_channel_capacity pc)
     in and_then mk_logger (\<lambda>logger.
          let startup = startup_record (cx_socket_addr cx) addrs pc;
              log_ch1 = clone_sender (clone_sender log_ch);
              stats_ch1 = clone_sender stats_ch;
              log_ch2 = snd (try_send startup log_ch1)
          in Inr (attach_observability cx,
                  \<lparr>wd_routing = ro, wd_log = log_ch2, wd_stats = stats_ch1,
                   wd_metrics = default_metrics now, wd_dropped = 0\<rparr>,
                  logger)))"

definition pool_new ::
  "logger mzani_result \<Rightarrow> instant \<Rightarrow> socket_addr list \<Rightarrow> proxy_context \<Rightarrow> 'r \<Rightarrow> pool_config
    \<Rightarrow> (pool \<times> proxy_context \<times> 'r world \<times> logger) mzani_result" where
  "pool_new mk_logger now addrs cx ro pc =
    and_then (validate_pool pc) (\<lambda>_.
    and_then (observability_start mk_logger now addrs cx ro pc) (\<lambda>(cx', w, logger).
      Inr (\<lparr>pl_queues = replicate (workers pc) (sync_channel (per_worker_queue pc)),
            pl_connection_txs = [0..<workers pc],
            pl_dispatch_index = 0,
            pl_shutting_down = False,
            pl_next_req_id = 1,
            pl_handles = [LogWriter, MetricsAggregator] @ replicate (workers pc) ConnectionWorker,
            pl_log_tx = True, pl_metrics_tx = True,
            pl_config = pc\<rparr>, cx', w, logger)))"

section \<open>Submitting a connection\<close>

definition dispatch_worker_index :: "u64 \<Rightarrow> nat \<Rightarrow> nat \<times> u64" where
  "dispatch_worker_index dispatch_index worker_count =
    (unat dispatch_index mod worker_count, dispatch_index + 1)"

definition submit :: "socket \<Rightarrow> pool \<Rightarrow> ((mzani_error \<times> socket) + unit) \<times> pool" where
  "submit sk p =
    (if pl_shutting_down p then (Inl (ShutdownInProgress, sk), p)
     else if pl_connection_txs p = [] then (Inl (PoolFull, sk), p)
     else
       let (worker_index, next) = dispatch_worker_index (pl_dispatch_index p) (length (pl_connection_txs p));
           i = pl_connection_txs p ! worker_index;
           p1 = p\<lparr>pl_dispatch_index := next\<rparr>
       in case try_send sk (pl_queues p ! i) of
            (Inr _, ch) \<Rightarrow> (Inr (), p1\<lparr>pl_queues := (pl_queues p)[i := ch]\<rparr>)
          | (Inl (Full s), _) \<Rightarrow> (Inl (PoolFull, s), p1)
          | (Inl (Disconnected s), _) \<Rightarrow> (Inl (ShutdownInProgress, s), p1))"

definition reject_pool_full :: "proxy_context \<Rightarrow> socket \<Rightarrow> 'r world \<Rightarrow> socket \<times> 'r world" where
  "reject_pool_full cx sk w =
    (snd (write_service_unavailable (lit ''worker queue full'') sk), record_pool_rejected cx w)"

text \<open>A clone of the log sender for the caller; the flag tells whether there was one.\<close>

definition log_sender :: "pool \<Rightarrow> 'r world \<Rightarrow> bool \<times> 'r world" where
  "log_sender p w = (pl_log_tx p, if pl_log_tx p then w\<lparr>wd_log := clone_sender (wd_log w)\<rparr> else w)"

text \<open>Clearing the vector of senders drops one sender of each queue.\<close>

definition stop_accepting :: "pool \<Rightarrow> pool" where
  "stop_accepting p =
    p\<lparr>pl_shutting_down := True, pl_connection_txs := [],
      pl_queues := map (\<lambda>i. if i \<in> set (pl_connection_txs p) then drop_sender (pl_queues p ! i)
                             else pl_queues p ! i) [0..<length (pl_queues p)]\<rparr>"

section \<open>A turn of each thread\<close>

text \<open>One iteration of \<open>connection_worker_loop\<close> for a stream that \<open>recv\<close> has returned.\<close>

definition serve_connection ::
  "('r \<Rightarrow> socket_addr mzani_result \<times> 'r) \<Rightarrow> (nat \<Rightarrow> socket_addr \<Rightarrow> io_error + socket)
    \<Rightarrow> proxy_context \<Rightarrow> (nat \<Rightarrow> duration) \<Rightarrow> nat \<Rightarrow> socket \<Rightarrow> pool \<Rightarrow> 'r world
    \<Rightarrow> ((unit mzani_result \<times> request_context) option \<times> socket \<times> pool \<times> 'r world) option" where
  "serve_connection select connect cx elapsed worker_id sk p w =
    (if pl_shutting_down p
     then Some (None, snd (write_service_unavailable (lit ''shutting down'') sk), p, w)
     else
       let (req_id, next) = next_request_id (pl_next_req_id p);
           req = \<lparr>rc_req_id = req_id, rc_worker_id = worker_id\<rparr>
       in map_option (\<lambda>(r, sk', w', _). (Some (r, req), sk', p\<lparr>pl_next_req_id := next\<rparr>, w'))
            (handle_connection select connect cx req elapsed sk w))"

text \<open>One iteration of \<open>log_writer_loop\<close>.\<close>

definition log_writer_turn :: "log_record \<Rightarrow> logger \<Rightarrow> logger" where
  "log_writer_turn r logger = snd (logger_write_record r logger)"

definition metrics_snapshot_every_n :: u64 where
  "metrics_snapshot_every_n = 100"

definition metrics_snapshot_interval :: duration where
  "metrics_snapshot_interval = from_secs 60"

text \<open>One iteration of \<open>metrics_aggregator_loop\<close>: the local counter and the time of the last
  snapshot are its state; \<open>clock\<close> gives the times it reads.\<close>

record aggregator =
  ag_request_count :: u64
  ag_last_snapshot :: instant

definition aggregator_turn ::
  "(metrics \<Rightarrow> socket_addr list) \<Rightarrow> (nat \<Rightarrow> instant) \<Rightarrow> request_stats \<Rightarrow> aggregator \<Rightarrow> 'r world \<Rightarrow> aggregator \<times> 'r world" where
  "aggregator_turn order clock st ag w =
    (let ag1 = ag\<lparr>ag_request_count := ag_request_count ag + 1\<rparr>;
         req = \<lparr>rc_req_id = st_req_id st, rc_worker_id = st_worker_id st\<rparr>;
         w1 = w\<lparr>wd_metrics := record_request st (wd_metrics w)\<rparr>;
         due = (ag_request_count ag1 mod metrics_snapshot_every_n = 0
                \<or> clock 0 - ag_last_snapshot ag1 \<ge> metrics_snapshot_interval);
         w2 = w1\<lparr>wd_log := snd (try_send (to_metrics_record st req) (wd_log w1))\<rparr>
     in if due
        then (ag1\<lparr>ag_last_snapshot := clock 1\<rparr>,
              w2\<lparr>wd_log := snd (try_send (snapshot_record order (clock 2) (wd_metrics w2)) (wd_log w2))\<rparr>)
        else (ag1, w2))"

end
