(* ===== verification/Shutdown.thy ===== *)
theory Shutdown
  imports Pool
begin

text \<open>
  \<open>ThreadPool::shutdown_threads\<close>: closing the queues, joining the workers, then the metrics
  thread, then the log writer. A join of a thread returns when the channel that thread reads
  is empty and has no sender left; the thread has then taken what was queued. A join of a
  thread whose channel keeps a sender never returns, and the result is \<open>None\<close>. None of the
  threads panics: their loops discard every error.

  \<open>ctx_shared\<close> tells whether a clone of the \<open>Arc\<close> of the context is alive outside the pool
  when the workers have exited, in which case \<open>Arc::get_mut\<close> fails. Here each thread
  runs alone while the owner waits for it; in the theory \<open>Closing\<close> all of them run at once.
\<close>

record 'r pool_state =
  ps_pool :: pool
  ps_context :: proxy_context
  ps_world :: "'r world"
  ps_logger :: logger
  ps_aggregator :: aggregator

text \<open>What the workers do with the connections still queued: every one is answered 503.\<close>

definition shutting_down_reply :: "socket \<Rightarrow> socket" where
  "shutting_down_reply sk = snd (write_service_unavailable (lit ''shutting down'') sk)"

definition join_workers :: "pool \<Rightarrow> (socket list \<times> pool) option" where
  "join_workers p =
    (if ConnectionWorker \<in> set (pl_handles p) \<and> (\<exists>ch\<in>set (pl_queues p). senders ch \<noteq> 0) then None
     else if ConnectionWorker \<in> set (pl_handles p)
     then Some (map shutting_down_reply (concat (map queue (pl_queues p))),
                p\<lparr>pl_queues := map (\<lambda>ch. ch\<lparr>queue := []\<rparr>) (pl_queues p)\<rparr>)
     else Some ([], p))"

text \<open>The metrics thread reads its queue to the end, then drops its log sender.\<close>

definition drain_stats ::
  "(metrics \<Rightarrow> socket_addr list) \<Rightarrow> (nat \<Rightarrow> nat \<Rightarrow> instant) \<Rightarrow> aggregator \<Rightarrow> 'r world \<Rightarrow> aggregator \<times> 'r world" where
  "drain_stats order clock ag w =
    fold (\<lambda>(i, st) (ag, w). aggregator_turn order (clock i) st ag w) (enumerate 0 (queue (wd_stats w)))
         (ag, w\<lparr>wd_stats := (wd_stats w)\<lparr>queue := []\<rparr>\<rparr>)"

definition join_metrics ::
  "(metrics \<Rightarrow> socket_addr list) \<Rightarrow> (nat \<Rightarrow> nat \<Rightarrow> instant) \<Rightarrow> pool \<Rightarrow> aggregator \<Rightarrow> 'r world \<Rightarrow> (aggregator \<times> 'r world) option" where
  "join_metrics order clock p ag w =
    (if MetricsAggregator \<notin> set (pl_handles p) then Some (ag, w)
     else if senders (wd_stats w) \<noteq> 0 then None
     else case drain_stats order clock ag w of
            (ag', w') \<Rightarrow> Some (ag', w'\<lparr>wd_log := drop_sender (wd_log w')\<rparr>))"

definition join_log :: "pool \<Rightarrow> logger \<Rightarrow> 'r world \<Rightarrow> (logger \<times> 'r world) option" where
  "join_log p logger w =
    (if LogWriter \<notin> set (pl_handles p) then Some (logger, w)
     else if senders (wd_log w) \<noteq> 0 then None
     else Some (fold log_writer_turn (queue (wd_log w)) logger,
                w\<lparr>wd_log := (wd_log w)\<lparr>queue := []\<rparr>\<rparr>))"

text \<open>\<open>Arc::get_mut(&mut self.context)\<close> and \<open>detach_observability\<close>, which drops the
  context's senders.\<close>

definition detach_context :: "bool \<Rightarrow> proxy_context \<Rightarrow> 'r world \<Rightarrow> proxy_context \<times> 'r world" where
  "detach_context ctx_shared cx w =
    (if ctx_shared then (cx, w)
     else (detach_observability cx,
           w\<lparr>wd_log := (if cx_log_tx cx then drop_sender (wd_log w) else wd_log w),
             wd_stats := (if cx_metrics_tx cx then drop_sender (wd_stats w) else wd_stats w)\<rparr>))"

definition drop_metrics_tx :: "pool \<Rightarrow> 'r world \<Rightarrow> pool \<times> 'r world" where
  "drop_metrics_tx p w =
    (p\<lparr>pl_metrics_tx := False\<rparr>,
     if pl_metrics_tx p then w\<lparr>wd_stats := drop_sender (wd_stats w)\<rparr> else w)"

text \<open>\<open>Observability::shutdown_log\<close>: a last snapshot, then the pool's log sender is dropped.\<close>

definition shutdown_log :: "(metrics \<Rightarrow> socket_addr list) \<Rightarrow> instant \<Rightarrow> pool \<Rightarrow> 'r world \<Rightarrow> pool \<times> 'r world" where
  "shutdown_log order now p w =
    (p\<lparr>pl_log_tx := False\<rparr>,
     if pl_log_tx p
     then w\<lparr>wd_log := drop_sender (snd (try_send (snapshot_record order now (wd_metrics w)) (wd_log w)))\<rparr>
     else w)"

definition shutdown_threads ::
  "(metrics \<Rightarrow> socket_addr list) \<Rightarrow> (nat \<Rightarrow> nat \<Rightarrow> instant) \<Rightarrow> instant \<Rightarrow> bool \<Rightarrow> 'r pool_state
    \<Rightarrow> (unit mzani_result \<times> socket list \<times> 'r pool_state) option" where
  "shutdown_threads order clock now ctx_shared s =
    Option.bind (join_workers (stop_accepting (ps_pool s))) (\<lambda>(replied, p1).
      let (cx1, w1) = detach_context ctx_shared (ps_context s) (ps_world s);
          (p2, w2) = drop_metrics_tx p1 w1
      in Option.bind (join_metrics order clock p2 (ps_aggregator s) w2) (\<lambda>(ag3, w3).
           let (p4, w4) = shutdown_log order now p2 w3
           in Option.bind (join_log p4 (ps_logger s) w4) (\<lambda>(logger5, w5).
                Some (Inr (), replied,
                      \<lparr>ps_pool = p4\<lparr>pl_handles := []\<rparr>, ps_context = cx1, ps_world = w5,
                       ps_logger = logger5, ps_aggregator = ag3\<rparr>))))"

section \<open>A running pool\<close>

text \<open>The senders of a pool whose threads have not been joined; its queues are all open or,
  after \<open>stop_accepting\<close>, all closed. \<open>extra\<close> counts the log senders that live outside it.\<close>

definition running :: "nat \<Rightarrow> 'r pool_state \<Rightarrow> bool" where
  "running extra s \<longleftrightarrow>
     (let p = ps_pool s; w = ps_world s in
       (pl_connection_txs p = [0..<length (pl_queues p)] \<and> (\<forall>ch\<in>set (pl_queues p). senders ch = 1)
        \<or> pl_connection_txs p = [] \<and> (\<forall>ch\<in>set (pl_queues p). senders ch = 0))
       \<and> LogWriter \<in> set (pl_handles p) \<and> MetricsAggregator \<in> set (pl_handles p)
       \<and> ConnectionWorker \<in> set (pl_handles p)
       \<and> pl_log_tx p \<and> pl_metrics_tx p
       \<and> cx_log_tx (ps_context s) \<and> cx_metrics_tx (ps_context s)
       \<and> senders (wd_log w) = 3 + extra \<and> senders (wd_stats w) = 2)"

definition start_state ::
  "instant \<Rightarrow> pool \<times> proxy_context \<times> 'r world \<times> logger \<Rightarrow> 'r pool_state" where
  "start_state now x =
    (case x of (p, cx, w, logger) \<Rightarrow>
      \<lparr>ps_pool = p, ps_context = cx, ps_world = w, ps_logger = logger,
       ps_aggregator = \<lparr>ag_request_count = 0, ag_last_snapshot = now\<rparr>\<rparr>)"

lemma pool_new_running:
  assumes "pool_new mk_logger now addrs cx ro pc = Inr x"
  shows "running 0 (start_state now x)"
proof -
  have "0 < workers pc" using assms by (auto simp: pool_new_def result_simps validate_pool_ok)
  with assms show ?thesis
    by (auto simp: pool_new_def observability_start_def Let_def result_simps running_def start_state_def
        sync_channel_def clone_sender_def attach_observability_def)
qed

lemma stop_accepting_closed:
  assumes "running extra s"
  shows "\<forall>ch\<in>set (pl_queues (stop_accepting (ps_pool s))). senders ch = 0"
    and "map queue (pl_queues (stop_accepting (ps_pool s))) = map queue (pl_queues (ps_pool s))"
proof -
  have c: "pl_connection_txs (ps_pool s) = [0..<length (pl_queues (ps_pool s))]
        \<and> (\<forall>ch\<in>set (pl_queues (ps_pool s)). senders ch = 1)
      \<or> pl_connection_txs (ps_pool s) = [] \<and> (\<forall>ch\<in>set (pl_queues (ps_pool s)). senders ch = 0)"
    using assms by (simp add: running_def Let_def)
  have q: "pl_queues (stop_accepting (ps_pool s)) = map drop_sender (pl_queues (ps_pool s))
      \<or> pl_queues (stop_accepting (ps_pool s)) = pl_queues (ps_pool s)"
    using c by (auto simp: stop_accepting_def map_nth intro!: nth_equalityI)
  show "map queue (pl_queues (stop_accepting (ps_pool s))) = map queue (pl_queues (ps_pool s))"
    using q by (auto simp: drop_sender_def comp_def)
  show "\<forall>ch\<in>set (pl_queues (stop_accepting (ps_pool s))). senders ch = 0"
    using c by (auto simp: stop_accepting_def drop_sender_def)
qed

lemma running_stop_accepting:
  assumes "running extra s"
  shows "running extra (s\<lparr>ps_pool := stop_accepting (ps_pool s)\<rparr>)"
  using assms stop_accepting_closed(1) [OF assms]
  unfolding running_def Let_def by (simp add: stop_accepting_def)

lemma aggregator_fold_frame:
  "fold (\<lambda>(i, st) (ag, w). aggregator_turn order (clock i) st ag w) (enumerate n sts) (ag, w) = (ag', w') \<Longrightarrow>
     wd_stats w' = wd_stats w \<and> senders (wd_log w') = senders (wd_log w)
     \<and> wd_metrics w' = recorded sts (wd_metrics w)"
proof (induction sts arbitrary: ag w n)
  case Nil
  then show ?case by (simp add: recorded_def)
next
  case (Cons st sts)
  obtain ag1 w1 where t: "aggregator_turn order (clock n) st ag w = (ag1, w1)" by force
  then have "wd_stats w1 = wd_stats w" "senders (wd_log w1) = senders (wd_log w)"
    "wd_metrics w1 = record_request st (wd_metrics w)"
    by (auto simp: aggregator_turn_def Let_def split: if_splits)
  with Cons t show ?case by (simp add: recorded_def)
qed

lemma drain_stats_frame:
  assumes "drain_stats order clock ag w = (ag', w')"
  shows "queue (wd_stats w') = []" "senders (wd_stats w') = senders (wd_stats w)"
    "senders (wd_log w') = senders (wd_log w)"
    "wd_metrics w' = recorded (queue (wd_stats w)) (wd_metrics w)"
  using aggregator_fold_frame [OF assms [unfolded drain_stats_def]] by simp_all

text \<open>
  With no sender outside the pool the shutdown returns: the queued connections have been
  answered, every queued statistics record is counted, and nothing is left in any queue.
\<close>

lemma shutdown_threads_returns:
  assumes r: "running 0 s"
  shows "\<exists>s'. shutdown_threads order clock now False s
           = Some (Inr (), map shutting_down_reply (concat (map queue (pl_queues (ps_pool s)))), s')
       \<and> (\<forall>ch\<in>set (pl_queues (ps_pool s')). queue ch = [])
       \<and> queue (wd_stats (ps_world s')) = [] \<and> queue (wd_log (ps_world s')) = []
       \<and> pl_handles (ps_pool s') = []
       \<and> wd_metrics (ps_world s') = recorded (queue (wd_stats (ps_world s))) (wd_metrics (ps_world s))"
proof -
  define p where "p = ps_pool s"
  define w where "w = ps_world s"
  note r' = r [unfolded running_def Let_def, folded p_def w_def]
  have h: "pl_handles (stop_accepting p) = pl_handles p" "pl_metrics_tx (stop_accepting p)" "pl_log_tx (stop_accepting p)"
    using r' by (simp_all add: stop_accepting_def)
  have z: "\<forall>ch\<in>set (pl_queues (stop_accepting p)). senders ch = 0"
    unfolding p_def by (rule stop_accepting_closed) (rule r)
  have cq: "concat (map queue (pl_queues (stop_accepting p))) = concat (map queue (pl_queues p))"
    unfolding p_def by (simp only: stop_accepting_closed(2) [OF r])
  define p1 where "p1 = (stop_accepting p)\<lparr>pl_queues := map (\<lambda>ch. ch\<lparr>queue := []\<rparr>) (pl_queues (stop_accepting p))\<rparr>"
  have j: "join_workers (stop_accepting p) = Some (map shutting_down_reply (concat (map queue (pl_queues p))), p1)"
    using z r' unfolding join_workers_def h cq p1_def by auto
  define w2 where "w2 = w\<lparr>wd_log := drop_sender (wd_log w), wd_stats := drop_sender (drop_sender (wd_stats w))\<rparr>"
  have w2: "senders (wd_stats w2) = 0" "senders (wd_log w2) = 2" "queue (wd_stats w2) = queue (wd_stats w)"
    "wd_metrics w2 = wd_metrics w"
    using r' by (simp_all add: w2_def drop_sender_def)
  have d: "drop_metrics_tx p1 (snd (detach_context False (ps_context s) w)) = (p1\<lparr>pl_metrics_tx := False\<rparr>, w2)"
    using r' h by (simp add: drop_metrics_tx_def detach_context_def p1_def w2_def)
  obtain ag3 v where dr: "drain_stats order clock (ps_aggregator s) w2 = (ag3, v)" by force
  note v = drain_stats_frame [OF dr]
  define w3 where "w3 = v\<lparr>wd_log := drop_sender (wd_log v)\<rparr>"
  have w3: "senders (wd_log w3) = 1" "queue (wd_stats w3) = []"
    "wd_metrics w3 = recorded (queue (wd_stats w)) (wd_metrics w)"
    using v w2 by (simp_all add: w3_def drop_sender_def)
  have m: "join_metrics order clock (p1\<lparr>pl_metrics_tx := False\<rparr>) (ps_aggregator s) w2 = Some (ag3, w3)"
    using r' h w2 dr by (simp add: join_metrics_def p1_def w3_def)
  define w4 where "w4 = w3\<lparr>wd_log := drop_sender (snd (try_send (snapshot_record order now (wd_metrics w3)) (wd_log w3)))\<rparr>"
  have w4: "senders (wd_log w4) = 0" "queue (wd_stats w4) = []" "wd_metrics w4 = wd_metrics w3"
    using w3 by (simp_all add: w4_def drop_sender_def)
  have sl: "shutdown_log order now (p1\<lparr>pl_metrics_tx := False\<rparr>) w3
      = (p1\<lparr>pl_metrics_tx := False, pl_log_tx := False\<rparr>, w4)"
    using h by (simp add: shutdown_log_def p1_def w4_def)
  have jl: "join_log (p1\<lparr>pl_metrics_tx := False, pl_log_tx := False\<rparr>) (ps_logger s) w4
      = Some (fold log_writer_turn (queue (wd_log w4)) (ps_logger s), w4\<lparr>wd_log := (wd_log w4)\<lparr>queue := []\<rparr>\<rparr>)"
    using r' h w4 by (simp add: join_log_def p1_def)
  have "\<exists>s'. shutdown_threads order clock now False s
        = Some (Inr (), map shutting_down_reply (concat (map queue (pl_queues p))), s')
      \<and> ps_world s' = w4\<lparr>wd_log := (wd_log w4)\<lparr>queue := []\<rparr>\<rparr>
      \<and> ps_pool s' = p1\<lparr>pl_metrics_tx := False, pl_log_tx := False, pl_handles := []\<rparr>"
    using d by (simp add: shutdown_threads_def Let_def j p_def [symmetric] w_def [symmetric]
        split_beta m sl jl)
  then show ?thesis
    using w3 w4 by (auto simp: p_def [symmetric] w_def [symmetric] p1_def)
qed

lemma shutdown_threads_stages:
  assumes "shutdown_threads order clock now ctx_shared s = Some (r, replied, s')"
  obtains p1 cx1 w1 p2 w2 ag3 w3 p4 w4 x where
    "join_workers (stop_accepting (ps_pool s)) = Some (replied, p1)"
    "detach_context ctx_shared (ps_context s) (ps_world s) = (cx1, w1)"
    "drop_metrics_tx p1 w1 = (p2, w2)"
    "join_metrics order clock p2 (ps_aggregator s) w2 = Some (ag3, w3)"
    "shutdown_log order now p2 w3 = (p4, w4)" "join_log p4 (ps_logger s) w4 = Some x" "r = Inr ()"
proof -
  from assms obtain rep p1 where 1: "join_workers (stop_accepting (ps_pool s)) = Some (rep, p1)"
    by (auto simp: shutdown_threads_def bind_eq_Some_conv)
  obtain cx1 w1 where 2: "detach_context ctx_shared (ps_context s) (ps_world s) = (cx1, w1)" by force
  obtain p2 w2 where 3: "drop_metrics_tx p1 w1 = (p2, w2)" by force
  from assms 1 2 3 obtain ag3 w3 where 4: "join_metrics order clock p2 (ps_aggregator s) w2 = Some (ag3, w3)"
    by (auto simp: shutdown_threads_def bind_eq_Some_conv)
  obtain p4 w4 where 5: "shutdown_log order now p2 w3 = (p4, w4)" by force
  from assms 1 2 3 4 5 obtain x where "join_log p4 (ps_logger s) w4 = Some x" "r = Inr ()" "rep = replied"
    by (auto simp: shutdown_threads_def bind_eq_Some_conv)
  with 1 2 3 4 5 that show thesis by blast
qed

text \<open>A log sender that outlives the pool, or a clone of the context, blocks it for ever.\<close>

lemma shutdown_threads_blocks:
  assumes r: "running extra s" and "0 < extra \<or> ctx_shared"
  shows "shutdown_threads order clock now ctx_shared s = None"
proof (rule ccontr)
  assume "shutdown_threads order clock now ctx_shared s \<noteq> None"
  then obtain y replied s' where "shutdown_threads order clock now ctx_shared s = Some (y, replied, s')" by auto
  then obtain p1 cx1 w1 p2 w2 ag3 w3 p4 w4 x where
    1: "join_workers (stop_accepting (ps_pool s)) = Some (replied, p1)"
      "detach_context ctx_shared (ps_context s) (ps_world s) = (cx1, w1)"
      "drop_metrics_tx p1 w1 = (p2, w2)"
      "join_metrics order clock p2 (ps_aggregator s) w2 = Some (ag3, w3)"
      "shutdown_log order now p2 w3 = (p4, w4)" "join_log p4 (ps_logger s) w4 = Some x"
    by (rule shutdown_threads_stages)
  have p1: "pl_handles p1 = pl_handles (ps_pool s)" "pl_metrics_tx p1" "pl_log_tx p1"
    using 1(1) r by (auto simp: join_workers_def stop_accepting_def running_def Let_def split: if_splits)
  have p2: "pl_handles p2 = pl_handles p1" "pl_log_tx p2 = pl_log_tx p1"
    and w2: "wd_log w2 = wd_log w1" "senders (wd_stats w2) = senders (wd_stats w1) - 1"
    using 1(3) p1 by (auto simp: drop_metrics_tx_def drop_sender_def)
  have mem: "MetricsAggregator \<in> set (pl_handles p2)" "LogWriter \<in> set (pl_handles p2)"
    using r p1 p2 by (auto simp: running_def Let_def)
  have st: "senders (wd_stats w2) = 0" using 1(4) mem by (auto simp: join_metrics_def split: if_splits)
  obtain a v where dr: "drain_stats order clock (ps_aggregator s) w2 = (a, v)" "w3 = v\<lparr>wd_log := drop_sender (wd_log v)\<rparr>"
    using 1(4) mem st by (auto simp: join_metrics_def split: prod.splits)
  note v = drain_stats_frame [OF dr(1)]
  have lg: "senders (wd_log w4) = senders (wd_log w2) - 2" "pl_handles p4 = pl_handles p2"
    using 1(5) v dr(2) p1 p2 by (auto simp: shutdown_log_def drop_sender_def)
  moreover have "senders (wd_log w4) = 0"
    using 1(6) mem lg by (auto simp: join_log_def split: if_splits)
  ultimately show False
    using st w2 1(2) assms by (auto simp: detach_context_def running_def Let_def drop_sender_def split: if_splits)
qed

lemma shutdown_threads_result:
  "shutdown_threads order clock now ctx_shared s = Some (r, replied, s') \<Longrightarrow> r = Inr ()"
  by (erule shutdown_threads_stages)

end
