(* ===== verification/Health_Monitor.thy ===== *)
theory Health_Monitor
  imports Backends Config Log_Records
begin

text \<open>
  \<open>src/src/state/health.rs\<close>: the probe thread. What it observes is given by two functions of
  the number of loads of the stop flag made so far: \<open>stop n\<close> is the value of the n-th load,
  and \<open>probe n\<close> the result of the connection attempt that follows it. The worker threads
  share the registry but only move its cursor, which the probe thread never reads. The log
  sink is a parameter.
\<close>

section \<open>One probe\<close>

definition recovered_record :: "socket_addr \<Rightarrow> log_record" where
  "recovered_record a =
    field (lit ''backend'') (format_addr a) (new_record Info (lit ''backend_recovered'') Health)"

definition unhealthy_record :: "socket_addr \<Rightarrow> log_record" where
  "unhealthy_record a =
    field (lit ''backend'') (format_addr a) (new_record Warn (lit ''backend_unhealthy'') Health)"

definition health_probe ::
  "health_config \<Rightarrow> socket_addr \<Rightarrow> bool \<Rightarrow> backend_set \<Rightarrow> backend_set \<times> log_record option" where
  "health_probe c a probe_ok bs =
    (let was_healthy = is_healthy a bs
     in if probe_ok then
          let bs' = record_probe_success a (recovery_threshold c) bs
          in (bs', if \<not> was_healthy \<and> is_healthy a bs' then Some (recovered_record a) else None)
        else
          let bs' = record_probe_failure a (failure_threshold c) bs
          in (bs', if was_healthy \<and> \<not> is_healthy a bs' then Some (unhealthy_record a) else None))"

definition emit_event :: "('k \<Rightarrow> log_record \<Rightarrow> 'k) \<Rightarrow> 'k \<Rightarrow> log_record option \<Rightarrow> 'k" where
  "emit_event emit k ev = (case ev of Some r \<Rightarrow> emit k r | None \<Rightarrow> k)"

section \<open>The loop\<close>

text \<open>The sleep in slices of 50 ms: the loads made so far, and the time slept.\<close>

definition sleep_slice :: duration where
  "sleep_slice = from_millis 50"

function sleep_interruptible :: "(nat \<Rightarrow> bool) \<Rightarrow> nat \<Rightarrow> duration \<Rightarrow> nat \<times> duration" where
  "sleep_interruptible stop n remaining =
    (if remaining = 0 then (n, 0)
     else if stop n then (Suc n, 0)
     else let slice = min remaining sleep_slice
          in case sleep_interruptible stop (Suc n) (remaining - slice) of
               (m, slept) \<Rightarrow> (m, slice + slept))"
  by pat_completeness auto

termination
  by (relation "measure (\<lambda>(stop, n, remaining). remaining)")
     (auto simp: sleep_slice_def from_millis_def)

declare sleep_interruptible.simps [simp del]

text \<open>The \<open>for\<close> loop over the addresses; the flag in the result tells that it was left by
  \<open>return\<close>.\<close>

fun health_round ::
  "(nat \<Rightarrow> bool) \<Rightarrow> (nat \<Rightarrow> bool) \<Rightarrow> ('k \<Rightarrow> log_record \<Rightarrow> 'k) \<Rightarrow> health_config \<Rightarrow> socket_addr list
    \<Rightarrow> nat \<Rightarrow> backend_set \<times> 'k \<Rightarrow> bool \<times> nat \<times> (backend_set \<times> 'k)" where
  "health_round stop probe emit c [] n st = (False, n, st)"
| "health_round stop probe emit c (a # addrs) n (bs, k) =
    (if stop n then (True, Suc n, (bs, k))
     else case health_probe c a (probe n) bs of (bs', ev) \<Rightarrow>
            health_round stop probe emit c addrs (Suc n) (bs', emit_event emit k ev))"

partial_function (option) health_iterate ::
  "(nat \<Rightarrow> bool) \<Rightarrow> (nat \<Rightarrow> bool) \<Rightarrow> ('k \<Rightarrow> log_record \<Rightarrow> 'k) \<Rightarrow> health_config \<Rightarrow> socket_addr list
    \<Rightarrow> nat \<Rightarrow> backend_set \<times> 'k \<Rightarrow> (nat \<times> (backend_set \<times> 'k)) option" where
  "health_iterate stop probe emit c addrs n st =
    (if stop n then Some (Suc n, st)
     else let (stopped, m, st') = health_round stop probe emit c addrs (Suc n) st
          in if stopped then Some (m, st')
             else health_iterate stop probe emit c addrs
                    (fst (sleep_interruptible stop m (interval c))) st')"

definition health_loop ::
  "(nat \<Rightarrow> bool) \<Rightarrow> (nat \<Rightarrow> bool) \<Rightarrow> ('k \<Rightarrow> log_record \<Rightarrow> 'k) \<Rightarrow> health_config \<Rightarrow> backend_set \<Rightarrow> 'k
    \<Rightarrow> (backend_set \<times> 'k) option" where
  "health_loop stop probe emit c bs k =
    map_option snd (health_iterate stop probe emit c (addresses bs) 0 (bs, k))"

section \<open>The sleep\<close>

lemma sleep_fst:
  "fst (sleep_interruptible stop n r) =
     (if r = 0 then n else if stop n then Suc n
      else fst (sleep_interruptible stop (Suc n) (r - min r sleep_slice)))"
  by (subst sleep_interruptible.simps) (simp add: Let_def split_beta)

lemma sleep_snd:
  "snd (sleep_interruptible stop n r) =
     (if r = 0 \<or> stop n then 0
      else min r sleep_slice + snd (sleep_interruptible stop (Suc n) (r - min r sleep_slice)))"
  by (subst sleep_interruptible.simps) (simp add: Let_def split_beta)

lemma sleep_loads_mono: "n \<le> fst (sleep_interruptible stop n r)"
proof (induction stop n r rule: sleep_interruptible.induct)
  case (1 stop n r)
  then show ?case using Suc_leD by (subst sleep_fst) auto
qed

lemma sleep_bound: "snd (sleep_interruptible stop n r) \<le> r"
proof (induction stop n r rule: sleep_interruptible.induct)
  case (1 stop n r)
  then show ?case by (subst sleep_snd) fastforce
qed

lemma sleep_uninterrupted: "snd (sleep_interruptible (\<lambda>_. False) n r) = r"
proof (induction r arbitrary: n rule: less_induct)
  case (less r)
  have "r - min r sleep_slice < r" if "r \<noteq> 0"
    using that by (simp add: sleep_slice_def from_millis_def)
  with less.IH show ?case by (subst sleep_snd) auto
qed

lemma sleep_responsive:
  "stop (n + k) \<Longrightarrow> snd (sleep_interruptible stop n r) \<le> k * sleep_slice"
proof (induction k arbitrary: n r)
  case 0
  then show ?case by (subst sleep_snd) simp
next
  case (Suc k)
  from Suc.IH [of "Suc n" "r - min r sleep_slice"] Suc.prems show ?case
    by (subst sleep_snd) auto
qed

section \<open>The trace of probes\<close>

text \<open>The registry and the events after a sequence of probes.\<close>

fun probe_trace ::
  "health_config \<Rightarrow> (socket_addr \<times> bool) list \<Rightarrow> backend_set
    \<Rightarrow> backend_set \<times> (socket_addr \<times> log_record) list" where
  "probe_trace c [] bs = (bs, [])"
| "probe_trace c ((a, ok) # xs) bs =
    (case health_probe c a ok bs of (bs', ev) \<Rightarrow>
       case probe_trace c xs bs' of (bs'', evs) \<Rightarrow>
         (bs'', (case ev of Some r \<Rightarrow> [(a, r)] | None \<Rightarrow> []) @ evs))"

definition probes_of :: "socket_addr \<Rightarrow> (socket_addr \<times> bool) list \<Rightarrow> bool list" where
  "probes_of a xs = map snd (filter (\<lambda>x. fst x = a) xs)"

lemma probe_trace_append:
  "probe_trace c (xs @ ys) bs =
     (fst (probe_trace c ys (fst (probe_trace c xs bs))),
      snd (probe_trace c xs bs) @ snd (probe_trace c ys (fst (probe_trace c xs bs))))"
  by (induction xs arbitrary: bs) (auto split: prod.splits)

lemma health_probe_set:
  "fst (health_probe c a ok bs) = probe_history (failure_threshold c) (recovery_threshold c) a [ok] bs"
  by (simp add: health_probe_def Let_def)

lemma health_probe_entry:
  "entry_for b (fst (health_probe c a ok bs)) =
     (if b = a then map_option (entry_probe (failure_threshold c) (recovery_threshold c) ok) (entry_for b bs)
      else entry_for b bs)"
  by (cases "entry_for a bs") (simp_all add: health_probe_set entry_for_probe entry_probe_def)

lemma health_probe_addresses [simp]: "addresses (fst (health_probe c a ok bs)) = addresses bs"
  by (simp add: health_probe_set)

text \<open>Every backend's entry depends on the probes of that backend alone, as the specification says.\<close>

lemma probe_trace_entry:
  assumes "a \<in> set addrs"
  shows "\<exists>e. entry_for a (fst (probe_trace c xs (new_backend_set addrs))) = Some e
     \<and> entry_matches (failure_threshold c) (recovery_threshold c) (rev (probes_of a xs)) e"
proof (induction xs rule: rev_induct)
  case Nil
  then show ?case using assms by (simp add: entry_for_new probes_of_def entry_matches_new)
next
  case (snoc x xs)
  then obtain e where "entry_for a (fst (probe_trace c xs (new_backend_set addrs))) = Some e"
    "entry_matches (failure_threshold c) (recovery_threshold c) (rev (probes_of a xs)) e" by blast
  with entry_matches_probe [OF this(2), of "snd x"] show ?case
    by (cases x) (auto simp: probe_trace_append health_probe_entry probes_of_def split_beta)
qed

lemma probe_trace_healthy:
  assumes "a \<in> set addrs"
  shows "is_healthy a (fst (probe_trace c xs (new_backend_set addrs)))
     \<longleftrightarrow> health_spec (unat (failure_threshold c)) (unat (recovery_threshold c)) (rev (probes_of a xs))"
  using probe_trace_entry [OF assms, of c xs] by (auto simp: is_healthy_def entry_matches_def)

text \<open>The events of a backend alternate, and their number tells its state.\<close>

definition events_of :: "socket_addr \<Rightarrow> (socket_addr \<times> log_record) list \<Rightarrow> log_record list" where
  "events_of a evs = map snd (filter (\<lambda>x. fst x = a) evs)"

definition alternating :: "socket_addr \<Rightarrow> nat \<Rightarrow> log_record list" where
  "alternating a n = map (\<lambda>i. if even i then unhealthy_record a else recovered_record a) [0..<n]"

lemma alternating_Suc:
  "alternating a (Suc n) = alternating a n @ [if even n then unhealthy_record a else recovered_record a]"
  by (simp add: alternating_def)

lemma health_probe_event:
  assumes "entry_for a bs \<noteq> None"
  shows "snd (health_probe c a ok bs) =
     (if is_healthy a (fst (health_probe c a ok bs)) = is_healthy a bs then None
      else if is_healthy a bs then Some (unhealthy_record a) else Some (recovered_record a))"
proof -
  obtain e where e: "entry_for a bs = Some e" using assms by auto
  then have h: "is_healthy a bs = be_healthy e"
    "is_healthy a (fst (health_probe c a ok bs))
       = be_healthy (entry_probe (failure_threshold c) (recovery_threshold c) ok e)"
    by (simp_all add: is_healthy_def health_probe_entry)
  have "be_healthy (entry_success n e) = be_healthy e" if "be_healthy e" for n
    using that by (simp add: entry_success_def Let_def)
  moreover have "be_healthy (entry_failure n e) = be_healthy e" if "\<not> be_healthy e" for n
    using that by (simp add: entry_failure_def Let_def)
  ultimately show ?thesis
    using h by (cases ok; cases "be_healthy e") (auto simp: health_probe_def Let_def entry_probe_def)
qed

lemma probe_trace_events:
  assumes "a \<in> set addrs"
  shows "\<exists>n. events_of a (snd (probe_trace c xs (new_backend_set addrs))) = alternating a n
     \<and> (is_healthy a (fst (probe_trace c xs (new_backend_set addrs))) \<longleftrightarrow> even n)"
proof (induction xs rule: rev_induct)
  case Nil
  then show ?case using assms
    by (intro exI [of _ 0])
       (simp add: events_of_def alternating_def is_healthy_def entry_for_new new_entry_def)
next
  case (snoc x xs)
  define bs where "bs = fst (probe_trace c xs (new_backend_set addrs))"
  obtain b ok where x: "x = (b, ok)" by force
  from snoc obtain n where n: "events_of a (snd (probe_trace c xs (new_backend_set addrs))) = alternating a n"
    "is_healthy a bs \<longleftrightarrow> even n" by (auto simp: bs_def)
  show ?case
  proof (cases "b = a")
    case False
    then have "is_healthy a (fst (health_probe c b ok bs)) = is_healthy a bs"
      by (simp add: is_healthy_def health_probe_entry)
    with n False show ?thesis
      by (intro exI [of _ n])
         (auto simp: probe_trace_append x bs_def events_of_def split_beta split: option.splits)
  next
    case True
    have "entry_for a bs \<noteq> None" using probe_trace_entry [OF assms, of c xs] by (auto simp: bs_def)
    note ev = health_probe_event [OF this, of c ok]
    define bs' where "bs' = fst (health_probe c a ok bs)"
    have t: "fst (probe_trace c (xs @ [x]) (new_backend_set addrs)) = bs'"
      "events_of a (snd (probe_trace c (xs @ [x]) (new_backend_set addrs)))
         = alternating a n @ (case snd (health_probe c a ok bs) of Some r \<Rightarrow> [r] | None \<Rightarrow> [])"
      using n(1) True
      by (auto simp: probe_trace_append x bs_def bs'_def events_of_def split_beta split: option.splits)
    show ?thesis
    proof (cases "is_healthy a bs' = is_healthy a bs")
      case True
      with t n ev show ?thesis by (intro exI [of _ n]) (simp add: bs'_def)
    next
      case False
      with t n ev show ?thesis
        by (intro exI [of _ "Suc n"]) (simp add: bs'_def alternating_Suc)
    qed
  qed
qed

section \<open>The loop follows the trace\<close>

text \<open>The probes of a run: the load before each and its address. Every load before a probe read
  \<open>False\<close>.\<close>

definition probes_at :: "(nat \<Rightarrow> bool) \<Rightarrow> (nat \<times> socket_addr) list \<Rightarrow> (socket_addr \<times> bool) list" where
  "probes_at probe ns = map (\<lambda>(n, a). (a, probe n)) ns"

definition valid_probes :: "(nat \<Rightarrow> bool) \<Rightarrow> socket_addr list \<Rightarrow> nat \<Rightarrow> nat \<Rightarrow> (nat \<times> socket_addr) list \<Rightarrow> bool" where
  "valid_probes stop addrs n m ns \<longleftrightarrow>
     sorted_wrt (<) (map fst ns) \<and> (\<forall>(i, a)\<in>set ns. n \<le> i \<and> i < m \<and> \<not> stop i \<and> a \<in> set addrs)"

definition follows ::
  "('k \<Rightarrow> log_record \<Rightarrow> 'k) \<Rightarrow> health_config \<Rightarrow> (socket_addr \<times> bool) list
    \<Rightarrow> backend_set \<times> 'k \<Rightarrow> backend_set \<times> 'k \<Rightarrow> bool" where
  "follows emit c xs st st' \<longleftrightarrow>
     fst st' = fst (probe_trace c xs (fst st))
     \<and> snd st' = foldl emit (snd st) (map snd (snd (probe_trace c xs (fst st))))"

lemma follows_Nil: "follows emit c [] st st"
  by (simp add: follows_def)

lemma follows_append:
  "follows emit c xs st st1 \<Longrightarrow> follows emit c ys st1 st2 \<Longrightarrow> follows emit c (xs @ ys) st st2"
  by (simp add: follows_def probe_trace_append)

lemma follows_probe:
  "health_probe c a ok bs = (bs', ev) \<Longrightarrow> follows emit c [(a, ok)] (bs, k) (bs', emit_event emit k ev)"
  by (simp add: follows_def emit_event_def split: option.splits)

lemma health_round_follows:
  assumes "health_round stop probe emit c addrs n st = (b, m, st')"
  shows "n \<le> m \<and> (\<exists>ns. valid_probes stop addrs n m ns \<and> follows emit c (probes_at probe ns) st st'
           \<and> (\<not> b \<longrightarrow> map snd ns = addrs))"
  using assms
proof (induction stop probe emit c addrs n st rule: health_round.induct)
  case (1 stop probe emit c n st)
  then show ?case
    by (auto simp: valid_probes_def probes_at_def follows_Nil intro!: exI [of _ "[]"])
next
  case (2 stop probe emit c a addrs n bs k)
  show ?case
  proof (cases "stop n")
    case True
    with "2.prems" show ?thesis
      by (auto simp: valid_probes_def probes_at_def follows_Nil intro!: exI [of _ "[]"])
  next
    case False
    obtain bs' ev where h: "health_probe c a (probe n) bs = (bs', ev)" by force
    with "2.prems" False have "health_round stop probe emit c addrs (Suc n) (bs', emit_event emit k ev)
      = (b, m, st')" by simp
    from "2.IH" [OF False h [symmetric] this] obtain ns where
      ns: "Suc n \<le> m" "valid_probes stop addrs (Suc n) m ns"
      "follows emit c (probes_at probe ns) (bs', emit_event emit k ev) st'" "\<not> b \<longrightarrow> map snd ns = addrs"
      by blast
    have "follows emit c (probes_at probe ((n, a) # ns)) (bs, k) st'"
      using follows_append [OF follows_probe [OF h] ns(3)] by (simp add: probes_at_def)
    moreover have "valid_probes stop (a # addrs) n m ((n, a) # ns)"
      using ns(1,2) False by (fastforce simp: valid_probes_def)
    ultimately show ?thesis using ns(1,4) by (intro conjI exI [of _ "(n, a) # ns"]) auto
  qed
qed

lemma valid_probes_append:
  assumes "valid_probes stop addrs n m ns" "valid_probes stop addrs m' k ms" "n \<le> m'" "m \<le> m'" "m' \<le> k"
  shows "valid_probes stop addrs n k (ns @ ms)"
  using assms by (fastforce simp: valid_probes_def sorted_wrt_append)

lemma valid_probes_weaken:
  "valid_probes stop addrs n m ns \<Longrightarrow> n' \<le> n \<Longrightarrow> m \<le> m' \<Longrightarrow> valid_probes stop addrs n' m' ns"
  by (fastforce simp: valid_probes_def)

lemma health_iterate_follows:
  assumes "health_iterate stop probe emit c addrs n st = Some (m, st')"
  shows "n \<le> m \<and> (\<exists>ns. valid_probes stop addrs n m ns \<and> follows emit c (probes_at probe ns) st st')"
proof -
  have "n \<le> fst r \<and> (\<exists>ns. valid_probes stop addrs n (fst r) ns
      \<and> follows emit c (probes_at probe ns) st (snd r))"
    if "health_iterate stop probe emit c addrs n st = Some r" for r
    using that
  proof (induction stop probe emit c addrs n st r rule: health_iterate.raw_induct [rotated, consumes 1])
    case (1 it stop probe emit c addrs n st r)
    show ?case
    proof (cases "stop n")
      case True
      with "1.hyps" show ?thesis
        by (auto simp: valid_probes_def probes_at_def follows_Nil intro!: exI [of _ "[]"])
    next
      case False
      obtain b k s1 where h: "health_round stop probe emit c addrs (Suc n) st = (b, k, s1)"
        by (metis prod_cases3)
      from health_round_follows [OF h] obtain ns where ns: "Suc n \<le> k"
        "valid_probes stop addrs (Suc n) k ns" "follows emit c (probes_at probe ns) st s1" by blast
      have v: "valid_probes stop addrs n k ns" using ns(2) by (rule valid_probes_weaken) simp_all
      show ?thesis
      proof (cases b)
        case True
        with False h "1.hyps" have "r = (k, s1)" by simp
        with v ns show ?thesis by auto
      next
        case b: False
        let ?j = "fst (sleep_interruptible stop k (interval c))"
        have "it stop probe emit c addrs ?j s1 = Some r" using False h b "1.hyps" by simp
        from "1.IH" [OF this] obtain ms where ms: "?j \<le> fst r"
          "valid_probes stop addrs ?j (fst r) ms" "follows emit c (probes_at probe ms) s1 (snd r)" by blast
        have "k \<le> ?j" by (rule sleep_loads_mono)
        with valid_probes_append [OF v ms(2)] ns(1) ms(1)
        have "valid_probes stop addrs n (fst r) (ns @ ms)" by simp
        moreover have "follows emit c (probes_at probe (ns @ ms)) st (snd r)"
          using follows_append [OF ns(3) ms(3)] by (simp add: probes_at_def)
        ultimately show ?thesis using \<open>k \<le> ?j\<close> ns(1) ms(1) by (intro conjI exI [of _ "ns @ ms"]) auto
      qed
    qed
  qed
  from this [OF assms] show ?thesis by simp
qed

lemma health_iterate_returns:
  assumes "\<And>i. N \<le> i \<Longrightarrow> stop i"
  shows "\<exists>m st'. health_iterate stop probe emit c addrs n st = Some (m, st')"
proof (induction "N - n" arbitrary: n st rule: less_induct)
  case less
  show ?case
  proof (cases "stop n")
    case True
    then show ?thesis by (subst health_iterate.simps) simp
  next
    case False
    then have "n < N" using assms by (metis not_less)
    obtain b k s1 where h: "health_round stop probe emit c addrs (Suc n) st = (b, k, s1)"
      by (metis prod_cases3)
    let ?j = "fst (sleep_interruptible stop k (interval c))"
    have "Suc n \<le> k" using health_round_follows [OF h] by simp
    moreover have "k \<le> ?j" by (rule sleep_loads_mono)
    ultimately have "N - ?j < N - n" using \<open>n < N\<close> by linarith
    from less [OF this] obtain m st' where
      "health_iterate stop probe emit c addrs ?j s1 = Some (m, st')" by blast
    with False h show ?thesis by (subst health_iterate.simps) (cases b; simp)
  qed
qed

lemma health_loop_returns:
  "(\<And>i. N \<le> i \<Longrightarrow> stop i) \<Longrightarrow> \<exists>st. health_loop stop probe emit c bs k = Some st"
  using health_iterate_returns [of N stop probe emit c "addresses bs" 0 "(bs, k)"]
  by (fastforce simp: health_loop_def)

lemma addresses_new [simp]: "addresses (new_backend_set addrs) = addrs"
  by (induction addrs) (simp_all add: addresses_def new_backend_set_def new_entry_def comp_def)

lemma health_loop_follows:
  assumes "health_loop stop probe emit c (new_backend_set addrs) k = Some (bs, k')"
  obtains ns m where "valid_probes stop addrs 0 m ns"
    "bs = fst (probe_trace c (probes_at probe ns) (new_backend_set addrs))"
    "k' = foldl emit k (map snd (snd (probe_trace c (probes_at probe ns) (new_backend_set addrs))))"
proof -
  from assms obtain m where
    "health_iterate stop probe emit c addrs 0 (new_backend_set addrs, k) = Some (m, (bs, k'))"
    by (auto simp: health_loop_def)
  from health_iterate_follows [OF this] show thesis using that by (auto simp: follows_def)
qed

end
