(* ===== verification/Balancer.thy ===== *)
theory Balancer
  imports Shutdown Health_Monitor
begin

text \<open>
  \<open>src/src/balancer.rs\<close>, \<open>src/src/core/mod.rs\<close> and \<open>src/src/main.rs\<close>: building the balancer,
  running it, accepting a connection, the metrics snapshot, the shutdown, and the two entry
  points. The registry of backends lives in the routing state of the shared world. The
  parser of socket addresses is a parameter.
\<close>

section \<open>Building\<close>

record balancer =
  bl_config :: balancer_config
  bl_state :: "round_robin pool_state"
  bl_health_running :: bool
  bl_listener :: bool

definition balancer_build ::
  "logger mzani_result \<Rightarrow> instant \<Rightarrow> balancer_config \<Rightarrow> balancer mzani_result" where
  "balancer_build mk_logger now c =
    and_then (validate_config c) (\<lambda>_.
    let bs = new_backend_set (backends c)
    in and_then (context_from_config c bs) (\<lambda>(cx, ro).
       and_then (pool_new mk_logger now (rr_backend_addresses ro) cx ro (pool c)) (\<lambda>(p, cx', w, logger).
       if \<not> pl_log_tx p then Inl (LoggerInit (lit ''log channel not attached''))
       else
         let w' = w\<lparr>wd_log := clone_sender (wd_log w)\<rparr>
         in Inr \<lparr>bl_config = c, bl_state = start_state now (p, cx', w', logger),
                 bl_health_running = True, bl_listener = False\<rparr>)))"

section \<open>Accepting\<close>

text \<open>What becomes of an accepted stream.\<close>

datatype accept_outcome = Queued | TurnedAway socket | Rejected socket | Discarded socket

definition accept_connection ::
  "balancer_config \<Rightarrow> proxy_context \<Rightarrow> socket \<Rightarrow> pool \<Rightarrow> 'r world \<Rightarrow> accept_outcome \<times> pool \<times> 'r world" where
  "accept_connection c cx sk p w =
    (case set_read_timeout (accept_read (timeouts c)) sk of
       Inl e \<Rightarrow> (Discarded sk, p,
         log_accept_event cx (lit ''accept_read_timeout_set_failed'') Warn [(lit ''error'', err_text e)] w)
     | Inr _ \<Rightarrow>
         if pl_shutting_down p
         then (TurnedAway (snd (write_service_unavailable (lit ''shutting down'') sk)), p, w)
         else case submit sk p of
                (Inr _, p') \<Rightarrow> (Queued, p', w)
              | (Inl (e, sk'), p') \<Rightarrow>
                  if e = PoolFull
                  then (case reject_pool_full cx sk' w of (sk'', w') \<Rightarrow> (Rejected sk'', p', w'))
                  else if e = ShutdownInProgress
                  then (TurnedAway (snd (write_service_unavailable (lit ''shutting down'') sk')), p', w)
                  else (Discarded sk', p',
                        log_accept_event cx (lit ''pool_submit_error'') Warn
                          [(lit ''error'', display_error e)] w))"

text \<open>The body of the loop of \<open>run_on_listener\<close>, for the next result of \<open>incoming\<close>.\<close>

definition accept_turn ::
  "balancer_config \<Rightarrow> proxy_context \<Rightarrow> io_error + socket \<Rightarrow> pool \<Rightarrow> 'r world
    \<Rightarrow> accept_outcome option \<times> pool \<times> 'r world" where
  "accept_turn c cx incoming p w =
    (case incoming of
       Inr sk \<Rightarrow> (case accept_connection c cx sk p w of (oc, p', w') \<Rightarrow> (Some oc, p', w'))
     | Inl e \<Rightarrow> (None, p,
         log_accept_event cx (lit ''accept_error'') Error
           [(lit ''error'', err_text e), (lit ''listen'', format_addr (listen c))] w))"

text \<open>\<open>run_on_listener\<close> on the results \<open>incoming\<close> has given so far.\<close>

fun run_on_listener ::
  "balancer_config \<Rightarrow> proxy_context \<Rightarrow> (io_error + socket) list \<Rightarrow> pool \<Rightarrow> 'r world
    \<Rightarrow> accept_outcome option list \<times> pool \<times> 'r world" where
  "run_on_listener c cx [] p w = ([], p, w)"
| "run_on_listener c cx (x # xs) p w =
    (case accept_turn c cx x p w of
       (oc, p1, w1) \<Rightarrow> (case run_on_listener c cx xs p1 w1 of (ocs, p2, w2) \<Rightarrow> (oc # ocs, p2, w2)))"

section \<open>Metrics and shutdown\<close>

definition balancer_metrics_snapshot :: "'r world \<Rightarrow> metrics_snapshot" where
  "balancer_metrics_snapshot w = snapshot (wd_dropped w) (wd_metrics w)"

record shutdown_report =
  sr_connections_dropped :: u64
  sr_joined_cleanly :: bool

definition shutdown_slice :: duration where
  "shutdown_slice = from_millis 25"

text \<open>The loop that sleeps until the deadline, on the time left; the result is the time slept.\<close>

function await_deadline :: "duration \<Rightarrow> duration" where
  "await_deadline left =
    (if 0 < left then shutdown_slice + await_deadline (left - shutdown_slice) else 0)"
  by pat_completeness auto

termination
  by (relation "measure id") (auto simp: shutdown_slice_def from_millis_def)

declare await_deadline.simps [simp del]

text \<open>\<open>shutdown\<close>: the health thread is stopped and joined, which drops its log sender. The
  result carries the time spent waiting for the deadline.\<close>

definition stop_health :: "balancer \<Rightarrow> balancer" where
  "stop_health b =
    (if bl_health_running b
     then b\<lparr>bl_health_running := False,
            bl_state := (bl_state b)\<lparr>ps_world := (ps_world (bl_state b))
              \<lparr>wd_log := drop_sender (wd_log (ps_world (bl_state b)))\<rparr>\<rparr>\<rparr>
     else b)"

definition balancer_shutdown ::
  "(metrics \<Rightarrow> socket_addr list) \<Rightarrow> (nat \<Rightarrow> nat \<Rightarrow> instant) \<Rightarrow> instant \<Rightarrow> bool \<Rightarrow> duration \<Rightarrow> balancer
    \<Rightarrow> (shutdown_report mzani_result \<times> duration \<times> socket list \<times> balancer) option" where
  "balancer_shutdown order clock now ctx_shared grace b =
    (let b1 = (stop_health (b\<lparr>bl_state := (bl_state b)
                 \<lparr>ps_pool := (ps_pool (bl_state b))\<lparr>pl_shutting_down := True\<rparr>\<rparr>\<rparr>))\<lparr>bl_listener := False\<rparr>;
         s2 = (bl_state b1)\<lparr>ps_pool := stop_accepting (ps_pool (bl_state b1))\<rparr>;
         waited = await_deadline grace
     in map_option (\<lambda>(r, replied, s3).
          (case r of
             Inl _ \<Rightarrow> Inl ShutdownTimeout
           | Inr _ \<Rightarrow> Inr \<lparr>sr_connections_dropped = 0, sr_joined_cleanly = True\<rparr>,
           waited, replied, b1\<lparr>bl_state := s3\<rparr>))
        (shutdown_threads order clock now ctx_shared s2))"

text \<open>\<open>Drop for Balancer\<close>, which also runs at the end of \<open>shutdown\<close>.\<close>

definition balancer_drop ::
  "(metrics \<Rightarrow> socket_addr list) \<Rightarrow> (nat \<Rightarrow> nat \<Rightarrow> instant) \<Rightarrow> instant \<Rightarrow> bool \<Rightarrow> balancer \<Rightarrow> (socket list \<times> balancer) option" where
  "balancer_drop order clock now ctx_shared b =
    (let b1 = stop_health (b\<lparr>bl_state := (bl_state b)
                \<lparr>ps_pool := (ps_pool (bl_state b))\<lparr>pl_shutting_down := True\<rparr>\<rparr>\<rparr>)
     in map_option (\<lambda>(_, replied, s'). (replied, b1\<lparr>bl_state := s'\<rparr>))
          (shutdown_threads order clock now ctx_shared (bl_state b1)))"

section \<open>The entry points\<close>

text \<open>\<open>run\<close>: \<open>bind\<close> gives an error or a listener, which is what \<open>incoming\<close> gives.\<close>

definition balancer_run ::
  "(socket_addr \<Rightarrow> io_error + (io_error + socket) list) \<Rightarrow> balancer
    \<Rightarrow> unit mzani_result \<times> accept_outcome option list \<times> balancer" where
  "balancer_run bind b =
    (case bind (listen (bl_config b)) of
       Inl e \<Rightarrow> (Inl (from_io e), [], b)
     | Inr listener \<Rightarrow>
         (case run_on_listener (bl_config b) (ps_context (bl_state b)) listener (ps_pool (bl_state b))
            (ps_world (bl_state b)) of
            (ocs, p, w) \<Rightarrow> (Inr (), ocs, b\<lparr>bl_state := (bl_state b)\<lparr>ps_pool := p, ps_world := w\<rparr>\<rparr>)))"

text \<open>What both entry points do with a configuration: build, run, and drop the balancer at the end
  of the scope.\<close>

definition build_and_run ::
  "(metrics \<Rightarrow> socket_addr list) \<Rightarrow> (nat \<Rightarrow> nat \<Rightarrow> instant) \<Rightarrow> instant
    \<Rightarrow> (socket_addr \<Rightarrow> io_error + (io_error + socket) list)
    \<Rightarrow> logger mzani_result \<Rightarrow> instant \<Rightarrow> balancer_config \<Rightarrow> unit mzani_result option" where
  "build_and_run order clock now bind mk_logger start c =
    (case balancer_build mk_logger start c of
       Inl e \<Rightarrow> Some (Inl e)
     | Inr b \<Rightarrow>
         (case balancer_run bind b of (r, _, b') \<Rightarrow> map_option (\<lambda>_. r) (balancer_drop order clock now False b')))"

text \<open>The configuration \<open>create_server\<close> rebuilds from a context; \<open>addrs\<close> are its target
  servers.\<close>

definition create_server_config :: "proxy_context \<Rightarrow> socket_addr list \<Rightarrow> balancer_config" where
  "create_server_config cx addrs =
    default_config\<lparr>listen := cx_socket_addr cx, backends := addrs, log_dir := cx_log_dir cx,
      limits := cx_limits cx, timeouts := cx_timeouts cx\<rparr>"

definition create_server ::
  "(metrics \<Rightarrow> socket_addr list) \<Rightarrow> (nat \<Rightarrow> nat \<Rightarrow> instant) \<Rightarrow> instant
    \<Rightarrow> (socket_addr \<Rightarrow> io_error + (io_error + socket) list)
    \<Rightarrow> logger mzani_result \<Rightarrow> instant \<Rightarrow> proxy_context \<Rightarrow> round_robin \<Rightarrow> unit mzani_result option" where
  "create_server order clock now bind mk_logger start cx ro =
    build_and_run order clock now bind mk_logger start (create_server_config cx (rr_backend_addresses ro))"

definition listen_addr_from_env ::
  "(str \<Rightarrow> str + socket_addr) \<Rightarrow> str option \<Rightarrow> socket_addr mzani_result" where
  "listen_addr_from_env parse var =
    map_err (\<lambda>e. ParseError (lit ''invalid MZANI_LISTEN: '' @ e))
      (parse (case var of Some s \<Rightarrow> s | None \<Rightarrow> lit ''127.0.0.1:8080''))"

text \<open>\<open>str::split\<close> on a character.\<close>

fun split_char :: "rchar \<Rightarrow> str \<Rightarrow> str list" where
  "split_char d [] = [[]]"
| "split_char d (c # s) =
    (if c = d then [] # split_char d s
     else case split_char d s of p # ps \<Rightarrow> (c # p) # ps | [] \<Rightarrow> [[c]])"

fun parse_backends :: "(str \<Rightarrow> str + socket_addr) \<Rightarrow> str list \<Rightarrow> socket_addr list mzani_result" where
  "parse_backends parse [] = Inr []"
| "parse_backends parse (part # parts) =
    (let trimmed = trim part
     in if trimmed = [] then parse_backends parse parts
        else and_then (map_err (\<lambda>e. ParseError (lit ''invalid backend '' @ trimmed @ lit '': '' @ e)) (parse trimmed))
               (\<lambda>a. and_then (parse_backends parse parts) (\<lambda>as. Inr (a # as))))"

definition backends_from_env ::
  "(str \<Rightarrow> str + socket_addr) \<Rightarrow> str option \<Rightarrow> socket_addr list mzani_result" where
  "backends_from_env parse var =
    (let raw = (case var of Some s \<Rightarrow> s | None \<Rightarrow> lit ''127.0.0.1:3333,127.0.0.1:3334'')
     in and_then (parse_backends parse (split_char 44 raw)) (\<lambda>addrs.
          if addrs = [] then Inl EmptyServerList else Inr addrs))"

definition main_config ::
  "(str \<Rightarrow> str + socket_addr) \<Rightarrow> str option \<Rightarrow> str option \<Rightarrow> balancer_config mzani_result" where
  "main_config parse listen_var backends_var =
    and_then (listen_addr_from_env parse listen_var) (\<lambda>a.
    and_then (backends_from_env parse backends_var) (\<lambda>bs.
      Inr (default_config\<lparr>listen := a, backends := bs\<rparr>)))"

definition main_program ::
  "(metrics \<Rightarrow> socket_addr list) \<Rightarrow> (nat \<Rightarrow> nat \<Rightarrow> instant) \<Rightarrow> instant
    \<Rightarrow> (socket_addr \<Rightarrow> io_error + (io_error + socket) list)
    \<Rightarrow> logger mzani_result \<Rightarrow> instant \<Rightarrow> (str \<Rightarrow> str + socket_addr) \<Rightarrow> str option \<Rightarrow> str option
    \<Rightarrow> unit mzani_result option" where
  "main_program order clock now bind mk_logger start parse listen_var backends_var =
    (case main_config parse listen_var backends_var of
       Inl e \<Rightarrow> Some (Inl e)
     | Inr c \<Rightarrow> build_and_run order clock now bind mk_logger start c)"

section \<open>Lemmas\<close>

lemma balancer_build_running:
  assumes "balancer_build mk_logger now c = Inr b"
  shows "running 1 (bl_state b) \<and> bl_health_running b \<and> validate_config c = Inr ()
    \<and> rr_backend_addresses (wd_routing (ps_world (bl_state b))) = backends c"
proof -
  from assms obtain cx ro p cx' w logger where
    b: "validate_config c = Inr ()" "context_from_config c (new_backend_set (backends c)) = Inr (cx, ro)"
      "pool_new mk_logger now (rr_backend_addresses ro) cx ro (pool c) = Inr (p, cx', w, logger)"
      "b = \<lparr>bl_config = c, bl_state = start_state now (p, cx', w\<lparr>wd_log := clone_sender (wd_log w)\<rparr>, logger),
            bl_health_running = True, bl_listener = False\<rparr>"
    by (auto simp: balancer_build_def Let_def result_simps split: if_splits)
  have "running 0 (start_state now (p, cx', w, logger))" using b(3) by (rule pool_new_running)
  then have "running 1 (bl_state b)"
    by (simp add: b(4) running_def start_state_def Let_def clone_sender_def)
  moreover have "ro = rr_new (new_backend_set (backends c))"
    using b(1,2) by (auto simp: context_from_config_def)
  moreover have "wd_routing w = ro"
    using b(3) by (auto simp: pool_new_def observability_start_def Let_def result_simps)
  ultimately show ?thesis
    using b(1) by (simp add: b(4) start_state_def rr_backend_addresses_def rr_new_def)
qed

lemma await_deadline_bounds: "grace \<le> await_deadline grace \<and> await_deadline grace < grace + shutdown_slice"
proof (induction grace rule: await_deadline.induct)
  case (1 left)
  have s: "0 < shutdown_slice" by (simp add: shutdown_slice_def from_millis_def)
  show ?case
  proof (cases "0 < left")
    case True
    have "await_deadline 0 = 0" by (simp add: await_deadline.simps)
    with 1 s True show ?thesis
      by (cases "left \<le> shutdown_slice") (simp_all add: await_deadline.simps [of left], linarith)
  qed (use s in \<open>simp add: await_deadline.simps\<close>)
qed

lemma create_server_config_drops:
  "max_backend_retries (create_server_config cx addrs) = 1"
  "health (create_server_config cx addrs) = default_health"
  "pool (create_server_config cx addrs) = default_pool"
  by (simp_all add: create_server_config_def default_config_def)

lemma split_char_not_Nil [simp]: "split_char d s \<noteq> []"
  by (induction s) (auto split: list.splits)

lemma split_char_parts:
  "join_with [d] (split_char d s) = s" "p \<in> set (split_char d s) \<Longrightarrow> d \<notin> set p"
proof -
  show "join_with [d] (split_char d s) = s"
  proof (induction s)
    case (Cons c s)
    obtain p ps where "split_char d s = p # ps" by (cases "split_char d s") auto
    with Cons show ?case by (cases ps) auto
  qed simp
  show "p \<in> set (split_char d s) \<Longrightarrow> d \<notin> set p"
    by (induction s arbitrary: p) (fastforce split: if_splits list.splits)+
qed

lemma parse_backends_ok:
  "parse_backends parse parts = Inr as \<longleftrightarrow>
     list_all2 (\<lambda>part a. parse part = Inr a) (filter (\<lambda>p. p \<noteq> []) (map trim parts)) as"
proof (induction parts arbitrary: as)
  case Nil
  then show ?case by auto
next
  case (Cons part parts)
  show ?case
  proof (cases "trim part = []")
    case True
    with Cons show ?thesis by simp
  next
    case False
    with Cons show ?thesis by (cases as) (auto simp: Let_def result_simps)
  qed
qed

lemma main_config_valid:
  assumes "main_config parse listen_var backends_var = Inr c"
  shows "validate_config c = Inr ()"
proof -
  from assms obtain a bs where b: "backends_from_env parse backends_var = Inr bs"
    "c = default_config\<lparr>listen := a, backends := bs\<rparr>"
    by (auto simp: main_config_def result_simps)
  then have "bs \<noteq> []" by (auto simp: backends_from_env_def Let_def result_simps split: if_splits)
  then show ?thesis unfolding b(2) by (rule default_config_valid_with_backends)
qed

lemma main_config_errors:
  assumes "main_config parse listen_var backends_var = Inl e"
  shows "e = EmptyServerList \<or> (\<exists>t. e = ParseError t)"
proof -
  have "\<exists>t. e = ParseError t" if "parse_backends parse parts = Inl e" for parts
    using that by (induction parts) (auto simp: Let_def result_simps split: if_splits)
  with assms show ?thesis
    by (auto simp: main_config_def listen_addr_from_env_def backends_from_env_def Let_def result_simps split: if_splits)
qed

text \<open>The state on which \<open>shutdown\<close> joins the threads.\<close>

definition before_join :: "balancer \<Rightarrow> round_robin pool_state" where
  "before_join b =
    (let s = bl_state b; p = (ps_pool s)\<lparr>pl_shutting_down := True\<rparr>
     in s\<lparr>ps_pool := stop_accepting p,
          ps_world := (ps_world s)\<lparr>wd_log := drop_sender (wd_log (ps_world s))\<rparr>\<rparr>)"

lemma before_join_running:
  assumes "running (Suc extra) (bl_state b)"
  shows "running extra (before_join b)"
    and "map queue (pl_queues (ps_pool (before_join b))) = map queue (pl_queues (ps_pool (bl_state b)))"
proof -
  define s where "s = (bl_state b)\<lparr>ps_pool := (ps_pool (bl_state b))\<lparr>pl_shutting_down := True\<rparr>,
      ps_world := (ps_world (bl_state b))\<lparr>wd_log := drop_sender (wd_log (ps_world (bl_state b)))\<rparr>\<rparr>"
  have r: "running extra s" using assms by (simp add: running_def Let_def s_def drop_sender_def)
  have e: "before_join b = s\<lparr>ps_pool := stop_accepting (ps_pool s)\<rparr>"
    by (simp add: before_join_def s_def Let_def)
  show "running extra (before_join b)" unfolding e using r by (rule running_stop_accepting)
  show "map queue (pl_queues (ps_pool (before_join b))) = map queue (pl_queues (ps_pool (bl_state b)))"
    using stop_accepting_closed(2) [OF r] by (simp add: e s_def)
qed

lemma balancer_shutdown_eq:
  assumes "bl_health_running b"
  shows "balancer_shutdown order clock now ctx_shared grace b =
    map_option (\<lambda>(r, replied, s3).
        (case r of Inl _ \<Rightarrow> Inl ShutdownTimeout
         | Inr _ \<Rightarrow> Inr \<lparr>sr_connections_dropped = 0, sr_joined_cleanly = True\<rparr>,
         await_deadline grace, replied,
         b\<lparr>bl_health_running := False, bl_listener := False, bl_state := s3\<rparr>))
      (shutdown_threads order clock now ctx_shared (before_join b))"
proof -
  let ?b1 = "(stop_health (b\<lparr>bl_state := (bl_state b)
                 \<lparr>ps_pool := (ps_pool (bl_state b))\<lparr>pl_shutting_down := True\<rparr>\<rparr>\<rparr>))\<lparr>bl_listener := False\<rparr>"
  have "(bl_state ?b1)\<lparr>ps_pool := stop_accepting (ps_pool (bl_state ?b1))\<rparr> = before_join b"
    using assms by (simp add: stop_health_def before_join_def Let_def)
  moreover have "?b1\<lparr>bl_state := s3\<rparr> = b\<lparr>bl_health_running := False, bl_listener := False, bl_state := s3\<rparr>" for s3
    using assms by (cases b) (simp add: stop_health_def)
  ultimately show ?thesis unfolding balancer_shutdown_def Let_def by simp
qed

lemma balancer_shutdown_returns:
  assumes "running 1 (bl_state b)" "bl_health_running b"
  shows "\<exists>b'. balancer_shutdown order clock now False grace b
      = Some (Inr \<lparr>sr_connections_dropped = 0, sr_joined_cleanly = True\<rparr>, await_deadline grace,
              map shutting_down_reply (concat (map queue (pl_queues (ps_pool (bl_state b))))), b')
    \<and> (\<forall>ch\<in>set (pl_queues (ps_pool (bl_state b'))). queue ch = [])
    \<and> wd_metrics (ps_world (bl_state b'))
        = recorded (queue (wd_stats (ps_world (bl_state b)))) (wd_metrics (ps_world (bl_state b)))"
proof -
  have r: "running 0 (before_join b)" using assms(1) by (intro before_join_running) simp
  have q: "map queue (pl_queues (ps_pool (before_join b))) = map queue (pl_queues (ps_pool (bl_state b)))"
    using assms(1) before_join_running(2) [of 0 b] by simp
  have w: "wd_stats (ps_world (before_join b)) = wd_stats (ps_world (bl_state b))"
    "wd_metrics (ps_world (before_join b)) = wd_metrics (ps_world (bl_state b))"
    by (simp_all add: before_join_def Let_def)
  from shutdown_threads_returns [OF r, of order clock now] obtain s' where
    "shutdown_threads order clock now False (before_join b)
       = Some (Inr (), map shutting_down_reply (concat (map queue (pl_queues (ps_pool (before_join b))))), s')"
    "\<forall>ch\<in>set (pl_queues (ps_pool s')). queue ch = []"
    "wd_metrics (ps_world s') = recorded (queue (wd_stats (ps_world (before_join b))))
       (wd_metrics (ps_world (before_join b)))"
    by blast
  then show ?thesis unfolding balancer_shutdown_eq [OF assms(2)] q w by simp
qed

lemma balancer_shutdown_never_times_out:
  assumes "bl_health_running b" "balancer_shutdown order clock now ctx_shared grace b = Some (r, waited, replied, b')"
  shows "r = Inr \<lparr>sr_connections_dropped = 0, sr_joined_cleanly = True\<rparr> \<and> waited = await_deadline grace"
proof -
  from assms(2) obtain x rep s3 where x: "shutdown_threads order clock now ctx_shared (before_join b) = Some (x, rep, s3)"
    unfolding balancer_shutdown_eq [OF assms(1)] by auto
  then have "x = Inr ()" by (rule shutdown_threads_result)
  with x assms(2) show ?thesis unfolding balancer_shutdown_eq [OF assms(1)] by simp
qed

text \<open>What \<open>shutdown\<close> leaves has no thread to join, so the drop that follows returns at once.\<close>

lemma shutdown_threads_joined:
  assumes "pl_handles (ps_pool s) = []"
  shows "\<exists>s'. shutdown_threads order clock now ctx_shared s = Some (Inr (), [], s')"
  using assms
  by (auto simp: shutdown_threads_def join_workers_def join_metrics_def join_log_def stop_accepting_def
      drop_metrics_tx_def shutdown_log_def Let_def split: prod.splits)

lemma shutdown_threads_handles:
  assumes "shutdown_threads order clock now ctx_shared s = Some (r, replied, s')"
  shows "pl_handles (ps_pool s') = []"
  using assms unfolding shutdown_threads_def
  by (auto simp: Let_def split: prod.splits bind_splits)

lemma balancer_drop_after_shutdown:
  assumes "bl_health_running b" "balancer_shutdown order clock now ctx_shared grace b = Some (r, waited, replied, b')"
  shows "\<exists>b''. balancer_drop order' clock' now' ctx_shared' b' = Some ([], b'')"
proof -
  from assms(2) obtain x rep s3 where x: "shutdown_threads order clock now ctx_shared (before_join b) = Some (x, rep, s3)"
    and b': "b' = b\<lparr>bl_health_running := False, bl_listener := False, bl_state := s3\<rparr>"
    unfolding balancer_shutdown_eq [OF assms(1)] by auto
  have "pl_handles (ps_pool s3) = []" using x by (rule shutdown_threads_handles)
  then have h: "pl_handles (ps_pool (s3\<lparr>ps_pool := (ps_pool s3)\<lparr>pl_shutting_down := True\<rparr>\<rparr>)) = []" by simp
  from shutdown_threads_joined [OF h, of order' clock' now' ctx_shared'] show ?thesis
    by (auto simp: balancer_drop_def stop_health_def b')
qed

text \<open>A balancer that is dropped has its threads joined, as by a shutdown.\<close>

lemma balancer_drop_returns:
  assumes "running 1 (bl_state b)" "bl_health_running b"
  shows "\<exists>x. balancer_drop order clock now False b = Some x"
proof -
  define s where "s = (bl_state b)\<lparr>ps_pool := (ps_pool (bl_state b))\<lparr>pl_shutting_down := True\<rparr>,
      ps_world := (ps_world (bl_state b))\<lparr>wd_log := drop_sender (wd_log (ps_world (bl_state b)))\<rparr>\<rparr>"
  have "running 0 s" using assms(1) by (simp add: running_def Let_def s_def drop_sender_def)
  from shutdown_threads_returns [OF this, of order clock now] assms(2) show ?thesis
    by (auto simp: balancer_drop_def stop_health_def s_def)
qed

text \<open>When the address cannot be bound, the server has stopped all its threads and returns the
  error.\<close>

lemma bind_error_returned:
  assumes "balancer_build mk_logger start c = Inr b" "bind (listen c) = Inl e"
  shows "build_and_run order clock now bind mk_logger start c = Some (Inl (from_io e))"
proof -
  have c: "bl_config b = c" using assms(1)
    by (auto simp: balancer_build_def Let_def result_simps split: if_splits)
  have "\<exists>x. balancer_drop order clock now False b = Some x"
    using balancer_build_running [OF assms(1)] by (intro balancer_drop_returns) simp_all
  with assms c show ?thesis by (auto simp: build_and_run_def balancer_run_def)
qed

end
