(* ===== verification/Proxy_Correct.thy ===== *)
theory Proxy_Correct
  imports Proxy
begin

text \<open>
  The handling of a connection: it always returns; what it sends to the backends and to the
  client; how often and where it tries; what it logs and counts. The lemmas about targets
  are proved from the routing interface and hold for every strategy.
\<close>

section \<open>One attempt\<close>

lemma proxy_to_backend_total: "\<exists>r sk. proxy_to_backend bs l rt conn = Some (r, sk)"
proof -
  have "\<exists>r t. read_http_response tcp_read l (inbound s) = Some (r, t)" for s :: socket
    using tcp.read_http_response_total by blast
  then show ?thesis
    by (fastforce simp: proxy_to_backend_def split: sum.splits prod.splits)
qed

text \<open>The backend has been sent the request, and its answer is a response it sent.\<close>

definition served :: "bytes \<Rightarrow> limits \<Rightarrow> socket \<Rightarrow> socket \<Rightarrow> bytes \<Rightarrow> bool" where
  "served bs l sk sk' m \<longleftrightarrow>
     outbound sk' = outbound sk @ bs
     \<and> (\<exists>raw f body lost. tcp_wire (inbound sk) = raw @ f @ lost @ tcp_wire (inbound sk')
          \<and> forwards raw f body m \<and> length body \<le> max_response_bytes l
          \<and> length raw \<le> max_header_bytes l + header_chunk_size)"

lemma proxy_to_backend_ok:
  assumes "proxy_to_backend bs l rt conn = Some (Inr m, sk')" "max_response_bytes l < usize_bound - 1"
  shows "\<exists>b b'. conn = Inr b \<and> sk' = Some b' \<and> served bs l b b' m"
proof -
  from assms(1) obtain b b1 es where b: "conn = Inr b" "write_all bs b = (Inr (), b1)"
    "read_http_response tcp_read l (inbound b1) = Some (Inr m, es)" "sk' = Some (b1\<lparr>inbound := es\<rparr>)"
    by (auto simp: proxy_to_backend_def split: sum.splits prod.splits)
  have "inbound b1 = inbound b" using b(2) by (auto simp: write_all_def split: option.splits if_splits)
  with tcp.read_http_response_ok [OF b(3) assms(2)] b write_all_ok [OF b(2)] show ?thesis
    by (auto simp: served_def)
qed

text \<open>A backend never receives anything but a prefix of the request.\<close>

lemma proxy_to_backend_outbound:
  assumes "proxy_to_backend bs l rt (Inr b) = Some (r, Some b')"
  shows "\<exists>ds z. outbound b' = outbound b @ ds \<and> bs = ds @ z"
proof -
  from write_all_outbound [of bs b] obtain ds z where
    "outbound (snd (write_all bs b)) = outbound b @ ds" "bs = ds @ z" by blast
  with assms show ?thesis
    by (auto simp: proxy_to_backend_def split: sum.splits prod.splits intro: exI [of _ "[]"])
qed

section \<open>The attempts\<close>

text \<open>Each attempt is one connection, in order; all but the last failed, and the last one gives
  the result.\<close>

fun attempts_made ::
  "bytes \<Rightarrow> limits \<Rightarrow> duration \<Rightarrow> (nat \<Rightarrow> socket_addr \<Rightarrow> io_error + socket) \<Rightarrow> nat \<Rightarrow> bytes mzani_result
    \<Rightarrow> attempt list \<Rightarrow> bool" where
  "attempts_made bs l rt connect k r [] = False"
| "attempts_made bs l rt connect k r [(a, x, sk)] =
     (x = r \<and> proxy_to_backend bs l rt (connect k a) = Some (x, sk))"
| "attempts_made bs l rt connect k r ((a, x, sk) # ats) =
     ((\<exists>e. x = Inl e) \<and> proxy_to_backend bs l rt (connect k a) = Some (x, sk)
      \<and> attempts_made bs l rt connect (Suc k) r ats)"

lemma attempts_made_Cons:
  "ats \<noteq> [] \<Longrightarrow> attempts_made bs l rt connect k r ((a, x, sk) # ats) \<longleftrightarrow>
     (\<exists>e. x = Inl e) \<and> proxy_to_backend bs l rt (connect k a) = Some (x, sk)
      \<and> attempts_made bs l rt connect (Suc k) r ats"
  by (cases ats) auto

lemma attempts_made_not_Nil: "attempts_made bs l rt connect k r ats \<Longrightarrow> ats \<noteq> []"
  by auto

lemma attempts_made_last:
  "attempts_made bs l rt connect k r ats \<Longrightarrow>
     \<exists>a sk. last ats = (a, r, sk)
       \<and> proxy_to_backend bs l rt (connect (k + length ats - 1) a) = Some (r, sk)"
proof (induction bs l rt connect k r ats rule: attempts_made.induct)
  case (3 bs l rt connect k r a x sk v va)
  then show ?case by (simp del: split_paired_Ex)
qed auto

lemma proxy_attempts_total: "\<exists>r ro' ats. proxy_attempts select connect l rt bs k target ro left = Some (r, ro', ats)"
proof (induction left arbitrary: k target ro)
  case 0
  obtain r sk where "proxy_to_backend bs l rt (connect k target) = Some (r, sk)"
    using proxy_to_backend_total by blast
  then show ?case by (cases r) (simp_all add: proxy_attempts.simps)
next
  case (Suc n)
  obtain r sk where p: "proxy_to_backend bs l rt (connect k target) = Some (r, sk)"
    using proxy_to_backend_total by blast
  obtain x ro1 where s: "select ro = (x, ro1)" by force
  from Suc.IH [of "Suc k" "case x of Inr a \<Rightarrow> a | Inl _ \<Rightarrow> target" ro1] obtain r' ro' ats where
    "proxy_attempts select connect l rt bs (Suc k) (case x of Inr a \<Rightarrow> a | Inl _ \<Rightarrow> target) ro1 n
       = Some (r', ro', ats)" by blast
  with p s show ?case by (subst proxy_attempts.simps) (cases r; simp)
qed

lemma proxy_attempts_made:
  "proxy_attempts select connect l rt bs k target ro left = Some (r, ro', ats) \<Longrightarrow>
     attempts_made bs l rt connect k r ats \<and> length ats \<le> Suc left \<and> fst (hd ats) = target
     \<and> ((\<exists>e. r = Inl e) \<longrightarrow> length ats = Suc left)"
proof (induction left arbitrary: k target ro ats)
  case 0
  then show ?case
    by (subst (asm) proxy_attempts.simps) (auto split: option.splits sum.splits)
next
  case (Suc n)
  obtain x sk where p: "proxy_to_backend bs l rt (connect k target) = Some (x, sk)"
    using proxy_to_backend_total by blast
  show ?case
  proof (cases x)
    case (Inr m)
    with p Suc.prems show ?thesis by (subst (asm) proxy_attempts.simps) auto
  next
    case (Inl e)
    obtain y ro1 where s: "select ro = (y, ro1)" by force
    define t where "t = (case y of Inr a \<Rightarrow> a | Inl _ \<Rightarrow> target)"
    from Suc.prems p Inl s obtain ats' where
      a: "proxy_attempts select connect l rt bs (Suc k) t ro1 n = Some (r, ro', ats')"
         "ats = (target, x, sk) # ats'"
      by (subst (asm) proxy_attempts.simps) (auto simp: t_def)
    from Suc.IH [OF a(1)] have h: "attempts_made bs l rt connect (Suc k) r ats'" "length ats' \<le> Suc n"
      "(\<exists>e. r = Inl e) \<longrightarrow> length ats' = Suc n" by auto
    from attempts_made_not_Nil [OF h(1)] h p Inl a(2) show ?thesis
      by (simp add: attempts_made_Cons)
  qed
qed

context routing_strategy
begin

lemma proxy_attempts_targets:
  "proxy_attempts select_backend connect l rt bs k target ro left = Some (r, ro', ats) \<Longrightarrow>
     target \<in> set (backend_addresses ro) \<Longrightarrow>
     fst ` set ats \<subseteq> set (backend_addresses ro) \<and> backend_addresses ro' = backend_addresses ro"
proof (induction left arbitrary: k target ro ats)
  case 0
  then show ?case
    by (subst (asm) proxy_attempts.simps) (auto split: option.splits sum.splits)
next
  case (Suc n)
  obtain x sk where p: "proxy_to_backend bs l rt (connect k target) = Some (x, sk)"
    using proxy_to_backend_total by blast
  show ?case
  proof (cases x)
    case (Inr m)
    with p Suc.prems show ?thesis by (subst (asm) proxy_attempts.simps) auto
  next
    case (Inl e)
    obtain y ro1 where s: "select_backend ro = (y, ro1)" by force
    define t where "t = (case y of Inr a \<Rightarrow> a | Inl _ \<Rightarrow> target)"
    have st: "backend_addresses ro1 = backend_addresses ro" using s by (rule select_stable')
    have "t \<in> set (backend_addresses ro1)"
      using select_member [of ro _ ro1] s Suc.prems(2) st by (cases y) (auto simp: t_def)
    moreover from Suc.prems(1) p Inl s obtain ats' where
      a: "proxy_attempts select_backend connect l rt bs (Suc k) t ro1 n = Some (r, ro', ats')"
         "ats = (target, x, sk) # ats'"
      by (subst (asm) proxy_attempts.simps) (auto simp: t_def)
    ultimately have "fst ` set ats' \<subseteq> set (backend_addresses ro1) \<and> backend_addresses ro' = backend_addresses ro1"
      using Suc.IH by blast
    with a(2) Suc.prems(2) st show ?thesis by auto
  qed
qed

end

lemma proxy_with_retries_made:
  assumes "proxy_with_retries select connect cx bs target ro = Some (r, ro', ats)"
  shows "attempts_made bs (cx_limits cx) (read (cx_timeouts cx)) connect 0 r ats"
    and "length ats \<le> min (unat (cx_max_backend_retries cx) + 1) (2 ^ 32 - 1)"
    and "(\<exists>e. r = Inl e) \<Longrightarrow> length ats = min (unat (cx_max_backend_retries cx) + 1) (2 ^ 32 - 1)"
    and "fst (hd ats) = target"
proof -
  let ?n = "min (unat (cx_max_backend_retries cx) + 1) (2 ^ 32 - 1)"
  have n: "Suc (?n - 1) = ?n" by simp
  have p: "proxy_attempts select connect (cx_limits cx) (read (cx_timeouts cx)) bs 0 target ro (?n - 1)
      = Some (r, ro', ats)"
    using assms by (simp add: proxy_with_retries_def Let_def unat_u32_saturating_add1)
  note q = proxy_attempts_made [OF p, unfolded n]
  show "attempts_made bs (cx_limits cx) (read (cx_timeouts cx)) connect 0 r ats"
    "length ats \<le> ?n" "(\<exists>e. r = Inl e) \<Longrightarrow> length ats = ?n" "fst (hd ats) = target"
    using q by auto
qed

lemma proxy_with_retries_total: "\<exists>r ro' ats. proxy_with_retries select connect cx bs target ro = Some (r, ro', ats)"
  unfolding proxy_with_retries_def Let_def by (rule proxy_attempts_total)

section \<open>Logging\<close>

lemma field_simps [simp]:
  "lr_req_id (field k v r) = lr_req_id r" "lr_event (field k v r) = lr_event r"
  "lr_req_id (with_request req r) = Some (rc_req_id req)"
  by (simp_all add: field_def with_request_def)

lemma emit_log_frame [simp]:
  "wd_routing (emit_log cx r w) = wd_routing w" "wd_stats (emit_log cx r w) = wd_stats w"
  "wd_metrics (emit_log cx r w) = wd_metrics w"
  by (simp_all add: emit_log_def Let_def split: prod.splits sum.splits)

lemma log_request_failed_frame [simp]:
  "wd_routing (log_request_failed cx req el st e w) = wd_routing w"
  "wd_stats (log_request_failed cx req el st e w) = wd_stats w"
  "wd_metrics (log_request_failed cx req el st e w) = wd_metrics w"
  by (simp_all add: log_request_failed_def)

lemma record_metrics_frame [simp]:
  "wd_routing (record_metrics cx st w) = wd_routing w" "wd_log (record_metrics cx st w) = wd_log w"
  "wd_metrics (record_metrics cx st w) = wd_metrics w"
  by (simp_all add: record_metrics_def)

text \<open>The log of a connection only grows, by records that carry its request id or count drops.\<close>

definition logs_for :: "request_context \<Rightarrow> 'r world \<Rightarrow> 'r world \<Rightarrow> bool" where
  "logs_for req w w' \<longleftrightarrow>
     (\<exists>rs. extends (wd_log w) rs (wd_log w')
        \<and> (\<forall>r\<in>set rs. lr_req_id r = Some (rc_req_id req) \<or> lr_event r = lit ''log_dropped''))"

lemma logs_for_refl: "wd_log w' = wd_log w \<Longrightarrow> logs_for req w w'"
  by (auto simp: logs_for_def intro!: exI [of _ "[]"])

lemma logs_for_trans: "logs_for req w w1 \<Longrightarrow> logs_for req w1 w2 \<Longrightarrow> logs_for req w w2"
proof -
  assume "logs_for req w w1" "logs_for req w1 w2"
  then obtain rs rs' where "extends (wd_log w) rs (wd_log w1)" "extends (wd_log w1) rs' (wd_log w2)"
    "\<forall>r\<in>set (rs @ rs'). lr_req_id r = Some (rc_req_id req) \<or> lr_event r = lit ''log_dropped''"
    unfolding logs_for_def by fastforce
  then show ?thesis using extends_trans unfolding logs_for_def by blast
qed

lemma dropped_record_event: "lr_event (dropped_record n) = lit ''log_dropped''"
  by (simp only: dropped_record_def field_simps) (simp add: new_record_def)

lemma emit_log_extends:
  "\<exists>rs. extends (wd_log w) rs (wd_log (emit_log cx r w))
     \<and> (\<forall>x\<in>set rs. x = r \<or> lr_event x = lit ''log_dropped'')"
proof -
  obtain x ch where t: "try_send r (wd_log w) = (x, ch)" by force
  obtain rs where rs: "extends (wd_log w) rs ch" "rs = [] \<or> rs = [r]"
    using try_send_extends [of "wd_log w" r] t by auto
  obtain ds where ds: "extends (wd_log w) ds (snd (try_send (dropped_record (wd_dropped w + 1)) (wd_log w)))"
    "\<forall>x\<in>set ds. lr_event x = lit ''log_dropped''"
    using try_send_extends [of "wd_log w" "dropped_record (wd_dropped w + 1)"] dropped_record_event
    by (metis empty_iff empty_set set_ConsD)
  have "wd_log (emit_log cx r w) = wd_log w \<or> wd_log (emit_log cx r w) = ch
      \<or> wd_log (emit_log cx r w) = snd (try_send (dropped_record (wd_dropped w + 1)) (wd_log w))"
    by (simp add: emit_log_def t Let_def split: sum.splits)
  then show ?thesis
    using rs ds by (elim disjE) (fastforce intro: exI [of _ "[]"] exI [of _ rs] exI [of _ ds])+
qed

lemma logs_for_emit:
  assumes "lr_req_id r = Some (rc_req_id req)"
  shows "logs_for req w (emit_log cx r w)"
  using emit_log_extends [of w cx r] assms unfolding logs_for_def by metis

lemma logs_for_emit' [intro]:
  "logs_for req w w1 \<Longrightarrow> lr_req_id r = Some (rc_req_id req) \<Longrightarrow> logs_for req w (emit_log cx r w1)"
  by (rule logs_for_trans [OF _ logs_for_emit])

lemma logs_for_routing [simp]: "logs_for req w (w1\<lparr>wd_routing := ro\<rparr>) = logs_for req w w1"
  by (simp add: logs_for_def)

lemma logs_for_metrics [simp]: "logs_for req w (record_metrics cx st w1) = logs_for req w w1"
  by (simp add: logs_for_def)

lemma record_ids [simp]:
  "lr_req_id (request_failed_record req el stage e) = Some (rc_req_id req)"
  "lr_req_id (accepted_record cx req client) = Some (rc_req_id req)"
  "lr_req_id (backend_record event req target) = Some (rc_req_id req)"
  "lr_req_id (parsed_record req rq n) = Some (rc_req_id req)"
  "lr_req_id (complete_record req target n k el status) = Some (rc_req_id req)"
  "lr_req_id (slow_record cx req el) = Some (rc_req_id req)"
  unfolding request_failed_record_def accepted_record_def backend_record_def parsed_record_def
    complete_record_def slow_record_def Let_def
  by (simp_all only: field_simps split: option.splits) auto

lemma logs_for_failed [intro]:
  "logs_for req w w1 \<Longrightarrow> logs_for req w (log_request_failed cx req el stage e w1)"
  unfolding log_request_failed_def by (rule logs_for_emit') simp_all

section \<open>One connection\<close>

definition client_got :: "socket \<Rightarrow> socket \<Rightarrow> bytes \<Rightarrow> bool" where
  "client_got sk sk' m \<longleftrightarrow> (\<exists>ds z. outbound sk' = outbound sk @ ds \<and> m = ds @ z)"

lemma client_got_refl: "outbound sk' = outbound sk \<Longrightarrow> client_got sk sk' m"
  by (simp add: client_got_def)

lemma shutdown_write_frame [simp]:
  "outbound (snd (shutdown_write sk)) = outbound sk" "inbound (snd (shutdown_write sk)) = inbound sk"
  by (simp_all add: shutdown_write_def split: option.splits)

lemma write_all_frame [simp]: "inbound (snd (write_all bs sk)) = inbound sk"
  by (simp add: write_all_def split: option.splits)

lemma send_and_close_frame [simp]: "inbound (snd (send_and_close bs sk)) = inbound sk"
proof -
  obtain x k where w: "write_all bs sk = (x, k)" by force
  have "inbound k = inbound sk" using write_all_frame [of bs sk] unfolding w by simp
  with w show ?thesis by (auto simp: send_and_close_def split: sum.splits)
qed

text \<open>At most one statistics record, with the id of the connection and its outcome.\<close>

definition counted :: "request_context \<Rightarrow> unit mzani_result \<Rightarrow> 'r world \<Rightarrow> 'r world \<Rightarrow> bool" where
  "counted req r w w' \<longleftrightarrow>
     (\<exists>sts. extends (wd_stats w) sts (wd_stats w') \<and> length sts \<le> 1
        \<and> (\<forall>st\<in>set sts. st_req_id st = rc_req_id req \<and> st_worker_id st = rc_worker_id req
             \<and> (st_outcome st = OutcomeOk \<longleftrightarrow> r = Inr ())))"

lemma counted_refl: "wd_stats w' = wd_stats w \<Longrightarrow> counted req r w w'"
  by (auto simp: counted_def intro!: exI [of _ "[]"])

lemma counted_record:
  assumes "st_req_id st = rc_req_id req" "st_worker_id st = rc_worker_id req"
    "st_outcome st = OutcomeOk \<longleftrightarrow> r = Inr ()" "wd_stats w1 = wd_stats w"
    "wd_stats w' = wd_stats (record_metrics cx st w1)"
  shows "counted req r w w'"
proof (cases "cx_metrics_tx cx")
  case True
  obtain sts where "extends (wd_stats w) sts (snd (try_send st (wd_stats w)))" "sts = [] \<or> sts = [st]"
    using try_send_extends [of "wd_stats w" st] by blast
  moreover have "wd_stats w' = snd (try_send st (wd_stats w))"
    using True assms(4,5) by (simp add: record_metrics_def)
  ultimately show ?thesis
    unfolding counted_def using assms(1-3) by (intro exI [of _ sts]) auto
next
  case False
  with assms(4,5) show ?thesis by (intro counted_refl) (simp add: record_metrics_def)
qed

lemma deliver_response_cases:
  assumes "deliver_response cx req elapsed target n m sk w = (r, sk', w')"
  shows "client_got sk sk' m \<and> inbound sk' = inbound sk
      \<and> (r = Inr () \<longrightarrow> outbound sk' = outbound sk @ m)
      \<and> (r \<noteq> Inr () \<longrightarrow> (\<exists>e. r = Inl (from_io e)))"
proof -
  obtain x sk1 where w: "write_all m sk = (x, sk1)" by force
  have o: "client_got sk sk1 m" "inbound sk1 = inbound sk"
    using write_all_outbound [of m sk] write_all_frame [of m sk] w by (auto simp: client_got_def)
  obtain y sk2 where s: "shutdown_write sk1 = (y, sk2)" by force
  have c: "outbound sk2 = outbound sk1" "inbound sk2 = inbound sk1"
    using shutdown_write_frame [of sk1] s by simp_all
  from assms w s consider "r \<noteq> Inr ()" "\<exists>e. r = Inl (from_io e)" "sk' = sk1"
    | "r \<noteq> Inr ()" "\<exists>e. r = Inl (from_io e)" "sk' = sk2"
    | "x = Inr ()" "r = Inr ()" "sk' = sk2"
    by (auto simp: deliver_response_def Let_def split: sum.splits prod.splits)
  then show ?thesis
  proof cases
    case 3
    from w 3 have "outbound sk1 = outbound sk @ m" by (auto intro: write_all_ok)
    with 3 o c show ?thesis by (auto simp: client_got_def)
  qed (use o c in \<open>auto simp: client_got_def\<close>)
qed

lemma deliver_response_world:
  assumes "deliver_response cx req elapsed target n m sk w = (r, sk', w')"
  shows "logs_for req w w' \<and> counted req r w w' \<and> wd_metrics w' = wd_metrics w
    \<and> wd_routing w' = wd_routing w"
proof -
  define st where "st = stats_for req target n (length m) (elapsed 0) OutcomeOk (log_status_code m)"
  define w2 where "w2 = emit_log cx (complete_record req target n (length m) (elapsed 0) (log_status_code m))
      (record_metrics cx st w)"
  have l2: "logs_for req w w2" unfolding w2_def
    by (rule logs_for_emit') (simp_all add: logs_for_refl)
  have c2: "counted req (Inr ()) w w2" unfolding w2_def
    by (rule counted_record [of st]) (simp_all add: st_def stats_for_def)
  from assms consider stage e where "r = Inl (from_io e)"
      "w' = log_request_failed cx req (elapsed 0) stage (display_error (from_io e)) w"
    | "r = Inr ()" "w' = w2"
    | "r = Inr ()" "w' = emit_log cx (slow_record cx req (elapsed 0)) w2"
    by (auto simp: deliver_response_def Let_def w2_def st_def split: sum.splits prod.splits if_splits)
  then show ?thesis
  proof cases
    case 1
    then show ?thesis by (auto simp: counted_refl logs_for_refl)
  next
    case 2
    then show ?thesis using l2 c2 by (simp add: w2_def)
  next
    case 3
    have "logs_for req w w'" unfolding 3(2) using l2 by (rule logs_for_emit') simp
    moreover have "counted req r w w'" using c2 3 by (simp add: counted_def)
    ultimately show ?thesis using 3 by (simp add: w2_def)
  qed
qed

lemma forward_request_cases:
  assumes "forward_request select connect cx req elapsed target rq sk w = Some (r, sk', w', ats)"
  obtains x ro where
    "proxy_with_retries select connect cx (request_to_bytes rq) target (wd_routing w) = Some (x, ro, ats)"
    "wd_routing w' = ro" "inbound sk' = inbound sk"
    "\<And>e. x = Inl e \<Longrightarrow> r = Inl e \<and> sk' = sk"
    "\<And>m. x = Inr m \<Longrightarrow> client_got sk sk' m \<and> (r = Inr () \<longrightarrow> outbound sk' = outbound sk @ m)
        \<and> (r \<noteq> Inr () \<longrightarrow> (\<exists>e. r = Inl (from_io e)))"
    "logs_for req w w'" "counted req r w w'" "wd_metrics w' = wd_metrics w"
proof -
  define n where "n = length (request_to_bytes rq)"
  define w2 where "w2 = emit_log cx (backend_record (lit ''backend_connect'') req target)
      (emit_log cx (parsed_record req rq n) w)"
  have l2: "logs_for req w w2" unfolding w2_def
    by (intro logs_for_emit') (simp_all add: logs_for_refl)
  have f2: "wd_routing w2 = wd_routing w" "wd_stats w2 = wd_stats w" "wd_metrics w2 = wd_metrics w"
    by (simp_all add: w2_def)
  obtain x ro ats' where
    p: "proxy_with_retries select connect cx (request_to_bytes rq) target (wd_routing w) = Some (x, ro, ats')"
    using proxy_with_retries_total [of select connect cx "request_to_bytes rq" target "wd_routing w"] by blast
  have p2: "proxy_with_retries select connect cx (request_to_bytes rq) target (wd_routing w2) = Some (x, ro, ats')"
    unfolding f2 by (rule p)
  show thesis
  proof (cases x)
    case (Inl e)
    define w3 where "w3 = log_request_failed cx req (elapsed 0) (lit ''proxy'') (display_error e)
        (w2\<lparr>wd_routing := ro\<rparr>)"
    define st where "st = stats_for req target n 0 (elapsed 1) OutcomeError None"
    from assms p2 Inl have o: "r = Inl e" "sk' = sk" "ats' = ats" "w' = record_metrics cx st w3"
      unfolding forward_request_def Let_def w3_def st_def w2_def n_def by auto
    have l: "logs_for req w w'" using l2 unfolding o w3_def by auto
    have c: "counted req r w w'"
      by (rule counted_record [of st req r w3])
         (simp_all add: o st_def stats_for_def w3_def f2)
    show thesis
      by (rule that [of x ro]) (use p o l c Inl in \<open>simp_all add: w3_def f2\<close>)
  next
    case (Inr m)
    define w3 where "w3 = w2\<lparr>wd_routing := ro\<rparr>"
    obtain r1 sk1 w1 where d: "deliver_response cx req elapsed target n m sk w3 = (r1, sk1, w1)"
      by (metis prod_cases3)
    with assms p2 Inr have o: "r = r1" "sk' = sk1" "ats' = ats" "w' = w1"
      unfolding forward_request_def Let_def w3_def w2_def n_def by auto
    note dc = deliver_response_cases [OF d] deliver_response_world [OF d]
    have l: "logs_for req w w'"
      unfolding o by (rule logs_for_trans [of _ _ w3]) (use l2 dc in \<open>simp_all add: w3_def\<close>)
    have c: "counted req r w w'" using dc unfolding o by (simp add: counted_def w3_def f2)
    show thesis
      by (rule that [of x ro]) (use p o l c Inr dc in \<open>simp_all add: w3_def f2\<close>)
  qed
qed

text \<open>The early ends of a connection, before any backend is contacted.\<close>

definition no_backend_reply :: bytes where
  "no_backend_reply =
    to_utf8 (reply_text service_unavailable_line (service_unavailable_body (lit ''no healthy backends'')))"

definition too_large_reply :: bytes where
  "too_large_reply = to_utf8 (reply_text payload_too_large_line payload_too_large_body)"

lemma write_service_unavailable_got:
  "client_got sk (snd (write_service_unavailable (lit ''no healthy backends'') sk)) no_backend_reply"
  using send_and_close_outbound unfolding client_got_def write_service_unavailable_def no_backend_reply_def
  by blast

lemma write_payload_too_large_got:
  "client_got sk (snd (write_payload_too_large sk)) too_large_reply"
  using send_and_close_outbound unfolding client_got_def write_payload_too_large_def too_large_reply_def
  by blast

text \<open>The world after the first record, and after the record of the backend selected.\<close>

definition accepted_world :: "proxy_context \<Rightarrow> request_context \<Rightarrow> socket \<Rightarrow> 'r world \<Rightarrow> 'r world" where
  "accepted_world cx req sk w = emit_log cx (accepted_record cx req (peer sk)) w"

definition selected_world ::
  "proxy_context \<Rightarrow> request_context \<Rightarrow> socket \<Rightarrow> socket_addr \<Rightarrow> 'r \<Rightarrow> 'r world \<Rightarrow> 'r world" where
  "selected_world cx req sk target ro w =
    emit_log cx (backend_record (lit ''backend_selected'') req target) ((accepted_world cx req sk w)\<lparr>wd_routing := ro\<rparr>)"

lemma accepted_world_logs: "logs_for req w (accepted_world cx req sk w)"
  unfolding accepted_world_def by (rule logs_for_emit) simp

lemma accepted_world_frame [simp]:
  "wd_routing (accepted_world cx req sk w) = wd_routing w"
  "wd_stats (accepted_world cx req sk w) = wd_stats w" "wd_metrics (accepted_world cx req sk w) = wd_metrics w"
  by (simp_all add: accepted_world_def)

lemma selected_world_logs: "logs_for req w (selected_world cx req sk target ro w)"
  unfolding selected_world_def using accepted_world_logs [of req w cx sk] by auto

lemma selected_world_frame [simp]:
  "wd_routing (selected_world cx req sk target ro w) = ro"
  "wd_stats (selected_world cx req sk target ro w) = wd_stats w"
  "wd_metrics (selected_world cx req sk target ro w) = wd_metrics w"
  by (simp_all add: selected_world_def)

lemma handle_connection_unrouted:
  assumes "set_read_timeout (read (cx_timeouts cx)) sk = Inr u" "select (wd_routing w) = (Inl e, ro)"
  shows "handle_connection select connect cx req elapsed sk w =
    (if e = NoHealthyBackend
     then Some (Inl NoHealthyBackend, snd (write_service_unavailable (lit ''no healthy backends'') sk),
            log_request_failed cx req (elapsed 0) (lit ''no_backend'') (lit ''no healthy backends'')
              ((accepted_world cx req sk w)\<lparr>wd_routing := ro\<rparr>), [])
     else Some (Inl e, sk, (accepted_world cx req sk w)\<lparr>wd_routing := ro\<rparr>, []))"
  using assms by (simp add: handle_connection_def accepted_world_def Let_def)

lemma handle_connection_routed:
  assumes "set_read_timeout (read (cx_timeouts cx)) sk = Inr u" "select (wd_routing w) = (Inr target, ro)"
    and "request_from_stream tcp_read (cx_limits cx) (inbound sk) = Some (y, es)"
  shows "handle_connection select connect cx req elapsed sk w =
    (case y of
       Inr rq \<Rightarrow> forward_request select connect cx req elapsed target rq (sk\<lparr>inbound := es\<rparr>)
                   (selected_world cx req sk target ro w)
     | Inl e \<Rightarrow>
         if e = BodyTooLarge
         then Some (Inl BodyTooLarge, snd (write_payload_too_large (sk\<lparr>inbound := es\<rparr>)),
                log_request_failed cx req (elapsed 0) (lit ''body_limit'') (lit ''body too large'')
                  (selected_world cx req sk target ro w), [])
         else Some (Inl e, sk\<lparr>inbound := es\<rparr>,
                log_request_failed cx req (elapsed 0) (lit ''parse'') (display_error e)
                  (selected_world cx req sk target ro w), []))"
  using assms unfolding handle_connection_def Let_def selected_world_def accepted_world_def
  by (simp split: sum.split)

lemma handle_connection_cases:
  assumes "handle_connection select connect cx req elapsed sk w = Some (r, sk', w', ats)"
  obtains
    (timeout) e where "ats = []" "r = Inl (from_io e)" "sk' = sk" "logs_for req w w'" "wd_stats w' = wd_stats w"
      "wd_metrics w' = wd_metrics w" "wd_routing w' = wd_routing w"
      "set_read_timeout (read (cx_timeouts cx)) sk = Inl e"
  | (unrouted) e ro where "ats = []" "r = Inl e" "select (wd_routing w) = (Inl e, ro)" "wd_routing w' = ro"
      "e = NoHealthyBackend \<longrightarrow> client_got sk sk' no_backend_reply"
      "e \<noteq> NoHealthyBackend \<longrightarrow> sk' = sk" "logs_for req w w'" "wd_stats w' = wd_stats w"
      "wd_metrics w' = wd_metrics w"
  | (refused) e target ro es where "ats = []" "r = Inl e" "select (wd_routing w) = (Inr target, ro)"
      "request_from_stream tcp_read (cx_limits cx) (inbound sk) = Some (Inl e, es)" "wd_routing w' = ro"
      "e = BodyTooLarge \<longrightarrow> client_got sk sk' too_large_reply"
      "e \<noteq> BodyTooLarge \<longrightarrow> sk' = sk\<lparr>inbound := es\<rparr>" "logs_for req w w'" "wd_stats w' = wd_stats w"
      "wd_metrics w' = wd_metrics w"
  | (forwarded) target ro rq es w2 where "select (wd_routing w) = (Inr target, ro)"
      "request_from_stream tcp_read (cx_limits cx) (inbound sk) = Some (Inr rq, es)"
      "forward_request select connect cx req elapsed target rq (sk\<lparr>inbound := es\<rparr>) w2 = Some (r, sk', w', ats)"
      "wd_routing w2 = ro" "logs_for req w w2" "wd_stats w2 = wd_stats w" "wd_metrics w2 = wd_metrics w"
proof (cases "set_read_timeout (read (cx_timeouts cx)) sk")
  case (Inl e)
  show thesis
    by (rule timeout [of e]) (use assms Inl in \<open>auto simp: handle_connection_def logs_for_refl\<close>)
next
  case ok: (Inr u)
  obtain x ro where s: "select (wd_routing w) = (x, ro)" by force
  show thesis
  proof (cases x)
    case (Inl e)
    note h = handle_connection_unrouted [of cx sk u select w e ro connect req elapsed, OF ok s [unfolded Inl]]
    show thesis
      by (rule unrouted [of e ro])
         (use assms h s Inl accepted_world_logs [of req w cx sk] write_service_unavailable_got [of sk]
           in \<open>auto split: if_splits\<close>)
  next
    case (Inr target)
    obtain y es where rq: "request_from_stream tcp_read (cx_limits cx) (inbound sk) = Some (y, es)"
      using tcp.request_from_stream_total by blast
    note h = handle_connection_routed [of cx sk u select w target ro y es connect req elapsed,
      OF ok s [unfolded Inr] rq]
    note f = selected_world_logs [of req w cx sk target ro]
    show thesis
    proof (cases y)
      case (Inl e)
      show thesis
        by (rule refused [of e target ro es])
           (use assms h s Inr rq Inl f write_payload_too_large_got [of "sk\<lparr>inbound := es\<rparr>"]
             in \<open>auto simp: client_got_def split: if_splits\<close>)
    next
      case (Inr rq')
      show thesis
        by (rule forwarded [of target ro rq' es "selected_world cx req sk target ro w"])
           (use assms h s \<open>x = Inr target\<close> rq Inr f in simp_all)
    qed
  qed
qed

lemma forward_request_total:
  "\<exists>r sk' w' ats. forward_request select connect cx req elapsed target rq sk w = Some (r, sk', w', ats)"
proof -
  define w2 where "w2 = emit_log cx (backend_record (lit ''backend_connect'') req target)
      (emit_log cx (parsed_record req rq (length (request_to_bytes rq))) w)"
  obtain x ro ats where
    "proxy_with_retries select connect cx (request_to_bytes rq) target (wd_routing w2) = Some (x, ro, ats)"
    using proxy_with_retries_total [of select connect cx "request_to_bytes rq" target "wd_routing w2"] by blast
  then show ?thesis
    unfolding forward_request_def Let_def w2_def by (cases x) (simp_all split: prod.splits)
qed

lemma handle_connection_total:
  "\<exists>r sk' w' ats. handle_connection select connect cx req elapsed sk w = Some (r, sk', w', ats)"
proof -
  obtain y es where "request_from_stream tcp_read (cx_limits cx) (inbound sk) = Some (y, es)"
    using tcp.request_from_stream_total by blast
  then show ?thesis
    by (simp add: handle_connection_def Let_def forward_request_total split: sum.splits prod.splits)
qed

section \<open>What a connection does\<close>

lemma handle_connection_logs:
  assumes "handle_connection select connect cx req elapsed sk w = Some (r, sk', w', ats)"
  shows "logs_for req w w'"
  using assms
proof (cases rule: handle_connection_cases)
  case (forwarded target ro rq es w2)
  from forwarded(3) have "logs_for req w2 w'" by (rule forward_request_cases)
  with forwarded(5) show ?thesis by (rule logs_for_trans)
qed auto

lemma handle_connection_counted:
  assumes "handle_connection select connect cx req elapsed sk w = Some (r, sk', w', ats)"
  shows "counted req r w w'"
  using assms
proof (cases rule: handle_connection_cases)
  case (forwarded target ro rq es w2)
  from forwarded(3) have "counted req r w2 w'" by (rule forward_request_cases)
  with forwarded(6) show ?thesis by (simp add: counted_def)
qed (simp_all add: counted_refl)

lemma handle_connection_metrics:
  assumes "handle_connection select connect cx req elapsed sk w = Some (r, sk', w', ats)"
  shows "wd_metrics w' = wd_metrics w"
  using assms
proof (cases rule: handle_connection_cases)
  case (forwarded target ro rq es w2)
  from forwarded(3) have "wd_metrics w' = wd_metrics w2" by (rule forward_request_cases)
  with forwarded(7) show ?thesis by simp
qed simp_all

lemma handle_connection_attempts:
  assumes "handle_connection select connect cx req elapsed sk w = Some (r, sk', w', ats)"
  shows "length ats \<le> unat (cx_max_backend_retries cx) + 1"
    and "ats \<noteq> [] \<Longrightarrow> (\<exists>rq es. request_from_stream tcp_read (cx_limits cx) (inbound sk) = Some (Inr rq, es)
           \<and> (\<exists>x. attempts_made (request_to_bytes rq) (cx_limits cx) (read (cx_timeouts cx)) connect 0 x ats))"
proof -
  have "length ats \<le> unat (cx_max_backend_retries cx) + 1 \<and> (ats \<noteq> [] \<longrightarrow>
      (\<exists>rq es. request_from_stream tcp_read (cx_limits cx) (inbound sk) = Some (Inr rq, es)
           \<and> (\<exists>x. attempts_made (request_to_bytes rq) (cx_limits cx) (read (cx_timeouts cx)) connect 0 x ats)))"
    using assms
  proof (cases rule: handle_connection_cases)
    case (forwarded target ro rq es w2)
    from forwarded(3) obtain x ro' where
      "proxy_with_retries select connect cx (request_to_bytes rq) target (wd_routing w2) = Some (x, ro', ats)"
      by (rule forward_request_cases)
    from proxy_with_retries_made(1,2) [OF this] forwarded(2) show ?thesis by auto
  qed simp_all
  then show "length ats \<le> unat (cx_max_backend_retries cx) + 1"
    and "ats \<noteq> [] \<Longrightarrow> (\<exists>rq es. request_from_stream tcp_read (cx_limits cx) (inbound sk) = Some (Inr rq, es)
           \<and> (\<exists>x. attempts_made (request_to_bytes rq) (cx_limits cx) (read (cx_timeouts cx)) connect 0 x ats))"
    by auto
qed

text \<open>The client gets at most one reply, or a prefix of it.\<close>

definition reply_of :: "attempt list \<Rightarrow> bytes \<Rightarrow> bool" where
  "reply_of ats m \<longleftrightarrow>
     (if ats = [] then m = no_backend_reply \<or> m = too_large_reply \<or> m = []
      else fst (snd (last ats)) = Inr m \<or> m = [])"

lemma client_got_inbound: "client_got (sk\<lparr>inbound := es\<rparr>) sk' m = client_got sk sk' m"
  by (simp add: client_got_def)

lemma handle_connection_client:
  assumes "handle_connection select connect cx req elapsed sk w = Some (r, sk', w', ats)"
  shows "\<exists>m. reply_of ats m \<and> client_got sk sk' m"
  using assms
proof (cases rule: handle_connection_cases)
  case (unrouted e ro)
  then show ?thesis
    by (cases "e = NoHealthyBackend") (auto simp: reply_of_def intro: client_got_refl)
next
  case (refused e target ro es)
  have "client_got sk sk' (if e = BodyTooLarge then too_large_reply else [])"
    using refused(6,7) by (cases "e = BodyTooLarge") (simp_all add: client_got_refl)
  moreover have "reply_of ats (if e = BodyTooLarge then too_large_reply else [])"
    using refused(1) by (simp add: reply_of_def)
  ultimately show ?thesis by blast
next
  case (forwarded target ro rq es w2)
  from forwarded(3) obtain x ro' where f:
    "proxy_with_retries select connect cx (request_to_bytes rq) target (wd_routing w2) = Some (x, ro', ats)"
    "\<And>e. x = Inl e \<Longrightarrow> r = Inl e \<and> sk' = sk\<lparr>inbound := es\<rparr>"
    "\<And>m. x = Inr m \<Longrightarrow> client_got (sk\<lparr>inbound := es\<rparr>) sk' m
      \<and> (r = Inr () \<longrightarrow> outbound sk' = outbound (sk\<lparr>inbound := es\<rparr>) @ m) \<and> (r \<noteq> Inr () \<longrightarrow> (\<exists>e. r = Inl (from_io e)))"
    by (rule forward_request_cases) blast
  note am = proxy_with_retries_made(1) [OF f(1)]
  from attempts_made_last [OF am] have l: "fst (snd (last ats)) = x" by auto
  have ne: "ats \<noteq> []" using am by (rule attempts_made_not_Nil)
  show ?thesis
  proof (cases x)
    case (Inl e)
    with f(2) ne show ?thesis by (auto simp: reply_of_def intro!: exI [of _ "[]"] client_got_refl)
  next
    case (Inr m)
    with f(3) ne l show ?thesis by (auto simp: reply_of_def client_got_inbound)
  qed
qed (auto simp: reply_of_def intro: client_got_refl)

text \<open>
  Success: the request read from the client is sent unchanged to the backend of the last
  attempt, and the client gets exactly the message rebuilt from that backend's answer.
\<close>

lemma handle_connection_ok:
  assumes h: "handle_connection select connect cx req elapsed sk w = Some (Inr (), sk', w', ats)"
    and lim: "max_response_bytes (cx_limits cx) < usize_bound - 1"
  shows "\<exists>rq a m b b'. request_from_stream tcp_read (cx_limits cx) (inbound sk) = Some (Inr rq, inbound sk')
      \<and> tcp_wire (inbound sk) = request_to_bytes rq @ tcp_wire (inbound sk')
      \<and> ats \<noteq> [] \<and> last ats = (a, Inr m, Some b') \<and> connect (length ats - 1) a = Inr b
      \<and> served (request_to_bytes rq) (cx_limits cx) b b' m
      \<and> outbound sk' = outbound sk @ m"
  using h
proof (cases rule: handle_connection_cases)
  case (forwarded target ro rq es w2)
  from forwarded(3) obtain x ro' where f:
    "proxy_with_retries select connect cx (request_to_bytes rq) target (wd_routing w2) = Some (x, ro', ats)"
    "inbound sk' = inbound (sk\<lparr>inbound := es\<rparr>)"
    "\<And>e. x = Inl e \<Longrightarrow> Inr () = Inl e \<and> sk' = sk\<lparr>inbound := es\<rparr>"
    "\<And>m. x = Inr m \<Longrightarrow> client_got (sk\<lparr>inbound := es\<rparr>) sk' m
      \<and> (Inr () = Inr () \<longrightarrow> outbound sk' = outbound (sk\<lparr>inbound := es\<rparr>) @ m)
      \<and> (Inr () \<noteq> Inr () \<longrightarrow> (\<exists>e. Inr () = Inl (from_io e)))"
    by (rule forward_request_cases) blast
  from f(3) obtain m where m: "x = Inr m" by (cases x) auto
  from attempts_made_last [OF proxy_with_retries_made(1) [OF f(1)]] m obtain a sk1 where
    a: "last ats = (a, Inr m, sk1)"
      "proxy_to_backend (request_to_bytes rq) (cx_limits cx) (read (cx_timeouts cx))
         (connect (length ats - 1) a) = Some (Inr m, sk1)"
    by auto
  from proxy_to_backend_ok [OF a(2) lim] obtain b b' where
    "connect (length ats - 1) a = Inr b" "sk1 = Some b'" "served (request_to_bytes rq) (cx_limits cx) b b' m"
    by blast
  moreover from forwarded(2) f(2) have
    "request_from_stream tcp_read (cx_limits cx) (inbound sk) = Some (Inr rq, inbound sk')" by simp
  moreover from this have "tcp_wire (inbound sk) = request_to_bytes rq @ tcp_wire (inbound sk')"
    by (rule tcp.request_from_stream_ok)
  moreover from f(4) [OF m] have "outbound sk' = outbound sk @ m" by simp
  moreover have "ats \<noteq> []"
    using proxy_with_retries_made(1) [OF f(1)] by (rule attempts_made_not_Nil)
  ultimately show ?thesis using a(1) by blast
qed auto

context routing_strategy
begin

lemma handle_connection_targets:
  assumes "handle_connection select_backend connect cx req elapsed sk w = Some (r, sk', w', ats)"
  shows "fst ` set ats \<subseteq> set (backend_addresses (wd_routing w))
    \<and> backend_addresses (wd_routing w') = backend_addresses (wd_routing w)"
  using assms
proof (cases rule: handle_connection_cases)
  case (forwarded target ro rq es w2)
  have st: "backend_addresses ro = backend_addresses (wd_routing w)" "target \<in> set (backend_addresses ro)"
    using select_stable' [OF forwarded(1)] select_member [OF forwarded(1)] by simp_all
  from forwarded(3) obtain x ro' where
    f: "proxy_with_retries select_backend connect cx (request_to_bytes rq) target (wd_routing w2) = Some (x, ro', ats)"
      "wd_routing w' = ro'"
    by (rule forward_request_cases) blast
  from proxy_attempts_targets [OF f(1) [unfolded proxy_with_retries_def Let_def]] st forwarded(4) f(2)
  show ?thesis by simp
qed (auto dest: select_stable')

end

end
