(* ===== verification/Scripts.thy ===== *)
theory Scripts
  imports Balancer Proxy_Correct
begin

text \<open>
  The operations of the threads as scripts: what a thread does to the state it shares, one
  atomic access after the other, with everything it does on its own in between. The accesses
  are a \<open>try_send\<close> on the log or the statistics channel, \<open>fetch_add\<close> on the counter of dropped
  records and on the cursor of the registry, the load of one health flag, and the critical
  sections on the metrics. Running a script without interference gives the functions of the
  component theories; \<^theory_text>\<open>System\<close> interleaves scripts.
\<close>

section \<open>Scripts\<close>

datatype 'a script =
    Return 'a
  | Try_log log_record "bool \<Rightarrow> 'a script"
  | Count_dropped "u64 \<Rightarrow> 'a script"
  | Try_stats request_stats "'a script"
  | Next_index "u64 \<Rightarrow> 'a script"
  | Load_healthy nat "bool \<Rightarrow> 'a script"
  | Count_rejected "'a script"
  | Count_request request_stats "'a script"
  | Log_metrics "metrics \<Rightarrow> log_record" "'a script"

definition is_sent :: "'e + unit \<Rightarrow> bool" where
  "is_sent res = (case res of Inl _ \<Rightarrow> False | Inr _ \<Rightarrow> True)"

definition registry :: "round_robin world \<Rightarrow> backend_set" where
  "registry w = rr_backends (wd_routing w)"

definition advance_cursor :: "round_robin world \<Rightarrow> round_robin world" where
  "advance_cursor w =
    w\<lparr>wd_routing := (wd_routing w)\<lparr>rr_backends := (registry w)\<lparr>next_index := next_index (registry w) + 1\<rparr>\<rparr>\<rparr>"

text \<open>One access.\<close>

fun script_step :: "'a script \<Rightarrow> round_robin world \<Rightarrow> ('a script \<times> round_robin world) option" where
  "script_step (Return x) w = None"
| "script_step (Try_log r k) w =
    (case try_send r (wd_log w) of (res, ch) \<Rightarrow> Some (k (is_sent res), w\<lparr>wd_log := ch\<rparr>))"
| "script_step (Count_dropped k) w = Some (k (wd_dropped w), w\<lparr>wd_dropped := wd_dropped w + 1\<rparr>)"
| "script_step (Try_stats st s) w = Some (s, w\<lparr>wd_stats := snd (try_send st (wd_stats w))\<rparr>)"
| "script_step (Next_index k) w = Some (k (next_index (registry w)), advance_cursor w)"
| "script_step (Load_healthy i k) w = Some (k (be_healthy (entries (registry w) ! i)), w)"
| "script_step (Count_rejected s) w = Some (s, w\<lparr>wd_metrics := metrics_record_pool_rejected (wd_metrics w)\<rparr>)"
| "script_step (Count_request st s) w = Some (s, w\<lparr>wd_metrics := record_request st (wd_metrics w)\<rparr>)"
| "script_step (Log_metrics f s) w = Some (s, w\<lparr>wd_log := snd (try_send (f (wd_metrics w)) (wd_log w))\<rparr>)"

text \<open>All accesses, without interference.\<close>

primrec run :: "'a script \<Rightarrow> round_robin world \<Rightarrow> 'a \<times> round_robin world" where
  "run (Return x) w = (x, w)"
| "run (Try_log r k) w =
    run (k (is_sent (fst (try_send r (wd_log w))))) (w\<lparr>wd_log := snd (try_send r (wd_log w))\<rparr>)"
| "run (Count_dropped k) w = run (k (wd_dropped w)) (w\<lparr>wd_dropped := wd_dropped w + 1\<rparr>)"
| "run (Try_stats st s) w = run s (w\<lparr>wd_stats := snd (try_send st (wd_stats w))\<rparr>)"
| "run (Next_index k) w = run (k (next_index (registry w))) (advance_cursor w)"
| "run (Load_healthy i k) w = run (k (be_healthy (entries (registry w) ! i))) w"
| "run (Count_rejected s) w = run s (w\<lparr>wd_metrics := metrics_record_pool_rejected (wd_metrics w)\<rparr>)"
| "run (Count_request st s) w = run s (w\<lparr>wd_metrics := record_request st (wd_metrics w)\<rparr>)"
| "run (Log_metrics f s) w = run s (w\<lparr>wd_log := snd (try_send (f (wd_metrics w)) (wd_log w))\<rparr>)"

lemma run_step: "script_step s w = Some (s', w') \<Longrightarrow> run s w = run s' w'"
  by (cases s) (auto split: prod.splits)

lemma script_step_None: "script_step s w = None \<longleftrightarrow> (\<exists>x. s = Return x)"
  by (cases s) (auto split: prod.splits)

section \<open>The scripts of the code\<close>

text \<open>Each script takes the script that follows it.\<close>

definition emit_script :: "proxy_context \<Rightarrow> log_record \<Rightarrow> 'a script \<Rightarrow> 'a script" where
  "emit_script cx r s =
    (if \<not> cx_log_tx cx then s
     else Try_log r (\<lambda>sent.
       if sent then s
       else if \<not> cx_dropped_logs cx then s
       else Count_dropped (\<lambda>prev.
         if 0 < prev \<and> prev mod 100 = 0
         then Try_log (dropped_record (prev + 1)) (\<lambda>_. s)
         else s)))"

definition stats_script :: "proxy_context \<Rightarrow> request_stats \<Rightarrow> 'a script \<Rightarrow> 'a script" where
  "stats_script cx st s = (if cx_metrics_tx cx then Try_stats st s else s)"

definition failed_script ::
  "proxy_context \<Rightarrow> request_context \<Rightarrow> duration \<Rightarrow> str \<Rightarrow> str \<Rightarrow> 'a script \<Rightarrow> 'a script" where
  "failed_script cx req el stage error s = emit_script cx (request_failed_record req el stage error) s"

definition accept_event_script ::
  "proxy_context \<Rightarrow> str \<Rightarrow> log_level \<Rightarrow> (str \<times> str) list \<Rightarrow> 'a script \<Rightarrow> 'a script" where
  "accept_event_script cx event level fs s =
    emit_script cx (fold (\<lambda>(key, v). field key v) fs (new_record level event Accept)) s"

definition rejected_script :: "proxy_context \<Rightarrow> 'a script \<Rightarrow> 'a script" where
  "rejected_script cx s =
    (let log = accept_event_script cx (lit ''pool_saturated'') Warn [] s
     in if cx_metrics cx then Count_rejected log else log)"

text \<open>\<open>select_next\<close> on a registry with the given addresses; the flags may change between two
  loads.\<close>

fun scan_script ::
  "socket_addr list \<Rightarrow> u64 \<Rightarrow> nat \<Rightarrow> nat \<Rightarrow> (socket_addr mzani_result \<Rightarrow> 'a script) \<Rightarrow> 'a script" where
  "scan_script addrs start off 0 k = k (Inl NoHealthyBackend)"
| "scan_script addrs start off (Suc n) k =
    (let index = unat (start + of_nat off) mod length addrs
     in Load_healthy index (\<lambda>healthy.
          if healthy then k (Inr (addrs ! index)) else scan_script addrs start (Suc off) n k))"

definition select_script ::
  "socket_addr list \<Rightarrow> (socket_addr mzani_result \<Rightarrow> 'a script) \<Rightarrow> 'a script" where
  "select_script addrs k =
    (if addrs = [] then k (Inl EmptyServerList)
     else Next_index (\<lambda>start. scan_script addrs start 0 (length addrs) k))"

text \<open>A connection's script ends with what \<open>handle_connection\<close> returns, the stream it leaves and
  the attempts made; \<open>None\<close> stands for a reader that never returns.\<close>

type_synonym handled = "(unit mzani_result \<times> socket \<times> attempt list) option"

fun attempts_script ::
  "socket_addr list \<Rightarrow> (nat \<Rightarrow> socket_addr \<Rightarrow> io_error + socket) \<Rightarrow> limits \<Rightarrow> duration \<Rightarrow> bytes
    \<Rightarrow> nat \<Rightarrow> socket_addr \<Rightarrow> nat \<Rightarrow> attempt list
    \<Rightarrow> (bytes mzani_result \<Rightarrow> attempt list \<Rightarrow> handled script) \<Rightarrow> handled script" where
  "attempts_script addrs connect l rt bs k target left made rest =
    (case proxy_to_backend bs l rt (connect k target) of
       None \<Rightarrow> Return None
     | Some (Inr response, sk) \<Rightarrow> rest (Inr response) (made @ [(target, Inr response, sk)])
     | Some (Inl error, sk) \<Rightarrow>
         (case left of
            0 \<Rightarrow> rest (Inl error) (made @ [(target, Inl error, sk)])
          | Suc left' \<Rightarrow>
              select_script addrs (\<lambda>x.
                attempts_script addrs connect l rt bs (Suc k)
                  (case x of Inr a \<Rightarrow> a | Inl _ \<Rightarrow> target) left'
                  (made @ [(target, Inl error, sk)]) rest)))"

declare attempts_script.simps [simp del]

definition retries_script ::
  "socket_addr list \<Rightarrow> (nat \<Rightarrow> socket_addr \<Rightarrow> io_error + socket) \<Rightarrow> proxy_context \<Rightarrow> bytes \<Rightarrow> socket_addr
    \<Rightarrow> (bytes mzani_result \<Rightarrow> attempt list \<Rightarrow> handled script) \<Rightarrow> handled script" where
  "retries_script addrs connect cx bs first_target rest =
    (let attempts = u32_saturating_add1 (cx_max_backend_retries cx)
     in attempts_script addrs connect (cx_limits cx) (read (cx_timeouts cx)) bs 0 first_target
          (unat attempts - 1) [] rest)"

definition deliver_script ::
  "proxy_context \<Rightarrow> request_context \<Rightarrow> (nat \<Rightarrow> duration) \<Rightarrow> socket_addr \<Rightarrow> nat \<Rightarrow> bytes
    \<Rightarrow> socket \<Rightarrow> attempt list \<Rightarrow> handled script" where
  "deliver_script cx req elapsed target request_len response sk ats =
    (let fail = (\<lambda>stage e sk'. failed_script cx req (elapsed 0) stage (display_error (from_io e))
                   (Return (Some (Inl (from_io e), sk', ats))));
         response_len = length response;
         status = log_status_code response
     in case write_all response sk of
          (Inl e, sk1) \<Rightarrow> fail (lit ''client_write'') e sk1
        | (Inr _, sk1) \<Rightarrow>
            (case flush sk1 of
               Inl e \<Rightarrow> fail (lit ''client_flush'') e sk1
             | Inr _ \<Rightarrow>
                 (case shutdown_write sk1 of
                    (Inl e, sk2) \<Rightarrow> fail (lit ''client_shutdown'') e sk2
                  | (Inr _, sk2) \<Rightarrow>
                      let el = elapsed 0
                      in stats_script cx (stats_for req target request_len response_len el OutcomeOk status)
                          (emit_script cx (complete_record req target request_len response_len el status)
                            (if el \<ge> slow_request_warn (cx_timeouts cx)
                             then emit_script cx (slow_record cx req el) (Return (Some (Inr (), sk2, ats)))
                             else Return (Some (Inr (), sk2, ats)))))))"

definition proxied_script ::
  "proxy_context \<Rightarrow> request_context \<Rightarrow> (nat \<Rightarrow> duration) \<Rightarrow> socket_addr \<Rightarrow> nat \<Rightarrow> socket
    \<Rightarrow> bytes mzani_result \<Rightarrow> attempt list \<Rightarrow> handled script" where
  "proxied_script cx req elapsed target request_len sk x ats =
    (case x of
       Inl e \<Rightarrow>
         failed_script cx req (elapsed 0) (lit ''proxy'') (display_error e)
           (stats_script cx (stats_for req target request_len 0 (elapsed 1) OutcomeError None)
             (Return (Some (Inl e, sk, ats))))
     | Inr response \<Rightarrow> deliver_script cx req elapsed target request_len response sk ats)"

definition forward_script ::
  "socket_addr list \<Rightarrow> (nat \<Rightarrow> socket_addr \<Rightarrow> io_error + socket) \<Rightarrow> proxy_context \<Rightarrow> request_context
    \<Rightarrow> (nat \<Rightarrow> duration) \<Rightarrow> socket_addr \<Rightarrow> request \<Rightarrow> socket \<Rightarrow> handled script" where
  "forward_script addrs connect cx req elapsed target rq sk =
    (let request_bytes = request_to_bytes rq;
         request_len = length request_bytes
     in emit_script cx (parsed_record req rq request_len)
         (emit_script cx (backend_record (lit ''backend_connect'') req target)
           (retries_script addrs connect cx request_bytes target
             (proxied_script cx req elapsed target request_len sk))))"

text \<open>\<open>handle_connection\<close> from the answer of the registry on.\<close>

definition selected_script ::
  "socket_addr list \<Rightarrow> (nat \<Rightarrow> socket_addr \<Rightarrow> io_error + socket) \<Rightarrow> proxy_context \<Rightarrow> request_context
    \<Rightarrow> (nat \<Rightarrow> duration) \<Rightarrow> socket \<Rightarrow> socket_addr mzani_result \<Rightarrow> handled script" where
  "selected_script addrs connect cx req elapsed sk x =
    (case x of
       Inl e \<Rightarrow>
         if e = NoHealthyBackend
         then failed_script cx req (elapsed 0) (lit ''no_backend'') (lit ''no healthy backends'')
           (Return (Some (Inl NoHealthyBackend,
             snd (write_service_unavailable (lit ''no healthy backends'') sk), [])))
         else Return (Some (Inl e, sk, []))
     | Inr target \<Rightarrow>
         emit_script cx (backend_record (lit ''backend_selected'') req target)
          (case request_from_stream tcp_read (cx_limits cx) (inbound sk) of
             None \<Rightarrow> Return None
           | Some (Inr rq, es) \<Rightarrow>
               forward_script addrs connect cx req elapsed target rq (sk\<lparr>inbound := es\<rparr>)
           | Some (Inl e, es) \<Rightarrow>
               let sk1 = sk\<lparr>inbound := es\<rparr>
               in if e = BodyTooLarge
                  then failed_script cx req (elapsed 0) (lit ''body_limit'') (lit ''body too large'')
                    (Return (Some (Inl BodyTooLarge, snd (write_payload_too_large sk1), [])))
                  else failed_script cx req (elapsed 0) (lit ''parse'') (display_error e)
                    (Return (Some (Inl e, sk1, [])))))"

definition handle_script ::
  "socket_addr list \<Rightarrow> (nat \<Rightarrow> socket_addr \<Rightarrow> io_error + socket) \<Rightarrow> proxy_context \<Rightarrow> request_context
    \<Rightarrow> (nat \<Rightarrow> duration) \<Rightarrow> socket \<Rightarrow> handled script" where
  "handle_script addrs connect cx req elapsed sk =
    (case set_read_timeout (read (cx_timeouts cx)) sk of
       Inl e \<Rightarrow>
         failed_script cx req (elapsed 0) (lit ''set_timeout'') (display_error (from_io e))
           (Return (Some (Inl (from_io e), sk, [])))
     | Inr _ \<Rightarrow>
         emit_script cx (accepted_record cx req (peer sk))
           (select_script addrs (selected_script addrs connect cx req elapsed sk)))"

text \<open>The accept loop: what becomes of the stream and the queues, and the script that follows.\<close>

definition accept_script ::
  "balancer_config \<Rightarrow> proxy_context \<Rightarrow> socket \<Rightarrow> pool \<Rightarrow> accept_outcome \<times> pool \<times> unit script" where
  "accept_script c cx sk p =
    (case set_read_timeout (accept_read (timeouts c)) sk of
       Inl e \<Rightarrow> (Discarded sk, p,
         accept_event_script cx (lit ''accept_read_timeout_set_failed'') Warn [(lit ''error'', err_text e)]
           (Return ()))
     | Inr _ \<Rightarrow>
         if pl_shutting_down p
         then (TurnedAway (snd (write_service_unavailable (lit ''shutting down'') sk)), p, Return ())
         else case submit sk p of
                (Inr _, p') \<Rightarrow> (Queued, p', Return ())
              | (Inl (e, sk'), p') \<Rightarrow>
                  if e = PoolFull
                  then (Rejected (snd (write_service_unavailable (lit ''worker queue full'') sk')), p',
                        rejected_script cx (Return ()))
                  else if e = ShutdownInProgress
                  then (TurnedAway (snd (write_service_unavailable (lit ''shutting down'') sk')), p', Return ())
                  else (Discarded sk', p',
                        accept_event_script cx (lit ''pool_submit_error'') Warn
                          [(lit ''error'', display_error e)] (Return ())))"

definition accept_error_script :: "balancer_config \<Rightarrow> proxy_context \<Rightarrow> io_error \<Rightarrow> unit script" where
  "accept_error_script c cx e =
    accept_event_script cx (lit ''accept_error'') Error
      [(lit ''error'', err_text e), (lit ''listen'', format_addr (listen c))] (Return ())"

text \<open>The metrics thread, on one statistics record.\<close>

definition aggregator_script ::
  "(metrics \<Rightarrow> socket_addr list) \<Rightarrow> (nat \<Rightarrow> instant) \<Rightarrow> request_stats \<Rightarrow> aggregator
    \<Rightarrow> aggregator \<times> unit script" where
  "aggregator_script order clock st ag =
    (let ag1 = ag\<lparr>ag_request_count := ag_request_count ag + 1\<rparr>;
         req = \<lparr>rc_req_id = st_req_id st, rc_worker_id = st_worker_id st\<rparr>;
         due = (ag_request_count ag1 mod metrics_snapshot_every_n = 0
                \<or> clock 0 - ag_last_snapshot ag1 \<ge> metrics_snapshot_interval)
     in (if due then ag1\<lparr>ag_last_snapshot := clock 1\<rparr> else ag1,
         Count_request st
          (Try_log (to_metrics_record st req) (\<lambda>_.
            if due then Log_metrics (snapshot_record order (clock 2)) (Return ()) else Return ()))))"

text \<open>The event of a probe, sent by \<open>ChannelLogSink\<close>, which discards the error.\<close>

definition event_script :: "log_record option \<Rightarrow> unit script" where
  "event_script ev = (case ev of Some r \<Rightarrow> Try_log r (\<lambda>_. Return ()) | None \<Rightarrow> Return ())"

end
