(* ===== verification/Script_Runs.thy ===== *)
theory Script_Runs
  imports Scripts
begin

text \<open>
  A script that is not interfered with does what the functions of the component theories do.
\<close>

section \<open>Logging and statistics\<close>

lemma run_emit [simp]: "run (emit_script cx r s) w = run s (emit_log cx r w)"
  by (auto simp: emit_script_def emit_log_def is_sent_def try_send_def Let_def)

lemma run_stats [simp]: "run (stats_script cx st s) w = run s (record_metrics cx st w)"
  by (simp add: stats_script_def record_metrics_def)

lemma run_failed [simp]: "run (failed_script cx req el stage e s) w = run s (log_request_failed cx req el stage e w)"
  by (simp add: failed_script_def log_request_failed_def)

lemma run_accept_event [simp]:
  "run (accept_event_script cx ev lv fs s) w = run s (log_accept_event cx ev lv fs w)"
  by (simp add: accept_event_script_def log_accept_event_def)

lemma run_rejected [simp]: "run (rejected_script cx s) w = run s (record_pool_rejected cx w)"
  by (simp add: rejected_script_def record_pool_rejected_def Let_def)

section \<open>Selection\<close>

lemma run_scan:
  assumes "addresses (registry w) = addrs" "addrs \<noteq> []"
  shows "run (scan_script addrs start off n k) w =
    run (k (case scan_from (entries (registry w)) start off n of Some a \<Rightarrow> Inr a | None \<Rightarrow> Inl NoHealthyBackend)) w"
proof (induction n arbitrary: off)
  case (Suc n)
  have l: "length addrs = length (entries (registry w))" using assms by (auto simp: addresses_def)
  have "addrs ! (m mod length addrs) = be_addr (entries (registry w) ! (m mod length addrs))" for m
  proof -
    have "m mod length addrs < length (entries (registry w))"
      using assms(2) by (simp flip: l)
    then show ?thesis using assms(1) nth_map unfolding addresses_def by metis
  qed
  then show ?case using Suc.IH l by (simp add: Let_def)
qed simp

lemma advance_cursor_routing [simp]:
  "w\<lparr>wd_routing := wd_routing (advance_cursor w)\<rparr> = advance_cursor w"
  "entries (registry (advance_cursor w)) = entries (registry w)"
  "addresses (registry (advance_cursor w)) = addresses (registry w)"
  by (simp_all add: advance_cursor_def registry_def addresses_def)

lemma select_scans:
  assumes "entries (registry w) \<noteq> []"
  shows "rr_select_backend (wd_routing w) =
    (case scan_from (entries (registry w)) (next_index (registry w)) 0 (length (entries (registry w))) of
       Some a \<Rightarrow> Inr a | None \<Rightarrow> Inl NoHealthyBackend, wd_routing (advance_cursor w))"
  using assms
  by (auto simp: rr_select_backend_def select_next_def Let_def registry_def advance_cursor_def split: option.splits)

lemma run_select:
  assumes "rr_backend_addresses (wd_routing w) = addrs"
  shows "run (select_script addrs k) w =
    (case rr_select_backend (wd_routing w) of (x, ro) \<Rightarrow> run (k x) (w\<lparr>wd_routing := ro\<rparr>))"
proof (cases "addrs = []")
  case True
  then have "entries (rr_backends (wd_routing w)) = []"
    using assms by (simp add: rr_backend_addresses_def addresses_def)
  with True show ?thesis by (simp add: select_script_def rr_select_backend_def select_next_def)
next
  case False
  have a: "addresses (registry w) = addrs" using assms by (simp add: rr_backend_addresses_def registry_def)
  then have e: "entries (registry w) \<noteq> []" "length addrs = length (entries (registry w))"
    using False by (auto simp: addresses_def)
  have "addresses (registry (advance_cursor w)) = addrs" using a by simp
  note r = run_scan [OF this False]
  show ?thesis
    using False by (simp add: select_script_def r select_scans [OF e(1)] e(2))
qed

section \<open>A connection\<close>

lemma routing_addresses: "rr_select_backend ro = (x, ro') \<Longrightarrow> rr_backend_addresses ro' = rr_backend_addresses ro"
  by (rule rr.select_stable')

lemma run_attempts:
  "rr_backend_addresses (wd_routing w) = addrs \<Longrightarrow>
     run (attempts_script addrs connect l rt bs k target left made rest) w =
       (case proxy_attempts rr_select_backend connect l rt bs k target (wd_routing w) left of
          None \<Rightarrow> (None, w)
        | Some (r, ro, ats) \<Rightarrow> run (rest r (made @ ats)) (w\<lparr>wd_routing := ro\<rparr>))"
proof (induction left arbitrary: k target made w)
  case 0
  obtain r sk where "proxy_to_backend bs l rt (connect k target) = Some (r, sk)"
    using proxy_to_backend_total by blast
  then show ?case by (subst attempts_script.simps, subst proxy_attempts.simps) (cases r; simp)
next
  case (Suc n)
  obtain r sk where p: "proxy_to_backend bs l rt (connect k target) = Some (r, sk)"
    using proxy_to_backend_total by blast
  show ?case
  proof (cases r)
    case (Inr m)
    with p show ?thesis by (subst attempts_script.simps, subst proxy_attempts.simps) simp
  next
    case (Inl e)
    obtain x ro where s: "rr_select_backend (wd_routing w) = (x, ro)" by force
    have "rr_backend_addresses (wd_routing (w\<lparr>wd_routing := ro\<rparr>)) = addrs"
      using routing_addresses [OF s] Suc.prems by simp
    note IH = Suc.IH [OF this]
    obtain r' ro' ats where "proxy_attempts rr_select_backend connect l rt bs (Suc k)
        (case x of Inr a \<Rightarrow> a | Inl _ \<Rightarrow> target) ro n = Some (r', ro', ats)"
      using proxy_attempts_total [of rr_select_backend connect l rt bs "Suc k" _ ro n] by blast
    with p Inl s show ?thesis
      by (subst attempts_script.simps, subst proxy_attempts.simps)
         (simp add: run_select [OF Suc.prems] IH)
  qed
qed

lemma run_deliver:
  "run (deliver_script cx req elapsed target request_len response sk ats) w =
    (case deliver_response cx req elapsed target request_len response sk w of
       (r, sk', w') \<Rightarrow> (Some (r, sk', ats), w'))"
  by (simp add: deliver_script_def deliver_response_def Let_def split: sum.splits prod.splits)

lemma run_forward:
  assumes "rr_backend_addresses (wd_routing w) = addrs"
  shows "run (forward_script addrs connect cx req elapsed target rq sk) w =
    (case forward_request rr_select_backend connect cx req elapsed target rq sk w of
       None \<Rightarrow> (None, w) | Some (r, sk', w', ats) \<Rightarrow> (Some (r, sk', ats), w'))"
proof -
  have a: "rr_backend_addresses (wd_routing (emit_log cx r1 (emit_log cx r2 w))) = addrs" for r1 r2
    using assms by simp
  obtain r ro ats where p: "proxy_attempts rr_select_backend connect (cx_limits cx) (read (cx_timeouts cx))
      (request_to_bytes rq) 0 target (wd_routing w)
      (unat (u32_saturating_add1 (cx_max_backend_retries cx)) - Suc 0) = Some (r, ro, ats)"
    using proxy_attempts_total [of rr_select_backend connect _ _ "request_to_bytes rq" 0 target] by blast
  show ?thesis
    by (cases r)
       (simp_all add: forward_script_def proxied_script_def forward_request_def Let_def retries_script_def proxy_with_retries_def
          run_attempts [OF a] p run_deliver split: prod.splits)
qed

lemma run_handle:
  assumes "rr_backend_addresses (wd_routing w) = addrs"
  shows "handle_connection rr_select_backend connect cx req elapsed sk w =
    (case run (handle_script addrs connect cx req elapsed sk) w of
       (None, _) \<Rightarrow> None | (Some (r, sk', ats), w') \<Rightarrow> Some (r, sk', w', ats))"
proof -
  define w1 where "w1 = emit_log cx (accepted_record cx req (peer sk)) w"
  have a: "rr_backend_addresses (wd_routing w1) = addrs" using assms by (simp add: w1_def)
  obtain x ro where s: "rr_select_backend (wd_routing w1) = (x, ro)" by force
  have a2: "rr_backend_addresses (wd_routing (emit_log cx r (w1\<lparr>wd_routing := ro\<rparr>))) = addrs" for r
    using routing_addresses [OF s] a by simp
  obtain q es where q: "request_from_stream tcp_read (cx_limits cx) (inbound sk) = Some (q, es)"
    using tcp.request_from_stream_total by blast
  show ?thesis
    by (cases x; cases q; cases "set_read_timeout (read (cx_timeouts cx)) sk")
       (auto simp: handle_connection_def handle_script_def selected_script_def Let_def w1_def [symmetric] run_select [OF a] s q
          run_forward [OF a2] split: option.splits prod.splits)
qed

section \<open>The other threads\<close>

lemma run_accept:
  "accept_connection c cx sk p w =
    (case accept_script c cx sk p of (oc, p', s) \<Rightarrow> (oc, p', snd (run s w)))"
  by (auto simp: accept_connection_def accept_script_def reject_pool_full_def split: sum.splits prod.splits)

lemma run_accept_error:
  "accept_turn c cx (Inl e) p w = (None, p, snd (run (accept_error_script c cx e) w))"
  by (simp add: accept_turn_def accept_error_script_def)

lemma run_aggregator:
  "aggregator_turn order clock st ag w =
    (case aggregator_script order clock st ag of (ag', s) \<Rightarrow> (ag', snd (run s w)))"
  by (simp add: aggregator_turn_def aggregator_script_def Let_def)

lemma run_event: "snd (run (event_script ev) w) = w\<lparr>wd_log := emit_event channel_emit (wd_log w) ev\<rparr>"
  by (simp add: event_script_def emit_event_def channel_emit_def split: option.splits)

end
