(* ===== verification/Script_Facts.thy ===== *)
theory Script_Facts
  imports Script_Runs
begin

text \<open>
  What holds of the scripts whatever their accesses return: a connection's script ends with
  something \<open>handle_connection\<close> returns for some answers of the registry; it logs its records
  in the order of its stages and sends at most one statistics record; the scripts of the
  other threads log no worker's record and touch the metrics at most once, first.
\<close>

section \<open>What a script can end with\<close>

inductive settles :: "'a script \<Rightarrow> 'a \<Rightarrow> bool" where
  "settles (Return x) x"
| "settles (k b) x \<Longrightarrow> settles (Try_log r k) x"
| "settles (k n) x \<Longrightarrow> settles (Count_dropped k) x"
| "settles s x \<Longrightarrow> settles (Try_stats st s) x"
| "settles (k n) x \<Longrightarrow> settles (Next_index k) x"
| "settles (k b) x \<Longrightarrow> settles (Load_healthy i k) x"
| "settles s x \<Longrightarrow> settles (Count_rejected s) x"
| "settles s x \<Longrightarrow> settles (Count_request st s) x"
| "settles s x \<Longrightarrow> settles (Log_metrics f s) x"

inductive_simps settles_simps [simp]:
  "settles (Return x) y"
  "settles (Try_log r k) x"
  "settles (Count_dropped k) x"
  "settles (Try_stats st s) x"
  "settles (Next_index k) x"
  "settles (Load_healthy i k) x"
  "settles (Count_rejected s) x"
  "settles (Count_request st s) x"
  "settles (Log_metrics f s) x"

lemma settles_step: "script_step s w = Some (s', w') \<Longrightarrow> settles s' x \<Longrightarrow> settles s x"
  by (cases s) (auto split: prod.splits)

lemma settles_emit [simp]: "settles (emit_script cx r s) x \<longleftrightarrow> settles s x"
proof -
  have "settles (if c then Try_log r' (\<lambda>_. s) else s) x \<longleftrightarrow> settles s x" for c r' by simp
  then show ?thesis by (auto simp: emit_script_def)
qed

lemma settles_stats [simp]: "settles (stats_script cx st s) x \<longleftrightarrow> settles s x"
  by (simp add: stats_script_def)

lemma settles_failed [simp]: "settles (failed_script cx req el stage e s) x \<longleftrightarrow> settles s x"
  by (simp add: failed_script_def)

text \<open>The answers a selection can give, and the routing whose state is the list of the answers it
  will give.\<close>

definition no_answer :: "socket_addr list \<Rightarrow> mzani_error" where
  "no_answer addrs = (if addrs = [] then EmptyServerList else NoHealthyBackend)"

definition allowed :: "socket_addr list \<Rightarrow> socket_addr mzani_result \<Rightarrow> bool" where
  "allowed addrs x = (case x of Inr a \<Rightarrow> a \<in> set addrs | Inl e \<Rightarrow> e = no_answer addrs)"

type_synonym answering = "socket_addr list \<times> socket_addr mzani_result list"

fun next_answer :: "answering \<Rightarrow> socket_addr mzani_result \<times> answering" where
  "next_answer (addrs, []) = (Inl (no_answer addrs), (addrs, []))"
| "next_answer (addrs, x # xs) = (if allowed addrs x then x else Inl (no_answer addrs), (addrs, xs))"

interpretation answers: routing_strategy next_answer fst
proof
  fix o1 o2 :: answering and a
  assume "next_answer o1 = (Inr a, o2)"
  then show "a \<in> set (fst o1)" by (cases o1 rule: next_answer.cases) (auto simp: allowed_def split: if_splits)
next
  fix o1 :: answering
  show "fst (snd (next_answer o1)) = fst o1" by (cases o1 rule: next_answer.cases) simp_all
next
  fix o1 o2 :: answering and e
  assume "next_answer o1 = (Inl e, o2)"
  then show "e = NoHealthyBackend \<or> e = EmptyServerList \<and> fst o1 = []"
    by (cases o1 rule: next_answer.cases) (auto simp: allowed_def no_answer_def split: if_splits)
qed

lemma allowed_simps [simp]:
  "allowed addrs (Inr a) \<longleftrightarrow> a \<in> set addrs" "allowed addrs (Inl e) \<longleftrightarrow> e = no_answer addrs"
  by (simp_all add: allowed_def)

lemma settles_scan:
  "settles (scan_script addrs start off n k) x \<Longrightarrow> addrs \<noteq> [] \<Longrightarrow> \<exists>a. allowed addrs a \<and> settles (k a) x"
proof (induction n arbitrary: off)
  case 0
  then have "allowed addrs (Inl NoHealthyBackend)" "settles (k (Inl NoHealthyBackend)) x"
    by (simp_all add: no_answer_def)
  then show ?case by blast
next
  case (Suc n)
  have m: "addrs ! (unat (start + of_nat off) mod length addrs) \<in> set addrs" using Suc.prems(2) by simp
  from Suc.prems consider
      "settles (k (Inr (addrs ! (unat (start + of_nat off) mod length addrs)))) x"
    | "settles (scan_script addrs start (Suc off) n k) x"
    by (auto simp: Let_def split: if_splits)
  then show ?case
  proof cases
    case 1
    with m show ?thesis by (intro exI conjI) (rule allowed_simps(1) [THEN iffD2])
  next
    case 2
    with Suc.IH Suc.prems(2) show ?thesis by blast
  qed
qed

lemma settles_select: "settles (select_script addrs k) x \<Longrightarrow> \<exists>a. allowed addrs a \<and> settles (k a) x"
proof (cases "addrs = []")
  case True
  assume "settles (select_script addrs k) x"
  with True have "allowed addrs (Inl EmptyServerList) \<and> settles (k (Inl EmptyServerList)) x"
    by (simp add: select_script_def no_answer_def)
  then show ?thesis by blast
next
  case False
  assume "settles (select_script addrs k) x"
  with False settles_scan show ?thesis by (auto simp: select_script_def)
qed

lemma settles_attempts:
  "settles (attempts_script addrs connect l rt bs k target left made rest) x \<Longrightarrow>
     \<exists>answers r ats. list_all (allowed addrs) answers
       \<and> proxy_attempts next_answer connect l rt bs k target (addrs, answers) left = Some (r, (addrs, []), ats)
       \<and> settles (rest r (made @ ats)) x"
proof (induction left arbitrary: k target made)
  case 0
  obtain r sk where "proxy_to_backend bs l rt (connect k target) = Some (r, sk)"
    using proxy_to_backend_total by blast
  with 0 show ?case
    by (intro exI [of _ "[]"], subst (asm) attempts_script.simps, subst proxy_attempts.simps) (cases r; simp)
next
  case (Suc n)
  obtain r sk where p: "proxy_to_backend bs l rt (connect k target) = Some (r, sk)"
    using proxy_to_backend_total by blast
  show ?case
  proof (cases r)
    case (Inr m)
    with p Suc.prems show ?thesis
      by (intro exI [of _ "[]"], subst (asm) attempts_script.simps, subst proxy_attempts.simps) simp
  next
    case (Inl e)
    have "settles (select_script addrs (\<lambda>a. attempts_script addrs connect l rt bs (Suc k)
        (case a of Inr b \<Rightarrow> b | Inl _ \<Rightarrow> target) n (made @ [(target, Inl e, sk)]) rest)) x"
      using Suc.prems p Inl by (subst (asm) attempts_script.simps) simp
    from settles_select [OF this] obtain a where a: "allowed addrs a"
      "settles (attempts_script addrs connect l rt bs (Suc k) (case a of Inr b \<Rightarrow> b | Inl _ \<Rightarrow> target) n
         (made @ [(target, Inl e, sk)]) rest) x" by blast
    from Suc.IH [OF a(2)] obtain answers r' ats where
      "list_all (allowed addrs) answers"
      "proxy_attempts next_answer connect l rt bs (Suc k) (case a of Inr b \<Rightarrow> b | Inl _ \<Rightarrow> target) (addrs, answers) n
        = Some (r', (addrs, []), ats)"
      "settles (rest r' (made @ (target, Inl e, sk) # ats)) x" by auto
    with a(1) p Inl show ?thesis
      by (intro exI [of _ "a # answers"] exI [of _ r'] exI [of _ "(target, Inl e, sk) # ats"])
         (subst proxy_attempts.simps, simp)
  qed
qed

lemma deliver_settles:
  "settles (deliver_script cx req elapsed target n response sk ats) x \<Longrightarrow>
     \<exists>r sk' w'. x = Some (r, sk', ats) \<and> deliver_response cx req elapsed target n response sk w = (r, sk', w')"
  by (auto simp: deliver_script_def deliver_response_def Let_def split: sum.splits prod.splits if_splits)

lemma forward_settles:
  assumes "settles (forward_script addrs connect cx req elapsed target rq sk) x"
  shows "\<exists>answers. list_all (allowed addrs) answers \<and> (\<forall>w. wd_routing w = (addrs, answers) \<longrightarrow>
    (\<exists>r sk' w' ats. x = Some (r, sk', ats)
      \<and> forward_request next_answer connect cx req elapsed target rq sk w = Some (r, sk', w', ats)))"
proof -
  have "settles (attempts_script addrs connect (cx_limits cx) (read (cx_timeouts cx)) (request_to_bytes rq) 0 target
      (unat (u32_saturating_add1 (cx_max_backend_retries cx)) - 1) [] (proxied_script cx req elapsed target (length (request_to_bytes rq)) sk)) x"
    using assms unfolding forward_script_def Let_def retries_script_def by (simp only: settles_emit)
  from settles_attempts [OF this] obtain answers r ats where a: "list_all (allowed addrs) answers"
    "proxy_attempts next_answer connect (cx_limits cx) (read (cx_timeouts cx)) (request_to_bytes rq) 0 target (addrs, answers)
       (unat (u32_saturating_add1 (cx_max_backend_retries cx)) - 1) = Some (r, (addrs, []), ats)"
    "settles (proxied_script cx req elapsed target (length (request_to_bytes rq)) sk r ([] @ ats)) x"
    by blast
  have "\<exists>r sk' w' ats. x = Some (r, sk', ats)
      \<and> forward_request next_answer connect cx req elapsed target rq sk w = Some (r, sk', w', ats)"
    if w: "wd_routing w = (addrs, answers)" for w
  proof (cases r)
    case (Inl e)
    with a w show ?thesis by (simp add: proxied_script_def forward_request_def Let_def proxy_with_retries_def)
  next
    case (Inr m)
    with a(3) have "settles (deliver_script cx req elapsed target (length (request_to_bytes rq)) m sk ats) x"
      by (simp add: proxied_script_def)
    from deliver_settles [OF this] obtain r' sk' w' where
      "x = Some (r', sk', ats)"
      "deliver_response cx req elapsed target (length (request_to_bytes rq)) m sk
        ((emit_log cx (backend_record (lit ''backend_connect'') req target)
           (emit_log cx (parsed_record req rq (length (request_to_bytes rq))) w))\<lparr>wd_routing := (addrs, [])\<rparr>) = (r', sk', w')"
      by blast
    with a(2) Inr w show ?thesis by (simp add: forward_request_def Let_def proxy_with_retries_def)
  qed
  with a(1) show ?thesis by blast
qed

lemma handle_settles:
  assumes "settles (handle_script addrs connect cx req elapsed sk) x"
  shows "\<exists>answers. list_all (allowed addrs) answers \<and> (\<forall>w. wd_routing w = (addrs, answers) \<longrightarrow>
    (\<exists>r sk' w' ats. x = Some (r, sk', ats)
      \<and> handle_connection next_answer connect cx req elapsed sk w = Some (r, sk', w', ats)))"
proof (cases "set_read_timeout (read (cx_timeouts cx)) sk")
  case (Inl e)
  with assms show ?thesis
    by (intro exI [of _ "[]"]) (simp add: handle_script_def handle_connection_def)
next
  case (Inr u)
  have "settles (select_script addrs (selected_script addrs connect cx req elapsed sk)) x"
    using assms Inr unfolding handle_script_def by (simp only: sum.case settles_emit)
  from settles_select [OF this] obtain a where a: "allowed addrs a" "settles (selected_script addrs connect cx req elapsed sk a) x" by blast
  obtain q es where q: "request_from_stream tcp_read (cx_limits cx) (inbound sk) = Some (q, es)"
    using tcp.request_from_stream_total by blast
  show ?thesis
  proof (cases a)
    case (Inl e)
    with a Inr show ?thesis
      by (intro exI [of _ "[a]"])
         (cases "e = NoHealthyBackend"; simp add: selected_script_def handle_connection_def Let_def)
  next
    case target: (Inr target)
    show ?thesis
    proof (cases q)
      case (Inl e)
      with a target Inr q show ?thesis
        by (intro exI [of _ "[a]"])
           (cases "e = BodyTooLarge"; simp add: selected_script_def handle_connection_def Let_def)
    next
      case rq: (Inr rq)
      with a(2) target q have "settles (forward_script addrs connect cx req elapsed target rq (sk\<lparr>inbound := es\<rparr>)) x"
        by (simp add: selected_script_def)
      from forward_settles [OF this] obtain answers where f: "list_all (allowed addrs) answers"
        "\<forall>w. wd_routing w = (addrs, answers) \<longrightarrow> (\<exists>r sk' w' ats. x = Some (r, sk', ats)
          \<and> forward_request next_answer connect cx req elapsed target rq (sk\<lparr>inbound := es\<rparr>) w = Some (r, sk', w', ats))"
        by blast
      with a(1) target rq Inr q show ?thesis
        by (intro exI [of _ "a # answers"]) (simp add: handle_connection_def Let_def)
    qed
  qed
qed

text \<open>In a world of its own.\<close>

definition lone_world :: "'r \<Rightarrow> 'r world" where
  "lone_world ro = \<lparr>wd_routing = ro, wd_log = sync_channel 0, wd_stats = sync_channel 0,
    wd_metrics = default_metrics 0, wd_dropped = 0\<rparr>"

lemma handle_settles_alone:
  assumes "settles (handle_script addrs connect cx req elapsed sk) x"
  obtains answers r sk' ats w' where "list_all (allowed addrs) answers" "x = Some (r, sk', ats)"
    "handle_connection next_answer connect cx req elapsed sk (lone_world (addrs, answers)) = Some (r, sk', w', ats)"
proof -
  from handle_settles [OF assms] obtain answers where a: "list_all (allowed addrs) answers"
    "\<forall>w. wd_routing w = (addrs, answers) \<longrightarrow> (\<exists>r sk' w' ats. x = Some (r, sk', ats)
       \<and> handle_connection next_answer connect cx req elapsed sk w = Some (r, sk', w', ats))" by blast
  have "wd_routing (lone_world (addrs, answers)) = (addrs, answers)" by (simp add: lone_world_def)
  with a that show thesis by blast
qed

end
