(* ===== verification/Script_Stages.thy ===== *)
theory Script_Stages
  imports Script_Facts
begin

text \<open>
  The order in which a connection's script logs, how often it sends statistics, and what the
  scripts of the other threads may do.
\<close>

section \<open>Stages of a request\<close>

text \<open>A request ends with one of \<open>request_complete\<close> and \<open>request_failed\<close>.\<close>

definition stage_of :: "str \<Rightarrow> nat" where
  "stage_of ev =
    (if ev = lit ''connection_accepted'' then 0
     else if ev = lit ''backend_selected'' then 1
     else if ev = lit ''request_parsed'' then 2
     else if ev = lit ''backend_connect'' then 3
     else if ev = lit ''request_complete'' \<or> ev = lit ''request_failed'' then 4
     else 5)"

definition stage :: "log_record \<Rightarrow> nat" where
  "stage r = stage_of (lr_event r)"

lemma role_simps [simp]:
  "lr_role (field k v r) = lr_role r" "lr_role (with_request req r) = lr_role r"
  "lr_role (new_record lv ev role) = role" "lr_event (new_record lv ev role) = ev"
  "lr_event (with_request req r) = lr_event r"
  by (simp_all add: field_def with_request_def new_record_def)

text \<open>The script of request \<open>i\<close>, which has logged no stage from \<open>n\<close> on; \<open>fresh\<close> tells that it has
  sent no statistics.\<close>

primrec handler :: "'a script \<Rightarrow> u64 \<Rightarrow> nat \<Rightarrow> bool \<Rightarrow> bool" where
  "handler (Return x) i n fresh = True"
| "handler (Try_log r k) i n fresh =
    (if lr_role r = Worker
     then lr_req_id r = Some i \<and> n \<le> stage r \<and> (\<forall>b. handler (k b) i (Suc (stage r)) fresh)
     else \<forall>b. handler (k b) i n fresh)"
| "handler (Count_dropped k) i n fresh = (\<forall>v. handler (k v) i n fresh)"
| "handler (Try_stats st s) i n fresh = (fresh \<and> st_req_id st = i \<and> handler s i n False)"
| "handler (Next_index k) i n fresh = (\<forall>v. handler (k v) i n fresh)"
| "handler (Load_healthy j k) i n fresh = (\<forall>b. handler (k b) i n fresh)"
| "handler (Count_rejected s) i n fresh = False"
| "handler (Count_request st s) i n fresh = False"
| "handler (Log_metrics f s) i n fresh = False"

lemma handler_earlier: "handler s i n fresh \<Longrightarrow> m \<le> n \<Longrightarrow> handler s i m fresh"
proof (induction s arbitrary: fresh)
  case (Try_log r k)
  have "handler (k b) i m fresh" if "handler (k b) i n fresh" for b
    by (rule Try_log.IH [OF rangeI that Try_log.prems(2)])
  with Try_log.prems show ?case by (simp split: if_splits)
next
  case (Count_dropped k)
  have "handler (k b) i m fresh" if "handler (k b) i n fresh" for b
    by (rule Count_dropped.IH [OF rangeI that Count_dropped.prems(2)])
  with Count_dropped.prems show ?case by simp
next
  case (Next_index k)
  have "handler (k b) i m fresh" if "handler (k b) i n fresh" for b
    by (rule Next_index.IH [OF rangeI that Next_index.prems(2)])
  with Next_index.prems show ?case by simp
next
  case (Load_healthy j k)
  have "handler (k b) i m fresh" if "handler (k b) i n fresh" for b
    by (rule Load_healthy.IH [OF rangeI that Load_healthy.prems(2)])
  with Load_healthy.prems show ?case by simp
qed auto

lemma handler_fresh: "handler s i n False \<Longrightarrow> handler s i n True"
proof (induction s arbitrary: n)
  case (Try_log r k)
  have "handler (k b) i l True" if "handler (k b) i l False" for b l
    by (rule Try_log.IH [OF rangeI that])
  with Try_log.prems show ?case by (simp split: if_splits)
qed auto

lemma handler_emit:
  assumes "lr_role r = Worker" "lr_req_id r = Some i" "n \<le> stage r" "handler s i (Suc (stage r)) fresh"
  shows "handler (emit_script cx r s) i n fresh"
  using assms handler_earlier [OF assms(4), of n]
  by (simp add: emit_script_def dropped_record_def)

lemma handler_stats:
  "st_req_id st = i \<Longrightarrow> handler s i n False \<Longrightarrow> handler (stats_script cx st s) i n True"
  by (auto simp: stats_script_def intro: handler_fresh)

lemma handler_scan: "(\<And>a. handler (k a) i n fresh) \<Longrightarrow> handler (scan_script addrs start off m k) i n fresh"
  by (induction m arbitrary: off) (simp_all add: Let_def)

lemma handler_select: "(\<And>a. handler (k a) i n fresh) \<Longrightarrow> handler (select_script addrs k) i n fresh"
  by (simp add: select_script_def handler_scan)

lemma handler_attempts:
  "(\<And>r ats. handler (rest r ats) i n fresh) \<Longrightarrow>
     handler (attempts_script addrs connect l rt bs k target left made rest) i n fresh"
proof (induction left arbitrary: k target made)
  case 0
  then show ?case
    by (subst attempts_script.simps) (simp split: option.splits sum.splits)
next
  case (Suc m)
  then show ?case
    by (subst attempts_script.simps) (auto split: option.splits sum.splits intro!: handler_select)
qed

lemma stage_events [simp]:
  "stage (accepted_record cx req a) = 0"
  "stage (backend_record ev req t) = stage_of ev"
  "stage (parsed_record req rq m) = 2"
  "stage (complete_record req t m m' el status) = 4"
  "stage (request_failed_record req el st e) = 4"
  "stage (slow_record cx req el) = 5"
  by (simp_all add: stage_def stage_of_def accepted_record_def backend_record_def parsed_record_def
      complete_record_def request_failed_record_def slow_record_def Let_def split: option.splits)

lemma worker_records [simp]:
  "lr_role (accepted_record cx req a) = Worker"
  "lr_role (backend_record ev req t) = Worker"
  "lr_role (parsed_record req rq m) = Worker"
  "lr_role (complete_record req t m m' el status) = Worker"
  "lr_role (request_failed_record req el st e) = Worker"
  "lr_role (slow_record cx req el) = Worker"
  by (simp_all add: accepted_record_def backend_record_def parsed_record_def complete_record_def
      request_failed_record_def slow_record_def Let_def split: option.splits)

lemma handler_failed:
  "n \<le> 4 \<Longrightarrow> handler s (rc_req_id req) 5 fresh \<Longrightarrow> handler (failed_script cx req el st e s) (rc_req_id req) n fresh"
  unfolding failed_script_def by (rule handler_emit) simp_all

lemma handler_deliver: "handler (deliver_script cx req elapsed t m response sk ats) (rc_req_id req) 4 True"
  unfolding deliver_script_def Let_def
  by (auto simp: stats_for_def split: sum.splits prod.splits intro!: handler_failed handler_stats handler_emit)

lemma handler_proxied: "handler (proxied_script cx req elapsed t m sk x ats) (rc_req_id req) 4 True"
  by (auto simp: proxied_script_def stats_for_def handler_deliver split: sum.splits
      intro!: handler_failed handler_stats)

lemma handler_forward: "handler (forward_script addrs connect cx req elapsed t rq sk) (rc_req_id req) 2 True"
  unfolding forward_script_def Let_def retries_script_def
  by (auto simp: stage_of_def handler_proxied intro!: handler_emit handler_attempts)

lemma handler_selected: "handler (selected_script addrs connect cx req elapsed sk x) (rc_req_id req) 1 True"
  unfolding selected_script_def Let_def
  by (auto simp: stage_of_def handler_forward [unfolded numeral_2_eq_2] split: sum.splits option.splits prod.splits intro!: handler_failed handler_emit)

lemma handler_handle: "handler (handle_script addrs connect cx req elapsed sk) (rc_req_id req) 0 True"
  unfolding handle_script_def
  by (auto simp: handler_selected [unfolded One_nat_def] split: sum.splits intro!: handler_failed handler_emit handler_select)

section \<open>The other threads\<close>

primrec clean :: "'a script \<Rightarrow> bool" where
  "clean (Return x) = True"
| "clean (Try_log r k) = (lr_role r \<noteq> Worker \<and> (\<forall>b. clean (k b)))"
| "clean (Count_dropped k) = (\<forall>v. clean (k v))"
| "clean (Try_stats st s) = False"
| "clean (Next_index k) = False"
| "clean (Load_healthy j k) = False"
| "clean (Count_rejected s) = False"
| "clean (Count_request st s) = False"
| "clean (Log_metrics f s) = ((\<forall>m. lr_role (f m) \<noteq> Worker) \<and> clean s)"

text \<open>What is left to count: a rejection, or a statistics record.\<close>

definition owed :: "'a script \<Rightarrow> nat" where
  "owed s = (case s of Count_rejected _ \<Rightarrow> 1 | _ \<Rightarrow> 0)"

definition held :: "'a script \<Rightarrow> request_stats list" where
  "held s = (case s of Count_request st _ \<Rightarrow> [st] | _ \<Rightarrow> [])"

lemma counts_simps [simp]:
  "owed (Count_rejected s) = 1" "owed (Count_request st s) = 0" "owed (Return x) = 0"
  "held (Count_rejected s) = []" "held (Count_request st s) = [st]" "held (Return x) = []"
  by (simp_all add: owed_def held_def)

lemma clean_counts [simp]: "clean s \<Longrightarrow> owed s = 0" "clean s \<Longrightarrow> held s = []"
  by (cases s; simp add: owed_def held_def)+

lemma clean_emit: "lr_role r \<noteq> Worker \<Longrightarrow> clean s \<Longrightarrow> clean (emit_script cx r s)"
  by (simp add: emit_script_def dropped_record_def)

lemma fold_field_role [simp]: "lr_role (fold (\<lambda>(key, v). field key v) fs r) = lr_role r"
  by (induction fs arbitrary: r) auto

lemma clean_accept_event: "clean s \<Longrightarrow> clean (accept_event_script cx ev lv fs s)"
  unfolding accept_event_script_def by (rule clean_emit) simp_all

lemma accept_script_clean:
  assumes "accept_script c cx sk p = (oc, p', s)"
  shows "clean s \<and> (\<forall>sk'. oc \<noteq> Rejected sk') \<or> (\<exists>sk' s'. oc = Rejected sk' \<and> clean s'
    \<and> s = (if cx_metrics cx then Count_rejected s' else s'))"
  using assms
  by (auto simp: accept_script_def rejected_script_def Let_def clean_accept_event
      split: sum.splits prod.splits if_splits)

lemma accept_error_clean: "clean (accept_error_script c cx e)"
  by (simp add: accept_error_script_def clean_accept_event)

lemma aggregator_script_clean:
  assumes "aggregator_script order clock st ag = (ag', s)"
  shows "\<exists>s'. s = Count_request st s' \<and> clean s'"
  using assms
  by (auto simp: aggregator_script_def Let_def to_metrics_record_def snapshot_record_def
      split: option.splits)

lemma event_script_clean:
  "health_probe c a ok bs = (bs', ev) \<Longrightarrow> clean (event_script ev)"
  by (auto simp: health_probe_def Let_def event_script_def recovered_record_def unhealthy_record_def
      split: if_splits)

end
