(* ===== verification/System.thy ===== *)
theory System
  imports Script_Stages
begin

text \<open>
  The running balancer as a transition system. The accept loop, each connection worker, the
  metrics thread, the log writer and the health thread take turns on the shared state; a turn
  is one access to it. Between two accesses of one thread any of the others may have any
  number of turns. The environment (streams, backends, probe results, clocks) is chosen
  freely. The ghost fields record what happened: the streams accepted so far, what became of
  those no longer with the pool, the records the two background threads have taken, and the
  results of the probes.

  A worker is idle, holds a stream it has taken from its queue, or is in the middle of the
  script of a connection. The other threads that share the metrics and the log have a script
  to finish before they take the next stream, statistics record or probe.
\<close>

section \<open>The transition system\<close>

datatype fate =
    Served (fate_stream: socket) (fate_request: request_context) (fate_result: "unit mzani_result")
      (fate_left: socket) (fate_attempts: "attempt list")
  | Refused (fate_stream: socket)
  | Overflowed (fate_stream: socket)
  | Closed_unserved (fate_stream: socket)

datatype worker = Idle | Taken socket | Busy socket request_context "handled script"

datatype thread = Acceptor | Aggregator | Prober

record system =
  sy_state :: "round_robin pool_state"
  sy_workers :: "worker list"
  sy_tasks :: "thread \<Rightarrow> unit script"
  sy_arrived :: "socket list"
  sy_history :: "fate list"
  sy_counted :: "request_stats list"
  sy_written :: "log_record list"
  sy_probes :: "(socket_addr \<times> bool) list"

definition accept_fate :: "socket \<Rightarrow> accept_outcome \<Rightarrow> fate list" where
  "accept_fate sk oc =
    (case oc of Queued \<Rightarrow> [] | TurnedAway _ \<Rightarrow> [Refused sk] | Rejected _ \<Rightarrow> [Overflowed sk]
     | Discarded _ \<Rightarrow> [Closed_unserved sk])"

text \<open>Who takes the turn, and where.\<close>

datatype actor =
    At_listener | At_worker nat | At_statistics | At_log | At_backend | At_task thread | At_shutdown

inductive turn ::
  "(metrics \<Rightarrow> socket_addr list) \<Rightarrow> balancer_config \<Rightarrow> actor \<Rightarrow> system \<Rightarrow> system \<Rightarrow> bool"
  for order :: "metrics \<Rightarrow> socket_addr list" and c :: balancer_config where
  accept:
    "sy_state y = s \<Longrightarrow> sy_tasks y Acceptor = Return () \<Longrightarrow>
     accept_script c (ps_context s) sk (ps_pool s) = (oc, p, task) \<Longrightarrow>
     turn order c At_listener y (y\<lparr>sy_state := s\<lparr>ps_pool := p\<rparr>, sy_tasks := (sy_tasks y)(Acceptor := task),
       sy_arrived := sy_arrived y @ [sk], sy_history := sy_history y @ accept_fate sk oc\<rparr>)"
| accept_error:
    "sy_state y = s \<Longrightarrow> sy_tasks y Acceptor = Return () \<Longrightarrow>
     turn order c At_listener y (y\<lparr>sy_tasks := (sy_tasks y)(Acceptor := accept_error_script c (ps_context s) e)\<rparr>)"
| take_stream:
    "sy_state y = s \<Longrightarrow> i < length (sy_workers y) \<Longrightarrow> sy_workers y ! i = Idle \<Longrightarrow>
     recv (pl_queues (ps_pool s) ! i) = (Received sk, ch) \<Longrightarrow>
     turn order c (At_worker i) y (y\<lparr>sy_state := s\<lparr>ps_pool := (ps_pool s)\<lparr>pl_queues := (pl_queues (ps_pool s))[i := ch]\<rparr>\<rparr>,
       sy_workers := (sy_workers y)[i := Taken sk]\<rparr>)"
| refuse:
    "sy_state y = s \<Longrightarrow> i < length (sy_workers y) \<Longrightarrow> sy_workers y ! i = Taken sk \<Longrightarrow>
     pl_shutting_down (ps_pool s) \<Longrightarrow>
     turn order c (At_worker i) y (y\<lparr>sy_workers := (sy_workers y)[i := Idle], sy_history := sy_history y @ [Refused sk]\<rparr>)"
| start:
    "sy_state y = s \<Longrightarrow> i < length (sy_workers y) \<Longrightarrow> sy_workers y ! i = Taken sk \<Longrightarrow>
     \<not> pl_shutting_down (ps_pool s) \<Longrightarrow>
     next_request_id (pl_next_req_id (ps_pool s)) = (req_id, next) \<Longrightarrow>
     req = \<lparr>rc_req_id = req_id, rc_worker_id = i\<rparr> \<Longrightarrow>
     h = handle_script (rr_backend_addresses (wd_routing (ps_world s))) connect (ps_context s) req elapsed sk \<Longrightarrow>
     turn order c (At_worker i) y (y\<lparr>sy_state := s\<lparr>ps_pool := (ps_pool s)\<lparr>pl_next_req_id := next\<rparr>\<rparr>,
       sy_workers := (sy_workers y)[i := Busy sk req h]\<rparr>)"
| work:
    "sy_state y = s \<Longrightarrow> i < length (sy_workers y) \<Longrightarrow> sy_workers y ! i = Busy sk req h \<Longrightarrow>
     script_step h (ps_world s) = Some (h', w) \<Longrightarrow>
     turn order c (At_worker i) y (y\<lparr>sy_state := s\<lparr>ps_world := w\<rparr>, sy_workers := (sy_workers y)[i := Busy sk req h']\<rparr>)"
| finish:
    "i < length (sy_workers y) \<Longrightarrow> sy_workers y ! i = Busy sk req (Return (Some (r, sk', ats))) \<Longrightarrow>
     turn order c (At_worker i) y (y\<lparr>sy_workers := (sy_workers y)[i := Idle],
       sy_history := sy_history y @ [Served sk req r sk' ats]\<rparr>)"
| collect:
    "sy_state y = s \<Longrightarrow> sy_tasks y Aggregator = Return () \<Longrightarrow>
     recv (wd_stats (ps_world s)) = (Received st, ch) \<Longrightarrow>
     aggregator_script order clock st (ps_aggregator s) = (ag, task) \<Longrightarrow>
     turn order c At_statistics y (y\<lparr>sy_state := s\<lparr>ps_aggregator := ag, ps_world := (ps_world s)\<lparr>wd_stats := ch\<rparr>\<rparr>,
       sy_tasks := (sy_tasks y)(Aggregator := task)\<rparr>)"
| proceed:
    "sy_state y = s \<Longrightarrow> script_step (sy_tasks y t) (ps_world s) = Some (task, w) \<Longrightarrow>
     turn order c (At_task t) y (y\<lparr>sy_state := s\<lparr>ps_world := w\<rparr>, sy_tasks := (sy_tasks y)(t := task),
       sy_counted := sy_counted y @ held (sy_tasks y t)\<rparr>)"
| write_log:
    "sy_state y = s \<Longrightarrow> recv (wd_log (ps_world s)) = (Received r, ch) \<Longrightarrow>
     turn order c At_log y (y\<lparr>sy_state := s\<lparr>ps_logger := log_writer_turn r (ps_logger s),
         ps_world := (ps_world s)\<lparr>wd_log := ch\<rparr>\<rparr>,
       sy_written := sy_written y @ [r]\<rparr>)"
| probe:
    "sy_state y = s \<Longrightarrow> sy_tasks y Prober = Return () \<Longrightarrow>
     a \<in> set (rr_backend_addresses (wd_routing (ps_world s))) \<Longrightarrow>
     health_probe (health c) a ok (registry (ps_world s)) = (bs, ev) \<Longrightarrow>
     turn order c At_backend y (y\<lparr>sy_state := s\<lparr>ps_world := (ps_world s)
         \<lparr>wd_routing := (wd_routing (ps_world s))\<lparr>rr_backends := bs\<rparr>\<rparr>\<rparr>,
       sy_tasks := (sy_tasks y)(Prober := event_script ev), sy_probes := sy_probes y @ [(a, ok)]\<rparr>)"
| signal:
    "sy_state y = s \<Longrightarrow>
     turn order c At_shutdown y (y\<lparr>sy_state := s\<lparr>ps_pool := (ps_pool s)\<lparr>pl_shutting_down := True\<rparr>\<rparr>\<rparr>)"
| stop:
    "sy_state y = s \<Longrightarrow>
     turn order c At_shutdown y (y\<lparr>sy_state := s\<lparr>ps_pool := stop_accepting (ps_pool s)\<rparr>\<rparr>)"

definition initial :: "balancer \<Rightarrow> system" where
  "initial b =
    \<lparr>sy_state = bl_state b, sy_workers = replicate (length (pl_queues (ps_pool (bl_state b)))) Idle,
     sy_tasks = (\<lambda>_. Return ()), sy_arrived = [], sy_history = [], sy_counted = [], sy_written = [], sy_probes = []\<rparr>"

inductive reachable :: "(metrics \<Rightarrow> socket_addr list) \<Rightarrow> balancer_config \<Rightarrow> system \<Rightarrow> system \<Rightarrow> bool"
  for order :: "metrics \<Rightarrow> socket_addr list" and c :: balancer_config and y0 :: system where
  start: "reachable order c y0 y0"
| step: "reachable order c y0 y \<Longrightarrow> turn order c who y y' \<Longrightarrow> reachable order c y0 y'"

lemma reachable_invariant:
  assumes "reachable order c y0 y" "P y0" "\<And>who y y'. P y \<Longrightarrow> turn order c who y y' \<Longrightarrow> P y'"
  shows "P y"
  using assms(1) by induction (use assms(2,3) in auto)

lemma reachable_trans: "reachable order c y1 y \<Longrightarrow> reachable order c y0 y1 \<Longrightarrow> reachable order c y0 y"
  by (induction rule: reachable.induct) (auto intro: reachable.step)

lemma reachable_turn: "turn order c who y y' \<Longrightarrow> reachable order c y y'"
  by (rule reachable.step [OF reachable.start])

section \<open>The queues\<close>

definition queued :: "pool \<Rightarrow> socket list" where
  "queued p = concat (map queue (pl_queues p))"

definition pool_shape :: "pool \<Rightarrow> bool" where
  "pool_shape p \<longleftrightarrow> pl_connection_txs p = [0..<length (pl_queues p)] \<or> pl_connection_txs p = []"

lemma mset_concat_update:
  "i < length xs \<Longrightarrow> mset (concat (map f (xs[i := y]))) + mset (f (xs ! i)) = mset (concat (map f xs)) + mset (f y)"
proof (induction xs arbitrary: i)
  case (Cons x xs)
  then show ?case by (cases i) (auto simp: ac_simps)
qed simp

lemma submit_ok:
  assumes "submit sk p = (Inr u, p')" "pool_shape p"
  shows "mset (queued p') = add_mset sk (mset (queued p))" "pool_shape p'"
    "pl_next_req_id p' = pl_next_req_id p" "length (pl_queues p') = length (pl_queues p)"
proof -
  define i where "i = pl_connection_txs p ! (unat (pl_dispatch_index p) mod length (pl_connection_txs p))"
  from assms(1) obtain ch where o: "\<not> pl_shutting_down p" "pl_connection_txs p \<noteq> []"
    "try_send sk (pl_queues p ! i) = (Inr (), ch)"
    "p' = p\<lparr>pl_dispatch_index := pl_dispatch_index p + 1, pl_queues := (pl_queues p)[i := ch]\<rparr>"
    by (auto simp: submit_def dispatch_worker_index_def Let_def i_def split: if_splits prod.splits sum.splits send_error.splits)
  have t: "pl_connection_txs p = [0..<length (pl_queues p)]" "0 < length (pl_queues p)"
    using assms(2) o(2) by (auto simp: pool_shape_def)
  then have i: "i < length (pl_queues p)" by (simp add: i_def)
  have "queue ch = queue (pl_queues p ! i) @ [sk]" using o(3) by (auto simp: try_send_def split: if_splits)
  with mset_concat_update [OF i, of queue ch]
  show "mset (queued p') = add_mset sk (mset (queued p))" by (simp add: o(4) queued_def)
  show "pool_shape p'" "pl_next_req_id p' = pl_next_req_id p" "length (pl_queues p') = length (pl_queues p)"
    using t by (simp_all add: o(4) pool_shape_def)
qed

lemma submit_err:
  assumes "submit sk p = (Inl (e, sk'), p')"
  shows "sk' = sk \<and> pl_queues p' = pl_queues p \<and> pl_connection_txs p' = pl_connection_txs p
    \<and> pl_next_req_id p' = pl_next_req_id p \<and> (e = PoolFull \<or> e = ShutdownInProgress)"
  using assms
  by (auto simp: submit_def dispatch_worker_index_def Let_def try_send_def
      split: if_splits prod.splits sum.splits send_error.splits)

lemma accept_script_pool:
  assumes "accept_script c cx sk p = (oc, p', task)"
  shows "oc = Queued \<and> submit sk p = (Inr (), p') \<or> oc \<noteq> Queued \<and> (p' = p \<or> (\<exists>x. submit sk p = (Inl x, p')))"
  using assms by (auto simp: accept_script_def split: sum.splits prod.splits if_splits)

lemma accept_script_effect:
  assumes "accept_script c cx sk p = (oc, p', task)" "pool_shape p"
  shows "mset (queued p') + mset (map fate_stream (accept_fate sk oc)) = add_mset sk (mset (queued p))"
    and "pool_shape p'" "pl_next_req_id p' = pl_next_req_id p" "length (pl_queues p') = length (pl_queues p)"
proof -
  have "mset (queued p') + mset (map fate_stream (accept_fate sk oc)) = add_mset sk (mset (queued p))
      \<and> pool_shape p' \<and> pl_next_req_id p' = pl_next_req_id p \<and> length (pl_queues p') = length (pl_queues p)"
  proof (cases "oc = Queued")
    case True
    with accept_script_pool [OF assms(1)] submit_ok [of sk p "()" p'] assms(2) show ?thesis
      by (simp add: accept_fate_def)
  next
    case False
    then have a: "map fate_stream (accept_fate sk oc) = [sk]"
      by (cases oc) (simp_all add: accept_fate_def)
    from False accept_script_pool [OF assms(1)] consider "p' = p" | e sk1 where "submit sk p = (Inl (e, sk1), p')"
      by auto
    then show ?thesis
    proof cases
      case 1
      with a assms(2) show ?thesis by simp
    next
      case 2
      from submit_err [OF 2] a assms(2) show ?thesis by (simp add: queued_def pool_shape_def)
    qed
  qed
  then show "mset (queued p') + mset (map fate_stream (accept_fate sk oc)) = add_mset sk (mset (queued p))"
    and "pool_shape p'" "pl_next_req_id p' = pl_next_req_id p" "length (pl_queues p') = length (pl_queues p)"
    by auto
qed

lemma stop_accepting_effect [simp]:
  "queued (stop_accepting p) = queued p" "pool_shape (stop_accepting p)"
  "pl_next_req_id (stop_accepting p) = pl_next_req_id p"
  "length (pl_queues (stop_accepting p)) = length (pl_queues p)"
proof -
  have "map queue (pl_queues (stop_accepting p)) = map queue (pl_queues p)"
    by (rule nth_equalityI) (simp_all add: stop_accepting_def drop_sender_def)
  then show "queued (stop_accepting p) = queued p" by (simp add: queued_def)
qed (simp_all add: stop_accepting_def pool_shape_def)

lemma dequeue_effect:
  assumes "i < length (pl_queues p)" "recv (pl_queues p ! i) = (Received sk, ch)"
  shows "add_mset sk (mset (queued (p\<lparr>pl_queues := (pl_queues p)[i := ch]\<rparr>))) = mset (queued p)"
  using mset_concat_update [OF assms(1), of queue ch] recv_Received [OF assms(2)]
  by (simp add: queued_def)

section \<open>No connection is lost\<close>

fun hand :: "worker \<Rightarrow> socket list" where
  "hand Idle = []"
| "hand (Taken sk) = [sk]"
| "hand (Busy sk req h) = [sk]"

definition in_hand :: "worker list \<Rightarrow> socket list" where
  "in_hand ws = concat (map hand ws)"

lemma in_hand_update:
  "i < length ws \<Longrightarrow> mset (in_hand (ws[i := wk])) + mset (hand (ws ! i)) = mset (in_hand ws) + mset (hand wk)"
  unfolding in_hand_def by (rule mset_concat_update)

definition conserved :: "system \<Rightarrow> bool" where
  "conserved y \<longleftrightarrow>
     pool_shape (ps_pool (sy_state y)) \<and> length (sy_workers y) = length (pl_queues (ps_pool (sy_state y)))
     \<and> mset (sy_arrived y) = mset (queued (ps_pool (sy_state y))) + mset (in_hand (sy_workers y))
         + mset (map fate_stream (sy_history y))"

lemma turn_conserved: "turn order c who y y' \<Longrightarrow> conserved y \<Longrightarrow> conserved y'"
proof (induction rule: turn.induct)
  case (accept y s sk oc p task)
  then have sh: "pool_shape (ps_pool s)" by (simp add: conserved_def)
  note e = accept_script_effect [OF accept(3) sh]
  from accept e(2,4) have "mset (sy_arrived y) = mset (queued (ps_pool s)) + mset (in_hand (sy_workers y))
      + mset (map fate_stream (sy_history y))" by (simp add: conserved_def)
  with e accept show ?case by (simp add: conserved_def)
next
  case (take_stream y s i sk ch)
  from take_stream in_hand_update [OF take_stream(2), of "Taken sk"] dequeue_effect [of i "ps_pool s" sk ch]
  show ?case by (auto simp: conserved_def pool_shape_def)
next
  case (refuse y s i sk)
  from refuse in_hand_update [OF refuse(2), of Idle] show ?case by (auto simp: conserved_def)
next
  case (start y s i sk req_id nxt req h connect elapsed)
  from start in_hand_update [OF start(2), of "Busy sk req h"]
  show ?case by (auto simp: conserved_def pool_shape_def queued_def)
next
  case (work y s i sk req h h' w)
  from work in_hand_update [OF work(2), of "Busy sk req h'"] show ?case by (auto simp: conserved_def)
next
  case (finish i y sk req r sk' ats)
  from finish in_hand_update [OF finish(1), of Idle] show ?case by (auto simp: conserved_def)
next
  case (signal y s)
  then show ?case by (simp add: conserved_def pool_shape_def queued_def)
qed (auto simp: conserved_def)

section \<open>Request identifiers\<close>

definition served_ids :: "fate list \<Rightarrow> u64 list" where
  "served_ids h = concat (map (\<lambda>f. case f of Served _ req _ _ _ \<Rightarrow> [rc_req_id req] | _ \<Rightarrow> []) h)"

fun worker_ids :: "worker \<Rightarrow> u64 list" where
  "worker_ids (Busy sk req h) = [rc_req_id req]"
| "worker_ids wk = []"

definition started_ids :: "system \<Rightarrow> u64 list" where
  "started_ids y = served_ids (sy_history y) @ concat (map worker_ids (sy_workers y))"

definition ids_numbered :: "system \<Rightarrow> bool" where
  "ids_numbered y \<longleftrightarrow>
     mset (started_ids y) = mset (map of_nat [1..<Suc (length (started_ids y))])
     \<and> pl_next_req_id (ps_pool (sy_state y)) = of_nat (Suc (length (started_ids y)))"

lemma served_ids_append [simp]: "served_ids (h @ h') = served_ids h @ served_ids h'"
  by (simp add: served_ids_def)

lemma served_ids_accept [simp]: "served_ids (accept_fate sk oc) = []"
  by (cases oc) (simp_all add: accept_fate_def served_ids_def)

lemma worker_ids_update:
  "i < length ws \<Longrightarrow> mset (concat (map worker_ids (ws[i := wk]))) + mset (worker_ids (ws ! i))
     = mset (concat (map worker_ids ws)) + mset (worker_ids wk)"
  by (rule mset_concat_update)

text \<open>Only the start of a connection gives out an identifier.\<close>

lemma turn_started:
  assumes "turn order c who y y'" "conserved y"
  shows "mset (started_ids y') = mset (started_ids y)
      \<and> pl_next_req_id (ps_pool (sy_state y')) = pl_next_req_id (ps_pool (sy_state y))
    \<or> mset (started_ids y') = add_mset (pl_next_req_id (ps_pool (sy_state y))) (mset (started_ids y))
      \<and> pl_next_req_id (ps_pool (sy_state y')) = pl_next_req_id (ps_pool (sy_state y)) + 1"
  using assms
proof (induction rule: turn.induct)
  case (accept y s sk oc p task)
  then have sh: "pool_shape (ps_pool s)" by (simp add: conserved_def)
  from accept_script_effect(3) [OF accept(3) sh] accept(1) show ?case by (simp add: started_ids_def)
next
  case (take_stream y s i sk ch)
  from take_stream worker_ids_update [OF take_stream(2), of "Taken sk"] show ?case by (simp add: started_ids_def)
next
  case (refuse y s i sk)
  from refuse worker_ids_update [OF refuse(2), of Idle] show ?case
    by (simp add: started_ids_def served_ids_def)
next
  case (start y s i sk req_id nxt req h connect elapsed)
  from start worker_ids_update [OF start(2), of "Busy sk req h"] show ?case
    by (auto simp: started_ids_def next_request_id_def)
next
  case (work y s i sk req h h' w)
  from work worker_ids_update [OF work(2), of "Busy sk req h'"] show ?case by (simp add: started_ids_def)
next
  case (finish i y sk req r sk' ats)
  from finish worker_ids_update [OF finish(1), of Idle] show ?case
    by (simp add: started_ids_def served_ids_def)
qed (simp_all add: started_ids_def)

lemma turn_ids_numbered: "turn order c who y y' \<Longrightarrow> conserved y \<and> ids_numbered y \<Longrightarrow> ids_numbered y'"
proof -
  assume t: "turn order c who y y'" and c: "conserved y \<and> ids_numbered y"
  from turn_started [OF t] c have
    "mset (started_ids y') = mset (started_ids y)
      \<and> pl_next_req_id (ps_pool (sy_state y')) = pl_next_req_id (ps_pool (sy_state y))
    \<or> mset (started_ids y') = add_mset (pl_next_req_id (ps_pool (sy_state y))) (mset (started_ids y))
      \<and> pl_next_req_id (ps_pool (sy_state y')) = pl_next_req_id (ps_pool (sy_state y)) + 1" by blast
  then show "ids_numbered y'"
  proof
    assume a: "mset (started_ids y') = mset (started_ids y)
      \<and> pl_next_req_id (ps_pool (sy_state y')) = pl_next_req_id (ps_pool (sy_state y))"
    then have "length (started_ids y') = length (started_ids y)" by (metis mset_eq_length)
    with a c show ?thesis by (simp add: ids_numbered_def)
  next
    assume a: "mset (started_ids y') = add_mset (pl_next_req_id (ps_pool (sy_state y))) (mset (started_ids y))
      \<and> pl_next_req_id (ps_pool (sy_state y')) = pl_next_req_id (ps_pool (sy_state y)) + 1"
    then have l: "length (started_ids y') = Suc (length (started_ids y))"
      by (metis size_add_mset size_mset)
    with a c show ?thesis by (simp add: ids_numbered_def add.commute)
  qed
qed

text \<open>Below \<open>2 ^ 64 - 1\<close> connections the identifiers are distinct.\<close>

lemma ids_numbered_unat:
  assumes "ids_numbered y" "length (started_ids y) < 2 ^ 64 - 1"
  shows "mset (map unat (started_ids y)) = mset [1..<Suc (length (started_ids y))]" "distinct (started_ids y)"
proof -
  define n where "n = length (started_ids y)"
  have m: "mset (started_ids y) = mset (map of_nat [1..<Suc n])"
    using assms(1) by (simp add: ids_numbered_def n_def)
  have "unat (of_nat i :: u64) = i" if "i \<in> set [1..<Suc n]" for i
    using that assms(2) by (auto simp: n_def unsigned_of_nat intro!: take_bit_nat_eq_self)
  then have u: "map unat (map of_nat [1..<Suc n] :: u64 list) = [1..<Suc n]"
    unfolding map_map comp_def by (intro map_idI)
  then show "mset (map unat (started_ids y)) = mset [1..<Suc (length (started_ids y))]"
    using m by (metis mset_map n_def)
  have "distinct (map unat (map of_nat [1..<Suc n] :: u64 list))" unfolding u by simp
  then have "distinct (map of_nat [1..<Suc n] :: u64 list)" by (simp only: distinct_map)
  then show "distinct (started_ids y)" using m by (metis mset_eq_imp_distinct_iff)
qed

end
