(* ===== verification/System_Correct.thy ===== *)
theory System_Correct
  imports System
begin

text \<open>
  Invariants of the running balancer: what the scripts in progress may still do, exact
  metrics, channels that only grow and never overflow, the log file, the worker queues, the
  rejections, and the senders that decide whether the shutdown returns; and that a balancer
  just built satisfies them all.
\<close>

section \<open>One access\<close>

definition world_extends :: "'r world \<Rightarrow> 'r world \<Rightarrow> bool" where
  "world_extends w w' \<longleftrightarrow>
     (\<exists>rs. extends (wd_log w) rs (wd_log w')) \<and> (\<exists>sts. extends (wd_stats w) sts (wd_stats w'))"

lemma world_extendsI:
  "extends (wd_log w) rs (wd_log w') \<Longrightarrow> wd_stats w' = wd_stats w \<Longrightarrow> world_extends w w'"
  unfolding world_extends_def using extends_Nil by metis

lemma world_extends_refl [simp]: "world_extends w w"
  by (auto simp: world_extends_def intro!: exI [of _ "[]"])

lemma sent_extends: "try_send x ch = (res, ch') \<Longrightarrow> \<exists>rs. extends ch rs ch' \<and> (rs = [] \<or> rs = [x])"
  using try_send_extends [of ch x] by simp

lemma script_step_extends: "script_step s w = Some (s', w') \<Longrightarrow> world_extends w w'"
proof (induction s w rule: script_step.induct)
  case (2 r k w)
  then show ?case using sent_extends [of r "wd_log w"] by (auto split: prod.splits intro: world_extendsI)
next
  case (4 st s w)
  then have "wd_log w' = wd_log w" "wd_stats w' = snd (try_send st (wd_stats w))" by auto
  with try_send_extends [of "wd_stats w" st] extends_Nil [of "wd_log w"] show ?case
    unfolding world_extends_def by metis
next
  case (9 f s w)
  then show ?case using try_send_extends [of "wd_log w" "f (wd_metrics w)"] by (auto intro: world_extendsI)
qed (auto simp: world_extends_def advance_cursor_def intro!: exI [of _ "[]"])

lemma script_step_addresses:
  "script_step s w = Some (s', w') \<Longrightarrow> rr_backend_addresses (wd_routing w') = rr_backend_addresses (wd_routing w)"
  by (induction s w rule: script_step.induct)
     (auto simp: advance_cursor_def registry_def rr_backend_addresses_def addresses_def split: prod.splits)

lemma script_step_counts:
  "script_step s w = Some (s', w') \<Longrightarrow> counts sts (wd_metrics w) \<Longrightarrow> counts (sts @ held s) (wd_metrics w')"
  by (induction s w rule: script_step.induct)
     (auto simp: held_def advance_cursor_def counts_record_request split: prod.splits)

lemma script_step_rejected:
  "script_step s w = Some (s', w') \<Longrightarrow>
     mt_pool_rejected (wd_metrics w') = mt_pool_rejected (wd_metrics w) + of_nat (owed s)"
  by (induction s w rule: script_step.induct)
     (auto simp: owed_def advance_cursor_def metrics_record_pool_rejected_def split: prod.splits)

text \<open>An access of a script of a connection: it logs at most one record of a worker, of a later
  stage, and sends statistics once.\<close>

definition handler_grows :: "u64 \<Rightarrow> nat \<Rightarrow> bool \<Rightarrow> log_record list \<Rightarrow> request_stats list \<Rightarrow> nat \<Rightarrow> bool \<Rightarrow> bool" where
  "handler_grows i n fresh rs sts n' fresh' \<longleftrightarrow>
     (list_all (\<lambda>r. lr_role r \<noteq> Worker) rs \<and> n' = n
      \<or> (\<exists>r. (rs = [] \<or> rs = [r]) \<and> lr_role r = Worker \<and> lr_req_id r = Some i \<and> n \<le> stage r \<and> n' = Suc (stage r)))
     \<and> (sts = [] \<and> (fresh' \<longrightarrow> fresh) \<or> (\<exists>st. sts = [st] \<and> st_req_id st = i) \<and> fresh \<and> \<not> fresh')"

lemma handler_step:
  assumes "handler s i n fresh" "script_step s w = Some (s', w')"
  shows "wd_metrics w' = wd_metrics w \<and> (\<exists>rs sts n' fresh'. handler s' i n' fresh'
    \<and> extends (wd_log w) rs (wd_log w') \<and> extends (wd_stats w) sts (wd_stats w')
    \<and> handler_grows i n fresh rs sts n' fresh')"
proof (cases s)
  case (Try_log r k)
  obtain res ch where t: "try_send r (wd_log w) = (res, ch)" by force
  obtain rs where rs: "extends (wd_log w) rs ch" "rs = [] \<or> rs = [r]" using sent_extends [OF t] by blast
  have w': "s' = k (is_sent res)" "w' = w\<lparr>wd_log := ch\<rparr>" using assms(2) Try_log t by auto
  show ?thesis
  proof (cases "lr_role r = Worker")
    case True
    with assms(1) Try_log rs w' show ?thesis
      by (intro conjI exI [of _ rs] exI [of _ "[]"] exI [of _ "Suc (stage r)"] exI [of _ fresh])
         (auto simp: handler_grows_def)
  next
    case False
    with assms(1) Try_log rs w' show ?thesis
      by (intro conjI exI [of _ rs] exI [of _ "[]"] exI [of _ n] exI [of _ fresh]) (auto simp: handler_grows_def)
  qed
next
  case (Try_stats st k)
  obtain sts where "extends (wd_stats w) sts (wd_stats w')" "sts = [] \<or> sts = [st]"
    using try_send_extends [of "wd_stats w" st] assms(2) Try_stats by auto
  with assms Try_stats show ?thesis
    by (intro conjI exI [of _ "[]"] exI [of _ sts] exI [of _ n] exI [of _ False]) (auto simp: handler_grows_def)
qed (use assms in \<open>auto simp: handler_grows_def advance_cursor_def intro!: exI [of _ "[]"] exI [of _ n] exI [of _ fresh]\<close>)

lemma clean_step:
  assumes "clean s" "script_step s w = Some (s', w')"
  shows "clean s' \<and> wd_stats w' = wd_stats w \<and> wd_metrics w' = wd_metrics w
    \<and> (\<exists>rs. extends (wd_log w) rs (wd_log w') \<and> list_all (\<lambda>r. lr_role r \<noteq> Worker) rs)"
proof (cases s)
  case (Try_log r k)
  obtain res ch where t: "try_send r (wd_log w) = (res, ch)" by force
  from assms Try_log t sent_extends [OF t] show ?thesis by auto
next
  case (Log_metrics f k)
  with assms try_send_extends [of "wd_log w" "f (wd_metrics w)"] show ?thesis by auto
qed (use assms in \<open>auto intro: exI [of _ "[]"]\<close>)

section \<open>The scripts in progress\<close>

definition in_stages :: "'a script \<Rightarrow> u64 \<Rightarrow> bool" where
  "in_stages h i \<longleftrightarrow> (\<exists>n fresh. handler h i n fresh)"

definition workers_ok :: "worker list \<Rightarrow> bool" where
  "workers_ok ws \<longleftrightarrow> (\<forall>sk req h. Busy sk req h \<in> set ws \<longrightarrow> in_stages h (rc_req_id req))"

definition tasks_ok :: "(thread \<Rightarrow> unit script) \<Rightarrow> bool" where
  "tasks_ok ts \<longleftrightarrow>
     (clean (ts Acceptor) \<or> (\<exists>s. ts Acceptor = Count_rejected s \<and> clean s))
     \<and> (clean (ts Aggregator) \<or> (\<exists>st s. ts Aggregator = Count_request st s \<and> clean s))
     \<and> clean (ts Prober)"

definition orderly :: "system \<Rightarrow> bool" where
  "orderly y \<longleftrightarrow> workers_ok (sy_workers y) \<and> tasks_ok (sy_tasks y)"

lemma workers_ok_update:
  "workers_ok ws \<Longrightarrow> (\<And>sk req h. wk = Busy sk req h \<Longrightarrow> in_stages h (rc_req_id req))
     \<Longrightarrow> workers_ok (ws[i := wk])"
  using set_update_subset_insert [of ws i wk] unfolding workers_ok_def by blast

lemma workers_ok_nth:
  "workers_ok ws \<Longrightarrow> i < length ws \<Longrightarrow> ws ! i = Busy sk req h \<Longrightarrow> in_stages h (rc_req_id req)"
  unfolding workers_ok_def by (metis nth_mem)

lemma in_stages_step:
  "in_stages h i \<Longrightarrow> script_step h w = Some (h', w') \<Longrightarrow> in_stages h' i \<and> wd_metrics w' = wd_metrics w"
  unfolding in_stages_def using handler_step by metis

lemma tasks_ok_simps [simp]:
  "tasks_ok (ts(Acceptor := s)) \<longleftrightarrow> (clean s \<or> (\<exists>s'. s = Count_rejected s' \<and> clean s'))
     \<and> (clean (ts Aggregator) \<or> (\<exists>st s. ts Aggregator = Count_request st s \<and> clean s)) \<and> clean (ts Prober)"
  "tasks_ok (ts(Aggregator := s)) \<longleftrightarrow> (clean (ts Acceptor) \<or> (\<exists>s. ts Acceptor = Count_rejected s \<and> clean s))
     \<and> (clean s \<or> (\<exists>st s'. s = Count_request st s' \<and> clean s')) \<and> clean (ts Prober)"
  "tasks_ok (ts(Prober := s)) \<longleftrightarrow> (clean (ts Acceptor) \<or> (\<exists>s. ts Acceptor = Count_rejected s \<and> clean s))
     \<and> (clean (ts Aggregator) \<or> (\<exists>st s. ts Aggregator = Count_request st s \<and> clean s)) \<and> clean s"
  by (simp_all add: tasks_ok_def)

text \<open>After its first access a thread has nothing left to count.\<close>

lemma tasks_ok_step:
  assumes "tasks_ok ts" "script_step (ts t) w = Some (s', w')"
  shows "clean s'" "tasks_ok (ts(t := s'))"
proof -
  show c: "clean s'"
    using assms clean_step [OF _ assms(2)] by (cases t) (auto simp: tasks_ok_def)
  show "tasks_ok (ts(t := s'))" using assms(1) c by (cases t) (simp_all add: tasks_ok_def)
qed

lemma tasks_ok_counts:
  assumes "tasks_ok ts"
  shows "t \<noteq> Acceptor \<Longrightarrow> owed (ts t) = 0" "t \<noteq> Aggregator \<Longrightarrow> held (ts t) = []"
  using assms by (cases t; auto simp: tasks_ok_def)+

lemma task_step:
  assumes "tasks_ok ts" "script_step (ts t) w = Some (s', w')"
  shows "wd_stats w' = wd_stats w
    \<and> (\<exists>rs. extends (wd_log w) rs (wd_log w') \<and> list_all (\<lambda>r. lr_role r \<noteq> Worker) rs)"
proof (cases "clean (ts t)")
  case True
  with clean_step [OF this assms(2)] show ?thesis by blast
next
  case False
  then have "(\<exists>s. ts t = Count_rejected s) \<or> (\<exists>st s. ts t = Count_request st s)"
    using assms(1) by (cases t) (auto simp: tasks_ok_def)
  with assms(2) show ?thesis by (auto intro!: exI [of _ "[]"])
qed

lemma turn_orderly: "turn order c who y y' \<Longrightarrow> orderly y \<Longrightarrow> orderly y'"
proof (induction rule: turn.induct)
  case (accept y s sk oc p task)
  from accept_script_clean [OF accept(3)] accept show ?case by (auto simp: orderly_def tasks_ok_def)
next
  case (accept_error y s e)
  then show ?case by (simp add: orderly_def tasks_ok_def accept_error_clean)
next
  case (start y s i sk req_id nxt req h connect elapsed)
  have "in_stages h (rc_req_id req)" unfolding start(7) in_stages_def using handler_handle by blast
  with start show ?case by (auto simp: orderly_def intro: workers_ok_update)
next
  case (work y s i sk req h h' w)
  from work have "in_stages h (rc_req_id req)" by (auto simp: orderly_def intro: workers_ok_nth)
  with in_stages_step [OF this work(4)] work show ?case by (auto simp: orderly_def intro: workers_ok_update)
next
  case (collect y s st ch clock ag task)
  from aggregator_script_clean [OF collect(4)] collect show ?case by (auto simp: orderly_def tasks_ok_def)
next
  case (proceed y s t task w)
  with tasks_ok_step(2) [of "sy_tasks y" t "ps_world s" task w] show ?case by (simp add: orderly_def)
next
  case (probe y s a ok bs ev)
  from event_script_clean [OF probe(4)] probe show ?case by (simp add: orderly_def tasks_ok_def)
qed (auto simp: orderly_def intro: workers_ok_update)

text \<open>What a connection's access does to the shared state.\<close>

lemma work_step:
  assumes "orderly y" "i < length (sy_workers y)" "sy_workers y ! i = Busy sk req h"
    and "script_step h w = Some (h', w')"
  shows "wd_metrics w' = wd_metrics w"
  using assms in_stages_step workers_ok_nth unfolding orderly_def by metis

section \<open>The metrics count the records taken\<close>

definition metrics_exact :: "system \<Rightarrow> bool" where
  "metrics_exact y \<longleftrightarrow> counts (sy_counted y) (wd_metrics (ps_world (sy_state y)))"

lemma turn_metrics_exact: "turn order c who y y' \<Longrightarrow> orderly y \<and> metrics_exact y \<Longrightarrow> metrics_exact y'"
proof (induction rule: turn.induct)
  case (work y s i sk req h h' w)
  with work_step [of y i sk req h "ps_world s" h' w] show ?case by (simp add: metrics_exact_def)
next
  case (proceed y s t task w)
  then show ?case using script_step_counts by (auto simp: metrics_exact_def)
qed (auto simp: metrics_exact_def)

section \<open>The channels\<close>

text \<open>Everything the log channel has accepted, in order, and likewise for the statistics.\<close>

definition log_stream :: "system \<Rightarrow> log_record list" where
  "log_stream y = sy_written y @ queue (wd_log (ps_world (sy_state y)))"

definition stats_stream :: "system \<Rightarrow> request_stats list" where
  "stats_stream y =
    sy_counted y @ held (sy_tasks y Aggregator) @ queue (wd_stats (ps_world (sy_state y)))"

definition channels_bounded :: "'r world \<Rightarrow> bool" where
  "channels_bounded w \<longleftrightarrow> within_capacity (wd_log w) \<and> within_capacity (wd_stats w)"

definition streams_grow :: "system \<Rightarrow> system \<Rightarrow> bool" where
  "streams_grow y y' \<longleftrightarrow>
     (\<exists>rs. log_stream y' = log_stream y @ rs) \<and> (\<exists>sts. stats_stream y' = stats_stream y @ sts)"

lemma streams_grow_refl: "streams_grow y y"
  by (simp add: streams_grow_def)

lemma streams_grow_trans: "streams_grow y y1 \<Longrightarrow> streams_grow y1 y2 \<Longrightarrow> streams_grow y y2"
  by (fastforce simp: streams_grow_def)

lemma world_extends_bounded: "world_extends w w' \<Longrightarrow> channels_bounded w \<Longrightarrow> channels_bounded w'"
  unfolding world_extends_def channels_bounded_def by (meson extends_within)

lemma turn_channels_bounded:
  "turn order c who y y' \<Longrightarrow> channels_bounded (ps_world (sy_state y)) \<Longrightarrow> channels_bounded (ps_world (sy_state y'))"
proof (induction rule: turn.induct)
  case (work y s i sk req h h' w)
  then show ?case using script_step_extends world_extends_bounded by fastforce
next
  case (proceed y s t task w)
  then show ?case using script_step_extends world_extends_bounded by fastforce
next
  case (collect y s st ch clock ag task)
  then show ?case using recv_within [of "wd_stats (ps_world s)"] by (auto simp: channels_bounded_def)
next
  case (write_log y s r ch)
  then show ?case using recv_within [of "wd_log (ps_world s)"] by (auto simp: channels_bounded_def)
qed (auto simp: channels_bounded_def)

text \<open>Only the accesses of the workers and of the other threads' scripts add to the streams;
  the others add no record of a worker and no statistics.\<close>

definition busy_from :: "system \<Rightarrow> system \<Rightarrow> bool" where
  "busy_from y y' \<longleftrightarrow>
     (\<forall>sk req h. Busy sk req h \<in> set (sy_workers y') \<longrightarrow> Busy sk req h \<in> set (sy_workers y)
        \<or> handler h (rc_req_id req) 0 True
          \<and> mset (started_ids y') = add_mset (rc_req_id req) (mset (started_ids y)))"

definition worked :: "system \<Rightarrow> system \<Rightarrow> log_record list \<Rightarrow> request_stats list \<Rightarrow> bool" where
  "worked y y' rs sts \<longleftrightarrow>
     (\<exists>i sk req h h'. i < length (sy_workers y) \<and> sy_workers y ! i = Busy sk req h
        \<and> sy_workers y' = (sy_workers y)[i := Busy sk req h']
        \<and> script_step h (ps_world (sy_state y)) = Some (h', ps_world (sy_state y'))
        \<and> extends (wd_log (ps_world (sy_state y))) rs (wd_log (ps_world (sy_state y')))
        \<and> extends (wd_stats (ps_world (sy_state y))) sts (wd_stats (ps_world (sy_state y'))))"

lemma busy_update [dest]:
  "Busy sk req h \<in> set (ws[i := Idle]) \<Longrightarrow> Busy sk req h \<in> set ws"
  "Busy sk req h \<in> set (ws[i := Taken sk']) \<Longrightarrow> Busy sk req h \<in> set ws"
  using set_update_subset_insert [of ws i] by blast+

lemma turn_grows:
  assumes "turn order c who y y'" "orderly y"
  shows "\<exists>rs sts. log_stream y' = log_stream y @ rs \<and> stats_stream y' = stats_stream y @ sts
    \<and> (list_all (\<lambda>r. lr_role r \<noteq> Worker) rs \<and> sts = [] \<and> busy_from y y' \<or> worked y y' rs sts)"
  using assms
proof (induction rule: turn.induct)
  case (start y s i sk req_id nxt req h connect elapsed)
  let ?y = "y\<lparr>sy_state := s\<lparr>ps_pool := (ps_pool s)\<lparr>pl_next_req_id := nxt\<rparr>\<rparr>, sy_workers := (sy_workers y)[i := Busy sk req h]\<rparr>"
  have "mset (started_ids ?y) = add_mset (rc_req_id req) (mset (started_ids y))"
    using worker_ids_update [OF start(2), of "Busy sk req h"] start(3) by (simp add: started_ids_def)
  moreover have "handler h (rc_req_id req) 0 True" unfolding start(7) by (rule handler_handle)
  moreover have "x = Busy sk req h \<or> x \<in> set (sy_workers y)" if "x \<in> set ((sy_workers y)[i := Busy sk req h])" for x
    using that set_update_subset_insert [of "sy_workers y" i "Busy sk req h"] by blast
  ultimately have "busy_from y ?y" unfolding busy_from_def by auto
  with start(1) show ?case by (intro exI [of _ "[]"]) (simp add: log_stream_def stats_stream_def)
next
  case (work y s i sk req h h' w)
  from script_step_extends [OF work(4)] obtain rs sts where
    e: "extends (wd_log (ps_world s)) rs (wd_log w)" "extends (wd_stats (ps_world s)) sts (wd_stats w)"
    unfolding world_extends_def by blast
  have "worked y (y\<lparr>sy_state := s\<lparr>ps_world := w\<rparr>, sy_workers := (sy_workers y)[i := Busy sk req h']\<rparr>) rs sts"
    unfolding worked_def using work e
    by (intro exI [of _ i] exI [of _ sk] exI [of _ req] exI [of _ h] exI [of _ h']) simp
  with work(1) extends_queue [OF e(1)] extends_queue [OF e(2)] show ?case
    by (intro exI [of _ rs] exI [of _ sts]) (simp add: log_stream_def stats_stream_def)
next
  case (proceed y s t task w)
  then have ts: "tasks_ok (sy_tasks y)" by (simp add: orderly_def)
  have c: "clean task" by (rule tasks_ok_step(1) [OF ts proceed(2)])
  have h: "t \<noteq> Aggregator \<Longrightarrow> held (sy_tasks y t) = []" by (rule tasks_ok_counts(2) [OF ts])
  from task_step [OF ts proceed(2)] obtain rs where "wd_stats w = wd_stats (ps_world s)"
    "extends (wd_log (ps_world s)) rs (wd_log w)" "list_all (\<lambda>r. lr_role r \<noteq> Worker) rs" by blast
  with proceed(1) c h extends_queue [of "wd_log (ps_world s)" rs "wd_log w"] show ?case
    by (intro exI [of _ rs] exI [of _ "[]"]) (auto simp: log_stream_def stats_stream_def busy_from_def)
next
  case (collect y s st ch clock ag task)
  have q: "queue (wd_stats (ps_world s)) = st # queue ch" using collect(3) by (rule recv_Received)
  from aggregator_script_clean [OF collect(4)] have "held task = [st]" by (auto simp: held_def)
  with collect q show ?case
    by (intro exI [of _ "[]"]) (simp add: log_stream_def stats_stream_def held_def busy_from_def)
next
  case (write_log y s r ch)
  have q: "queue (wd_log (ps_world s)) = r # queue ch" using write_log(2) by (rule recv_Received)
  with write_log show ?case
    by (intro exI [of _ "[]"]) (simp add: log_stream_def stats_stream_def busy_from_def)
qed (intro exI [of _ "[]"], auto simp add: log_stream_def stats_stream_def busy_from_def)+

lemma turn_streams: "turn order c who y y' \<Longrightarrow> orderly y \<Longrightarrow> streams_grow y y'"
  unfolding streams_grow_def using turn_grows by metis

section \<open>The log file\<close>

text \<open>With a file that takes every write, the lines are the records taken, filtered by level.\<close>

definition log_faithful :: "log_level \<Rightarrow> system \<Rightarrow> bool" where
  "log_faithful level y \<longleftrightarrow>
     (let lg = ps_logger (sy_state y)
      in lg_fault lg = None \<and> lg_min_level lg = level
         \<and> logger_accepted lg = filter (meets_min_level level) (sy_written y))"

lemma turn_log_faithful: "turn order c who y y' \<Longrightarrow> log_faithful level y \<Longrightarrow> log_faithful level y'"
proof (induction rule: turn.induct)
  case (write_log y s r ch)
  then show ?case
    by (auto simp: log_faithful_def Let_def log_writer_turn_def logger_write_record_def logger_accepted_def)
qed (auto simp: log_faithful_def Let_def)

section \<open>The worker queues\<close>

definition queues_bounded :: "pool \<Rightarrow> bool" where
  "queues_bounded p \<longleftrightarrow> (\<forall>ch\<in>set (pl_queues p). within_capacity ch)"

lemma submit_bounded: "queues_bounded p \<Longrightarrow> queues_bounded (snd (submit sk p))"
proof -
  assume b: "queues_bounded p"
  define i where "i = pl_connection_txs p ! (unat (pl_dispatch_index p) mod length (pl_connection_txs p))"
  define ch where "ch = snd (try_send sk (pl_queues p ! i))"
  have "pl_queues (snd (submit sk p)) = pl_queues p \<or> pl_queues (snd (submit sk p)) = (pl_queues p)[i := ch]"
    by (auto simp: submit_def dispatch_worker_index_def Let_def i_def ch_def
        split: if_splits prod.splits sum.splits send_error.splits)
  moreover have "within_capacity ch" if "i < length (pl_queues p)"
    using that b try_send_within unfolding ch_def queues_bounded_def by (meson nth_mem)
  moreover have "(pl_queues p)[i := ch] = pl_queues p" if "\<not> i < length (pl_queues p)"
    using that by (simp add: list_update_beyond)
  ultimately show ?thesis
    using b set_update_subset_insert [of "pl_queues p" i ch] unfolding queues_bounded_def by (metis insert_iff subset_iff)
qed

lemma stop_accepting_bounded: "queues_bounded p \<Longrightarrow> queues_bounded (stop_accepting p)"
  by (auto simp: queues_bounded_def stop_accepting_def drop_sender_def within_capacity_def dest: nth_mem)

lemma turn_queues_bounded:
  "turn order c who y y' \<Longrightarrow> queues_bounded (ps_pool (sy_state y)) \<Longrightarrow> queues_bounded (ps_pool (sy_state y'))"
proof (induction rule: turn.induct)
  case (accept y s sk oc p task)
  then show ?case using accept_script_pool [OF accept(3)] submit_bounded [of "ps_pool s" sk] by auto
next
  case (take_stream y s i sk ch)
  show ?case
  proof (cases "i < length (pl_queues (ps_pool s))")
    case True
    then have "within_capacity (pl_queues (ps_pool s) ! i)"
      using take_stream(1,5) by (auto simp: queues_bounded_def)
    then have "within_capacity ch" using recv_within [of "pl_queues (ps_pool s) ! i"] take_stream(4) by simp
    then show ?thesis
      using take_stream(1,5) set_update_subset_insert [of "pl_queues (ps_pool s)" i ch]
      by (auto simp: queues_bounded_def)
  next
    case False
    with take_stream show ?thesis by (simp add: list_update_beyond)
  qed
qed (auto simp: stop_accepting_bounded, auto simp: queues_bounded_def)

section \<open>The backends and the context\<close>

lemma turn_backends:
  "turn order c who y y' \<Longrightarrow>
     rr_backend_addresses (wd_routing (ps_world (sy_state y')))
       = rr_backend_addresses (wd_routing (ps_world (sy_state y)))"
proof (induction rule: turn.induct)
  case (work y s i sk req h h' w)
  then show ?case using script_step_addresses by auto
next
  case (proceed y s t task w)
  then show ?case using script_step_addresses by auto
next
  case (probe y s a ok bs ev)
  then show ?case
    using health_probe_addresses [of "health c" a ok "registry (ps_world s)"]
    by (simp add: rr_backend_addresses_def registry_def)
qed auto

lemma turn_context: "turn order c who y y' \<Longrightarrow> ps_context (sy_state y') = ps_context (sy_state y)"
  by (induction rule: turn.induct) auto

section \<open>The rejections\<close>

definition overflowed :: "fate list \<Rightarrow> fate list" where
  "overflowed h = filter (\<lambda>f. case f of Overflowed _ \<Rightarrow> True | _ \<Rightarrow> False) h"

definition rejections_exact :: "system \<Rightarrow> bool" where
  "rejections_exact y \<longleftrightarrow>
     cx_metrics (ps_context (sy_state y))
     \<and> mt_pool_rejected (wd_metrics (ps_world (sy_state y))) + of_nat (owed (sy_tasks y Acceptor))
         = of_nat (length (overflowed (sy_history y)))"

lemma overflowed_append [simp]: "overflowed (h @ h') = overflowed h @ overflowed h'"
  by (simp add: overflowed_def)

lemma accept_script_owed:
  assumes "accept_script c cx sk p = (oc, p', task)" "cx_metrics cx"
  shows "owed task = length (overflowed (accept_fate sk oc))"
  using accept_script_clean [OF assms(1)] assms(2)
  by (auto simp: accept_fate_def overflowed_def split: accept_outcome.splits)

lemma turn_rejections_exact:
  "turn order c who y y' \<Longrightarrow> orderly y \<and> rejections_exact y \<Longrightarrow> rejections_exact y'"
proof (induction rule: turn.induct)
  case (accept y s sk oc p task)
  then have "cx_metrics (ps_context s)" by (simp add: rejections_exact_def)
  from accept_script_owed [OF accept(3) this] accept show ?case by (simp add: rejections_exact_def)
next
  case (accept_error y s e)
  then show ?case by (simp add: rejections_exact_def accept_error_clean)
next
  case (work y s i sk req h h' w)
  with work_step [of y i sk req h "ps_world s" h' w] show ?case by (simp add: rejections_exact_def)
next
  case (proceed y s t task w)
  then have ts: "tasks_ok (sy_tasks y)" by (simp add: orderly_def)
  have "owed task = 0" using tasks_ok_step(1) [OF ts proceed(2)] by simp
  with proceed script_step_rejected [OF proceed(2)] tasks_ok_counts(1) [OF ts, of t] show ?case
    by (cases "t = Acceptor") (auto simp: rejections_exact_def)
qed (auto simp: rejections_exact_def overflowed_def)

section \<open>The dispatch\<close>

text \<open>The workers chosen by successive submissions.\<close>

fun dispatch_many :: "nat \<Rightarrow> u64 \<Rightarrow> nat \<Rightarrow> nat list" where
  "dispatch_many 0 index worker_count = []"
| "dispatch_many (Suc k) index worker_count =
    (case dispatch_worker_index index worker_count of (i, next) \<Rightarrow> i # dispatch_many k next worker_count)"

lemma dispatch_many_eq:
  "unat index + k < 2 ^ 64 \<Longrightarrow>
     dispatch_many k index n = map (\<lambda>i. (unat index + i) mod n) [0..<k]"
proof (induction k arbitrary: index)
  case (Suc k)
  have u: "unat (index + 1) = unat index + 1"
    using unat_add_of_nat64 [of index 1] Suc.prems by simp
  have "dispatch_many k (index + 1) n = map (\<lambda>i. (unat index + Suc i) mod n) [0..<k]"
    using Suc.IH [of "index + 1"] Suc.prems u by simp
  then show ?case
    by (simp add: dispatch_worker_index_def upt_conv_Cons map_Suc_upt [symmetric] comp_def del: upt_Suc)
qed simp

lemma dispatch_round:
  assumes "0 < n" "unat index + k * n < 2 ^ 64"
  shows "mset (dispatch_many (k * n) index n) = repeat_mset k (mset [0..<n])"
proof -
  have "dispatch_many (k * n) index n
      = map (\<lambda>i. [0..<n] ! ((unat index + i) mod length [0..<n])) [0..<k * length [0..<n]]"
    using assms dispatch_many_eq [of index "k * n" n] by simp
  with mset_round [of "[0..<n]" "unat index" k] assms(1) show ?thesis by simp
qed

section \<open>The senders\<close>

text \<open>No turn creates or drops a sender except by closing the queues.\<close>

definition same_senders :: "pool \<Rightarrow> pool \<Rightarrow> bool" where
  "same_senders p p' \<longleftrightarrow>
     map senders (pl_queues p') = map senders (pl_queues p)
     \<and> pl_connection_txs p' = pl_connection_txs p \<and> pl_handles p' = pl_handles p
     \<and> pl_log_tx p' = pl_log_tx p \<and> pl_metrics_tx p' = pl_metrics_tx p"

lemma same_senders_refl: "same_senders p p"
  by (simp add: same_senders_def)

lemma same_senders_trans: "same_senders p p1 \<Longrightarrow> same_senders p1 p2 \<Longrightarrow> same_senders p p2"
  by (simp add: same_senders_def)

lemma all_map_eq: "map f xs = map f ys \<Longrightarrow> (\<forall>x\<in>set xs. f x = n) \<longleftrightarrow> (\<forall>y\<in>set ys. f y = n)"
proof -
  assume "map f xs = map f ys"
  then have "f ` set xs = f ` set ys" by (metis set_map)
  moreover have "(\<forall>x\<in>set zs. f x = n) \<longleftrightarrow> f ` set zs \<subseteq> {n}" for zs by auto
  ultimately show ?thesis by metis
qed

lemma running_frame:
  assumes r: "running extra s" and "same_senders (ps_pool s) (ps_pool s')" "ps_context s' = ps_context s"
    "senders (wd_log (ps_world s')) = senders (wd_log (ps_world s))"
    "senders (wd_stats (ps_world s')) = senders (wd_stats (ps_world s))"
  shows "running extra s'"
proof -
  have m: "map senders (pl_queues (ps_pool s')) = map senders (pl_queues (ps_pool s))"
    and f: "pl_connection_txs (ps_pool s') = pl_connection_txs (ps_pool s)"
      "pl_handles (ps_pool s') = pl_handles (ps_pool s)"
      "pl_log_tx (ps_pool s') = pl_log_tx (ps_pool s)" "pl_metrics_tx (ps_pool s') = pl_metrics_tx (ps_pool s)"
    using assms(2) by (simp_all add: same_senders_def)
  have "length (pl_queues (ps_pool s')) = length (pl_queues (ps_pool s))"
    using m by (metis length_map)
  then show ?thesis
    using r unfolding running_def Let_def
    by (simp only: f assms(3-5) all_map_eq [OF m])
qed

lemma extends_senders: "extends ch rs ch' \<Longrightarrow> senders ch' = senders ch"
  by (simp add: extends_def)

lemma world_extends_senders:
  "world_extends w w' \<Longrightarrow> senders (wd_log w') = senders (wd_log w) \<and> senders (wd_stats w') = senders (wd_stats w)"
  unfolding world_extends_def by (meson extends_senders)

lemma recv_senders: "senders (snd (recv ch)) = senders ch"
  by (simp add: recv_def split: list.splits)

lemma update_senders: "senders ch = senders (xs ! i) \<Longrightarrow> map senders (xs[i := ch]) = map senders xs"
  by (simp add: map_update list_update_same_conv) (metis length_map list_update_beyond list_update_id map_update nth_map not_less)

lemma submit_senders: "same_senders p (snd (submit sk p))"
proof -
  define i where "i = pl_connection_txs p ! (unat (pl_dispatch_index p) mod length (pl_connection_txs p))"
  define ch where "ch = snd (try_send sk (pl_queues p ! i))"
  have "map senders ((pl_queues p)[i := ch]) = map senders (pl_queues p)"
    by (rule update_senders) (simp add: ch_def)
  moreover have "snd (submit sk p) = p \<or> snd (submit sk p) = p\<lparr>pl_dispatch_index := pl_dispatch_index p + 1\<rparr>
      \<or> snd (submit sk p) = p\<lparr>pl_dispatch_index := pl_dispatch_index p + 1, pl_queues := (pl_queues p)[i := ch]\<rparr>"
    by (auto simp: submit_def dispatch_worker_index_def Let_def i_def ch_def
        split: if_splits prod.splits sum.splits send_error.splits)
  ultimately show ?thesis by (auto simp: same_senders_def)
qed

lemma accept_script_senders: "accept_script c cx sk p = (oc, p', task) \<Longrightarrow> same_senders p p'"
  using accept_script_pool [of c cx sk p oc p' task] submit_senders [of p sk] by (auto simp: same_senders_refl)

lemma running_world:
  assumes "running extra s" "senders (wd_log w) = senders (wd_log (ps_world s))"
    "senders (wd_stats w) = senders (wd_stats (ps_world s))"
  shows "running extra (s\<lparr>ps_world := w\<rparr>)"
  using running_frame [OF assms(1), of "s\<lparr>ps_world := w\<rparr>"] assms(2,3) by (simp add: same_senders_refl)

lemma running_pool:
  assumes "running extra s" "same_senders (ps_pool s) p"
  shows "running extra (s\<lparr>ps_pool := p\<rparr>)"
  using running_frame [OF assms(1), of "s\<lparr>ps_pool := p\<rparr>"] assms(2) by simp

lemma running_script:
  assumes "running extra s" "script_step h (ps_world s) = Some (h', w)"
  shows "running extra (s\<lparr>ps_world := w\<rparr>)"
  using world_extends_senders [OF script_step_extends [OF assms(2)]] by (intro running_world [OF assms(1)]) simp_all

lemma running_others [simp]:
  "running extra (s\<lparr>ps_aggregator := ag, ps_world := w\<rparr>) = running extra (s\<lparr>ps_world := w\<rparr>)"
  "running extra (s\<lparr>ps_logger := lg, ps_world := w\<rparr>) = running extra (s\<lparr>ps_world := w\<rparr>)"
  by (simp_all add: running_def)

lemma recv_keeps_senders: "recv ch = (x, ch') \<Longrightarrow> senders ch' = senders ch"
  using recv_senders [of ch] by simp

lemma turn_running: "turn order c who y y' \<Longrightarrow> running extra (sy_state y) \<Longrightarrow> running extra (sy_state y')"
proof (induction rule: turn.induct)
  case (accept y s sk oc p task)
  then show ?case using running_pool [OF _ accept_script_senders [OF accept(3)]] by simp
next
  case (take_stream y s i sk ch)
  have "same_senders (ps_pool s) ((ps_pool s)\<lparr>pl_queues := (pl_queues (ps_pool s))[i := ch]\<rparr>)"
    using update_senders [OF recv_keeps_senders [OF take_stream(4)]] by (simp add: same_senders_def)
  with take_stream(1,5) show ?case by (auto intro: running_pool)
next
  case (start y s i sk req_id nxt req h connect elapsed)
  then show ?case by (auto simp: same_senders_def intro: running_pool)
next
  case (work y s i sk req h h' w)
  then show ?case using running_script by simp
next
  case (collect y s st ch clock ag task)
  then show ?case using recv_keeps_senders [OF collect(3)] by (auto intro: running_world)
next
  case (proceed y s t task w)
  then show ?case using running_script by simp
next
  case (write_log y s r ch)
  then show ?case using recv_keeps_senders [OF write_log(2)] by (auto intro: running_world)
next
  case (probe y s a ok bs ev)
  then show ?case by (auto intro: running_world)
next
  case (signal y s)
  then show ?case by (auto simp: same_senders_def intro: running_pool)
next
  case (stop y s)
  then show ?case using running_stop_accepting by simp
qed simp_all

section \<open>A balancer just built\<close>

lemma balancer_build_parts:
  assumes "balancer_build mk_logger now c = Inr b"
  obtains lg w where "mk_logger = Inr lg" "validate_pool (pool c) = Inr ()"
    "pl_queues (ps_pool (bl_state b)) = replicate (workers (pool c)) (sync_channel (per_worker_queue (pool c)))"
    "pl_connection_txs (ps_pool (bl_state b)) = [0..<workers (pool c)]"
    "pl_next_req_id (ps_pool (bl_state b)) = 1"
    "cx_metrics (ps_context (bl_state b))" "ps_logger (bl_state b) = lg"
    "wd_metrics (ps_world (bl_state b)) = default_metrics now"
    "wd_stats (ps_world (bl_state b)) = clone_sender (sync_channel (metrics_channel_capacity (pool c)))"
    "within_capacity (wd_log (ps_world (bl_state b)))"
    "list_all (\<lambda>r. lr_role r \<noteq> Worker) (queue (wd_log (ps_world (bl_state b))))"
proof -
  have lim: "within_capacity (snd (try_send r (clone_sender (clone_sender (sync_channel n)))))" for r :: log_record and n
    by (rule try_send_within) (simp add: within_capacity_def clone_sender_def sync_channel_def)
  from assms obtain cx ro p cx' w logger where
    b: "pool_new mk_logger now (rr_backend_addresses ro) cx ro (pool c) = Inr (p, cx', w, logger)"
      "b = \<lparr>bl_config = c, bl_state = start_state now (p, cx', w\<lparr>wd_log := clone_sender (wd_log w)\<rparr>, logger),
            bl_health_running = True, bl_listener = False\<rparr>"
    by (auto simp: balancer_build_def Let_def result_simps split: if_splits)
  have "lr_role (startup_record a as pc) \<noteq> Worker" for a as pc by (simp add: startup_record_def)
  then have "list_all (\<lambda>r. lr_role r \<noteq> Worker)
      (queue (snd (try_send (startup_record a as pc) (clone_sender (clone_sender (sync_channel n))))))" for a as pc n
    by (simp add: try_send_def clone_sender_def sync_channel_def)
  with b(1) have "list_all (\<lambda>r. lr_role r \<noteq> Worker) (queue (wd_log w))"
    by (auto simp: pool_new_def observability_start_def Let_def result_simps)
  then have q: "list_all (\<lambda>r. lr_role r \<noteq> Worker) (queue (clone_sender (wd_log w)))"
    by (simp add: clone_sender_def)
  from b(1) have w: "within_capacity (wd_log w)"
    by (auto simp: pool_new_def observability_start_def Let_def result_simps lim)
  then have "within_capacity (clone_sender (wd_log w))" by (simp add: within_capacity_def clone_sender_def)
  with b q show thesis
    by (intro that [of logger])
       (auto simp: pool_new_def observability_start_def Let_def result_simps start_state_def
          attach_observability_def)
qed

lemma balancer_build_context:
  assumes "balancer_build mk_logger now c = Inr b"
  shows "cx_limits (ps_context (bl_state b)) = limits c" "cx_timeouts (ps_context (bl_state b)) = timeouts c"
    "cx_max_backend_retries (ps_context (bl_state b)) = max_backend_retries c"
    "wd_routing (ps_world (bl_state b)) = rr_new (new_backend_set (backends c))"
    "\<not> pl_shutting_down (ps_pool (bl_state b))" "pl_dispatch_index (ps_pool (bl_state b)) = 0"
  using assms
  by (auto simp: balancer_build_def context_from_config_def pool_new_def observability_start_def Let_def
      result_simps start_state_def attach_observability_def split: if_splits)

text \<open>What holds in every state a balancer reaches.\<close>

definition sound :: "system \<Rightarrow> bool" where
  "sound y \<longleftrightarrow> conserved y \<and> ids_numbered y \<and> orderly y \<and> metrics_exact y \<and> rejections_exact y
     \<and> queues_bounded (ps_pool (sy_state y)) \<and> channels_bounded (ps_world (sy_state y))"

lemma initial_sound:
  assumes "balancer_build mk_logger now c = Inr b"
  shows "sound (initial b)"
proof -
  from assms obtain lg where i:
    "pl_queues (ps_pool (bl_state b)) = replicate (workers (pool c)) (sync_channel (per_worker_queue (pool c)))"
    "pl_connection_txs (ps_pool (bl_state b)) = [0..<workers (pool c)]"
    "pl_next_req_id (ps_pool (bl_state b)) = 1"
    "cx_metrics (ps_context (bl_state b))"
    "wd_metrics (ps_world (bl_state b)) = default_metrics now"
    "wd_stats (ps_world (bl_state b)) = clone_sender (sync_channel (metrics_channel_capacity (pool c)))"
    "within_capacity (wd_log (ps_world (bl_state b)))"
    by (rule balancer_build_parts)
  have none: "concat (map worker_ids (replicate n Idle)) = []" "in_hand (replicate n Idle) = []" for n
    by (induction n) (simp_all add: in_hand_def)
  have "conserved (initial b)"
    by (simp add: initial_def conserved_def pool_shape_def queued_def i sync_channel_def none)
  moreover have "ids_numbered (initial b)"
    by (simp add: initial_def ids_numbered_def started_ids_def served_ids_def i none)
  moreover have "orderly (initial b)"
    by (auto simp: initial_def orderly_def workers_ok_def tasks_ok_def)
  moreover have "metrics_exact (initial b)" by (simp add: initial_def metrics_exact_def i counts_default)
  moreover have "rejections_exact (initial b)"
    by (simp add: initial_def rejections_exact_def i overflowed_def default_metrics_def)
  moreover have "queues_bounded (ps_pool (sy_state (initial b)))"
    by (simp add: initial_def queues_bounded_def i within_capacity_def sync_channel_def)
  moreover have "within_capacity (wd_stats (ps_world (bl_state b)))"
    unfolding i(6) by (simp add: within_capacity_def sync_channel_def clone_sender_def)
  then have "channels_bounded (ps_world (sy_state (initial b)))"
    using i(7) by (simp add: initial_def channels_bounded_def)
  ultimately show ?thesis by (simp add: sound_def)
qed

lemma turn_sound: "turn order c who y y' \<Longrightarrow> sound y \<Longrightarrow> sound y'"
  unfolding sound_def
  using turn_conserved turn_ids_numbered turn_orderly turn_metrics_exact turn_rejections_exact
    turn_queues_bounded turn_channels_bounded by metis

lemma reachable_from_sound: "reachable order c y0 y \<Longrightarrow> sound y0 \<Longrightarrow> sound y"
  by (rule reachable_invariant [of order c y0 y sound]) (auto intro: turn_sound)

lemma reachable_sound:
  assumes "balancer_build mk_logger now c = Inr b" "reachable order c (initial b) y"
  shows "sound y"
  using assms(2) initial_sound [OF assms(1)] by (rule reachable_from_sound)

lemma reachable_backends:
  assumes "balancer_build mk_logger now c = Inr b" "reachable order c (initial b) y"
  shows "rr_backend_addresses (wd_routing (ps_world (sy_state y))) = backends c"
  by (rule reachable_invariant [OF assms(2)])
     (use balancer_build_running [OF assms(1)] turn_backends in \<open>auto simp: initial_def\<close>)

lemma reachable_context:
  assumes "reachable order c (initial b) y"
  shows "ps_context (sy_state y) = ps_context (bl_state b)"
  by (rule reachable_invariant [OF assms]) (use turn_context in \<open>auto simp: initial_def\<close>)

lemma reachable_log:
  assumes b: "balancer_build (logger_new_in_dir mk_fault op_fault dir var t0) now c = Inr b"
    and r: "reachable order c (initial b) y"
  shows "log_faithful (level_from_env var) y"
proof -
  from b obtain lg where lg: "logger_new_in_dir mk_fault op_fault dir var t0 = Inr lg" "ps_logger (bl_state b) = lg"
    by (rule balancer_build_parts)
  have "lg = \<lparr>lg_lines = [], lg_min_level = level_from_env var, lg_now = t0, lg_fault = None\<rparr>"
    using lg(1) by (simp add: logger_new_in_dir_def split: option.splits)
  with lg(2) have "log_faithful (level_from_env var) (initial b)"
    by (simp add: log_faithful_def initial_def logger_accepted_def)
  then show ?thesis by (rule reachable_invariant [OF r]) (rule turn_log_faithful)
qed

lemma reachable_streams: "reachable order c y y' \<Longrightarrow> sound y \<Longrightarrow> streams_grow y y'"
proof -
  assume r: "reachable order c y y'" and s: "sound y"
  have "sound y' \<and> streams_grow y y'"
    by (rule reachable_invariant [OF r])
       (use s turn_sound turn_streams streams_grow_refl streams_grow_trans in \<open>auto simp: sound_def\<close>)
  then show ?thesis ..
qed

lemma reachable_running:
  assumes "balancer_build mk_logger now c = Inr b" "reachable order c (initial b) y"
  shows "running 1 (sy_state y)"
  by (rule reachable_invariant [OF assms(2)])
     (use balancer_build_running [OF assms(1)] turn_running in \<open>auto simp: initial_def\<close>)

end
