(* ===== verification/System_Requests.thy ===== *)
theory System_Requests
  imports System_Correct
begin

text \<open>
  The requests of a running balancer, whatever the interleaving: each connection ends as
  \<open>handle_connection\<close> alone would have ended it for some answers of the registry; its records
  appear in the log in the order of its stages; it is counted at most once.
\<close>

section \<open>Each connection as if alone\<close>

text \<open>What is left of the script of a connection can only end as the script itself.\<close>

definition rest_of :: "socket_addr list \<Rightarrow> proxy_context \<Rightarrow> request_context \<Rightarrow> socket \<Rightarrow> handled script \<Rightarrow> bool" where
  "rest_of addrs cx req sk h \<longleftrightarrow>
     (\<exists>connect elapsed. \<forall>x. settles h x \<longrightarrow> settles (handle_script addrs connect cx req elapsed sk) x)"

definition ended :: "socket_addr list \<Rightarrow> proxy_context \<Rightarrow> fate \<Rightarrow> bool" where
  "ended addrs cx f \<longleftrightarrow>
     (case f of
        Served sk req r sk' ats \<Rightarrow>
          (\<exists>connect elapsed. settles (handle_script addrs connect cx req elapsed sk) (Some (r, sk', ats)))
      | _ \<Rightarrow> True)"

definition alone :: "socket_addr list \<Rightarrow> proxy_context \<Rightarrow> worker list \<Rightarrow> fate list \<Rightarrow> bool" where
  "alone addrs cx ws hs \<longleftrightarrow>
     (\<forall>sk req h. Busy sk req h \<in> set ws \<longrightarrow> rest_of addrs cx req sk h) \<and> (\<forall>f\<in>set hs. ended addrs cx f)"

definition as_alone :: "system \<Rightarrow> bool" where
  "as_alone y \<longleftrightarrow>
     alone (rr_backend_addresses (wd_routing (ps_world (sy_state y)))) (ps_context (sy_state y))
       (sy_workers y) (sy_history y)"

lemma rest_of_step: "rest_of addrs cx req sk h \<Longrightarrow> script_step h w = Some (h', w') \<Longrightarrow> rest_of addrs cx req sk h'"
  unfolding rest_of_def using settles_step by metis

lemma rest_of_start: "rest_of addrs cx req sk (handle_script addrs connect cx req elapsed sk)"
  unfolding rest_of_def by blast

lemma rest_of_end: "rest_of addrs cx req sk (Return (Some (r, sk', ats))) \<Longrightarrow> ended addrs cx (Served sk req r sk' ats)"
  by (auto simp: rest_of_def ended_def)

lemma alone_worker:
  "alone addrs cx ws hs \<Longrightarrow> (\<And>sk req h. wk = Busy sk req h \<Longrightarrow> rest_of addrs cx req sk h)
     \<Longrightarrow> alone addrs cx (ws[i := wk]) hs"
  using set_update_subset_insert [of ws i wk] unfolding alone_def by blast

lemma alone_history [simp]:
  "alone addrs cx ws (hs @ hs') \<longleftrightarrow> alone addrs cx ws hs \<and> (\<forall>f\<in>set hs'. ended addrs cx f)"
  by (auto simp: alone_def)

lemma alone_nth:
  "alone addrs cx ws hs \<Longrightarrow> i < length ws \<Longrightarrow> ws ! i = Busy sk req h \<Longrightarrow> rest_of addrs cx req sk h"
  unfolding alone_def by (metis nth_mem)

lemma ended_accept: "f \<in> set (accept_fate sk oc) \<Longrightarrow> ended addrs cx f"
  by (cases oc) (auto simp: accept_fate_def ended_def)

lemma turn_as_alone: "turn order c who y y' \<Longrightarrow> as_alone y \<Longrightarrow> as_alone y'"
proof (induction rule: turn.induct)
  case (start y s i sk req_id nxt req h connect elapsed)
  then show ?case by (auto simp: as_alone_def rest_of_start intro: alone_worker)
next
  case (work y s i sk req h h' w)
  then have "rest_of (rr_backend_addresses (wd_routing (ps_world s))) (ps_context s) req sk h"
    unfolding as_alone_def using alone_nth by metis
  with rest_of_step [OF _ work(4)] work script_step_addresses [OF work(4)] show ?case
    by (auto simp: as_alone_def intro: alone_worker)
next
  case (finish i y sk req r sk' ats)
  then have "rest_of (rr_backend_addresses (wd_routing (ps_world (sy_state y)))) (ps_context (sy_state y)) req sk
      (Return (Some (r, sk', ats)))"
    unfolding as_alone_def using alone_nth by metis
  from rest_of_end [OF this] finish show ?case by (auto simp: as_alone_def intro: alone_worker)
next
  case (proceed y s t task w)
  then show ?case using script_step_addresses [OF proceed(2)] by (simp add: as_alone_def)
next
  case (probe y s a ok bs ev)
  then show ?case
    using health_probe_addresses [of "health c" a ok "registry (ps_world s)"]
    by (simp add: as_alone_def rr_backend_addresses_def registry_def)
qed (auto simp: as_alone_def ended_accept intro: alone_worker, simp add: ended_def)

lemma reachable_alone:
  assumes "reachable order c (initial b) y"
  shows "as_alone y"
proof -
  have "as_alone (initial b)" by (auto simp: as_alone_def alone_def initial_def)
  with assms show ?thesis by (rule reachable_invariant) (rule turn_as_alone)
qed

lemma reachable_as_alone:
  assumes "balancer_build mk_logger now c = Inr b" "reachable order c (initial b) y"
    and "Served sk req r sk' ats \<in> set (sy_history y)"
  shows "\<exists>connect elapsed. settles (handle_script (backends c) connect (ps_context (sy_state y)) req elapsed sk)
    (Some (r, sk', ats))"
proof -
  from reachable_alone [OF assms(2)] assms(3) show ?thesis
    unfolding as_alone_def alone_def reachable_backends [OF assms(1,2)] by (auto simp: ended_def)
qed

text \<open>So it ends with what \<open>handle_connection\<close> returns for the answers the registry gave.\<close>

lemma served_alone:
  assumes "balancer_build mk_logger now c = Inr b" "reachable order c (initial b) y"
    and "Served sk req r sk' ats \<in> set (sy_history y)"
  obtains connect elapsed answers w' where "list_all (allowed (backends c)) answers"
    "handle_connection next_answer connect (ps_context (sy_state y)) req elapsed sk (lone_world (backends c, answers))
      = Some (r, sk', w', ats)"
proof -
  from reachable_as_alone [OF assms] obtain connect elapsed where
    "settles (handle_script (backends c) connect (ps_context (sy_state y)) req elapsed sk) (Some (r, sk', ats))" by blast
  from handle_settles_alone [OF this] that show thesis by (metis option.inject prod.inject)
qed

section \<open>Stages in order, counted at most once\<close>

definition of_request :: "u64 \<Rightarrow> log_record list \<Rightarrow> log_record list" where
  "of_request i rs = filter (\<lambda>r. lr_role r = Worker \<and> lr_req_id r = Some i) rs"

lemma of_request_append [simp]: "of_request i (rs @ rs') = of_request i rs @ of_request i rs'"
  by (simp add: of_request_def)

lemma of_request_none: "list_all (\<lambda>r. lr_role r \<noteq> Worker) rs \<Longrightarrow> of_request i rs = []"
  by (auto simp: of_request_def list_all_iff filter_empty_conv)

definition ids_of :: "request_stats list \<Rightarrow> u64 list" where
  "ids_of sts = map st_req_id sts"

lemma ids_of_append [simp]: "ids_of (sts @ sts') = ids_of sts @ ids_of sts'" "ids_of [] = []"
  by (simp_all add: ids_of_def)

definition at_stage :: "log_record list \<Rightarrow> request_stats list \<Rightarrow> u64 \<Rightarrow> 'a script \<Rightarrow> bool" where
  "at_stage rs sts i h \<longleftrightarrow>
     (\<exists>n fresh. handler h i n fresh \<and> (\<forall>r\<in>set (of_request i rs). stage r < n)
        \<and> (fresh \<longrightarrow> i \<notin> set (ids_of sts)))"

definition staged :: "log_record list \<Rightarrow> request_stats list \<Rightarrow> u64 list \<Rightarrow> worker list \<Rightarrow> bool" where
  "staged rs sts ids ws \<longleftrightarrow>
     (\<forall>i. sorted_wrt (<) (map stage (of_request i rs))) \<and> distinct (ids_of sts)
     \<and> (\<forall>i. i \<notin> set ids \<longrightarrow> of_request i rs = [] \<and> i \<notin> set (ids_of sts))
     \<and> (\<forall>sk req h. Busy sk req h \<in> set ws \<longrightarrow> at_stage rs sts (rc_req_id req) h)"

lemma at_stage_quiet [simp]:
  "list_all (\<lambda>r. lr_role r \<noteq> Worker) rs' \<Longrightarrow> at_stage (rs @ rs') sts i h = at_stage rs sts i h"
  by (simp add: at_stage_def of_request_none)

text \<open>An access of another thread, or the start of a connection.\<close>

lemma staged_quiet:
  assumes "staged rs sts ids ws" "list_all (\<lambda>r. lr_role r \<noteq> Worker) rs'" "set ids \<subseteq> set ids'"
    "\<And>sk req h. Busy sk req h \<in> set ws' \<Longrightarrow>
       Busy sk req h \<in> set ws \<or> rc_req_id req \<notin> set ids \<and> handler h (rc_req_id req) 0 True"
  shows "staged (rs @ rs') sts ids' ws'"
proof -
  have "at_stage rs sts (rc_req_id req) h" if "rc_req_id req \<notin> set ids" "handler h (rc_req_id req) 0 True"
    for req :: request_context and h :: "handled script"
    using that assms(1) unfolding staged_def at_stage_def by force
  then have "at_stage rs sts (rc_req_id req) h" if "Busy sk req h \<in> set ws'" for sk req h
    using assms(1) assms(4) [OF that] by (auto simp: staged_def)
  with assms(1-3) show ?thesis by (auto simp: staged_def of_request_none)
qed

text \<open>An access of request \<open>j\<close> keeps the other requests where they were.\<close>

lemma handler_grows_other:
  assumes "handler_grows j n fresh rs' sts' n' fresh'" "i \<noteq> j"
  shows "of_request i rs' = []" "i \<notin> set (ids_of sts')"
  using assms by (auto simp: handler_grows_def of_request_def ids_of_def list_all_iff filter_empty_conv)

lemma handler_grows_own:
  assumes "handler_grows j n fresh rs' sts' n' fresh'" "\<forall>r\<in>set (of_request j rs). stage r < n"
    "sorted_wrt (<) (map stage (of_request j rs))"
  shows "sorted_wrt (<) (map stage (of_request j (rs @ rs')))" "\<forall>r\<in>set (of_request j (rs @ rs')). stage r < n'"
proof -
  from assms(1) consider (none) "of_request j rs' = []" "n \<le> n'"
    | (one) r where "of_request j rs' = [r]" "n \<le> stage r" "n' = Suc (stage r)"
    by (auto simp: handler_grows_def of_request_def of_request_none [unfolded of_request_def])
  then have "sorted_wrt (<) (map stage (of_request j (rs @ rs'))) \<and> (\<forall>r\<in>set (of_request j (rs @ rs')). stage r < n')"
    by cases (use assms(2,3) in \<open>force simp: sorted_wrt_append\<close>)+
  then show "sorted_wrt (<) (map stage (of_request j (rs @ rs')))" "\<forall>r\<in>set (of_request j (rs @ rs')). stage r < n'"
    by auto
qed

lemma handler_grows_stats:
  assumes "handler_grows j n fresh rs' sts' n' fresh'" "fresh \<longrightarrow> j \<notin> set (ids_of sts)" "distinct (ids_of sts)"
  shows "distinct (ids_of (sts @ sts'))" "fresh' \<longrightarrow> j \<notin> set (ids_of (sts @ sts'))"
proof -
  from assms(1) have "ids_of sts' = [] \<and> (fresh' \<longrightarrow> fresh) \<or> ids_of sts' = [j] \<and> fresh \<and> \<not> fresh'"
    by (auto simp: handler_grows_def ids_of_def)
  with assms(2,3) show "distinct (ids_of (sts @ sts'))" "fresh' \<longrightarrow> j \<notin> set (ids_of (sts @ sts'))" by auto
qed

lemma distinct_hands:
  "distinct (concat (map f ws)) \<Longrightarrow> i < length ws \<Longrightarrow> j < length ws \<Longrightarrow> i \<noteq> j \<Longrightarrow> x \<in> set (f (ws ! i))
     \<Longrightarrow> x \<notin> set (f (ws ! j))"
proof (induction ws arbitrary: i j)
  case (Cons w ws)
  have in_rest: "y \<in> set (f (ws ! k)) \<Longrightarrow> k < length ws \<Longrightarrow> y \<in> set (concat (map f ws))" for y k
    by auto
  have d: "set (f w) \<inter> set (concat (map f ws)) = {}" "distinct (concat (map f ws))" using Cons.prems(1) by auto
  show ?case
  proof (cases i; cases j)
    fix i' j'
    assume "i = Suc i'" "j = Suc j'"
    with Cons.IH [OF d(2), of i' j'] Cons.prems show ?thesis by simp
  qed (use Cons.prems d(1) in_rest in \<open>auto simp del: set_concat\<close>)
qed simp

lemma staged_work:
  assumes s: "staged rs sts ids ws" and i: "i < length ws" "ws ! i = Busy sk req h"
    and h: "script_step h w = Some (h', w')" "extends (wd_log w) rs' (wd_log w')" "extends (wd_stats w) sts' (wd_stats w')"
    and d: "distinct (concat (map worker_ids ws))" "rc_req_id req \<in> set ids"
  shows "staged (rs @ rs') (sts @ sts') ids (ws[i := Busy sk req h'])"
proof -
  define j where "j = rc_req_id req"
  have "Busy sk req h \<in> set ws" using i by (metis nth_mem)
  with s obtain n fresh where a: "handler h j n fresh" "\<forall>r\<in>set (of_request j rs). stage r < n"
    "fresh \<longrightarrow> j \<notin> set (ids_of sts)" unfolding staged_def at_stage_def j_def by blast
  from handler_step [OF a(1) h(1)] obtain rs1 sts1 n' fresh' where g: "handler h' j n' fresh'"
    "extends (wd_log w) rs1 (wd_log w')" "extends (wd_stats w) sts1 (wd_stats w')"
    "handler_grows j n fresh rs1 sts1 n' fresh'" by blast
  have "rs1 = rs'" "sts1 = sts'"
    using extends_queue [OF g(2)] extends_queue [OF h(2)] extends_queue [OF g(3)] extends_queue [OF h(3)] by simp_all
  note g = g(1) g(4) [unfolded this]
  have so: "sorted_wrt (<) (map stage (of_request k rs))" for k using s by (simp add: staged_def)
  have di: "distinct (ids_of sts)" using s by (simp add: staged_def)
  note own = handler_grows_own [OF g(2) a(2) so] and st = handler_grows_stats [OF g(2) a(3) di]
  note other = handler_grows_other [OF g(2)]
  have "at_stage (rs @ rs') (sts @ sts') (rc_req_id req') x"
    if b: "Busy sk' req' x \<in> set (ws[i := Busy sk req h'])" for sk' req' x
  proof -
    from b obtain k where k: "k < length ws" "ws[i := Busy sk req h'] ! k = Busy sk' req' x"
      by (metis in_set_conv_nth length_list_update)
    show ?thesis
    proof (cases "k = i")
      case True
      with k i(1) have "req' = req" "x = h'" by simp_all
      with g(1) own(2) st(2) show ?thesis unfolding at_stage_def j_def by blast
    next
      case False
      with k have w: "ws ! k = Busy sk' req' x" by simp
      have "rc_req_id req' \<noteq> j"
        using distinct_hands [OF d(1) k(1) i(1) False, of "rc_req_id req'"] w i(2) by (auto simp: j_def)
      moreover have "at_stage rs sts (rc_req_id req') x" using s w k(1) unfolding staged_def by (metis nth_mem)
      ultimately show ?thesis using other unfolding at_stage_def by simp
    qed
  qed
  moreover have "sorted_wrt (<) (map stage (of_request k (rs @ rs')))" for k
    using own(1) so [of k] other(1) [of k] by (cases "k = j") simp_all
  moreover have "of_request k (rs @ rs') = [] \<and> k \<notin> set (ids_of (sts @ sts'))" if "k \<notin> set ids" for k
  proof -
    have "k \<noteq> j" using that d(2) by (auto simp: j_def)
    with that s other [of k] show ?thesis by (simp add: staged_def)
  qed
  ultimately show ?thesis using st(1) by (simp add: staged_def)
qed

lemma turn_started_subset:
  "turn order c who y y' \<Longrightarrow> conserved y \<Longrightarrow> set (started_ids y) \<subseteq> set (started_ids y')"
  using turn_started [of order c who y y'] by (metis insert_iff set_mset_add_mset_insert set_mset_mset subsetI)

definition requests_staged :: "system \<Rightarrow> bool" where
  "requests_staged y \<longleftrightarrow> staged (log_stream y) (stats_stream y) (started_ids y) (sy_workers y)"

lemma turn_staged:
  assumes "turn order c who y y'" "sound y" "requests_staged y" "distinct (started_ids y')"
  shows "requests_staged y'"
proof -
  have o: "orderly y" "conserved y" using assms(2) by (simp_all add: sound_def)
  note sub = turn_started_subset [OF assms(1) o(2)] and s = assms(3) [unfolded requests_staged_def]
  from turn_grows [OF assms(1) o(1)] obtain rs sts where
    e: "log_stream y' = log_stream y @ rs" "stats_stream y' = stats_stream y @ sts"
    and "list_all (\<lambda>r. lr_role r \<noteq> Worker) rs \<and> sts = [] \<and> busy_from y y' \<or> worked y y' rs sts"
    by blast
  from this(3) show ?thesis
  proof
    assume q: "list_all (\<lambda>r. lr_role r \<noteq> Worker) rs \<and> sts = [] \<and> busy_from y y'"
    have "rc_req_id req \<notin> set (started_ids y)"
      if "mset (started_ids y') = add_mset (rc_req_id req) (mset (started_ids y))" for req
      using assms(4) that by (metis distinct.simps(2) mset.simps(2) mset_eq_imp_distinct_iff)
    with q have "Busy sk req h \<in> set (sy_workers y) \<or> rc_req_id req \<notin> set (started_ids y) \<and> handler h (rc_req_id req) 0 True"
      if "Busy sk req h \<in> set (sy_workers y')" for sk req h
      using that unfolding busy_from_def by blast
    from staged_quiet [OF s _ sub this] q e show ?thesis by (simp add: requests_staged_def)
  next
    assume "worked y y' rs sts"
    then obtain i sk req h h' where w: "i < length (sy_workers y)" "sy_workers y ! i = Busy sk req h"
      "sy_workers y' = (sy_workers y)[i := Busy sk req h']"
      "script_step h (ps_world (sy_state y)) = Some (h', ps_world (sy_state y'))"
      "extends (wd_log (ps_world (sy_state y))) rs (wd_log (ps_world (sy_state y')))"
      "extends (wd_stats (ps_world (sy_state y))) sts (wd_stats (ps_world (sy_state y')))"
      unfolding worked_def by blast
    have "distinct (started_ids y)"
      using turn_started [OF assms(1) o(2)] assms(4)
      by (metis distinct.simps(2) mset.simps(2) mset_eq_imp_distinct_iff)
    then have "distinct (concat (map worker_ids (sy_workers y)))" by (simp add: started_ids_def)
    moreover have "rc_req_id req \<in> set (started_ids y)"
      using nth_mem [OF w(1)] w(2) by (force simp: started_ids_def)
    ultimately have "staged (log_stream y @ rs) (stats_stream y @ sts) (started_ids y) ((sy_workers y)[i := Busy sk req h'])"
      using staged_work [OF s w(1,2,4,5,6)] by blast
    with staged_quiet [of _ _ _ _ "[]" "started_ids y'"] sub e w(3) show ?thesis
      by (fastforce simp: requests_staged_def)
  qed
qed

lemma reachable_staged:
  assumes "balancer_build mk_logger now c = Inr b" "reachable order c (initial b) y"
    and "length (started_ids y) < 2 ^ 64 - 1"
  shows "requests_staged y"
  using assms(2,3)
proof (induction rule: reachable.induct)
  case start
  from assms(1) obtain lg where
    "list_all (\<lambda>r. lr_role r \<noteq> Worker) (queue (wd_log (ps_world (bl_state b))))"
    "wd_stats (ps_world (bl_state b)) = clone_sender (sync_channel (metrics_channel_capacity (pool c)))"
    by (rule balancer_build_parts)
  then show ?case
    by (simp add: requests_staged_def staged_def initial_def log_stream_def stats_stream_def of_request_none
        sync_channel_def clone_sender_def)
next
  case (step y who y')
  have s: "sound y" "sound y'" using reachable_sound [OF assms(1)] step(1,2) reachable.step by blast+
  have "length (started_ids y) \<le> length (started_ids y')"
    using turn_started [OF step(2)] s(1) by (metis le_eq_less_or_eq lessI mset_eq_length size_add_mset size_mset sound_def)
  with step s have "requests_staged y" "distinct (started_ids y')"
    using ids_numbered_unat(2) [of y'] by (auto simp: sound_def)
  with turn_staged [OF step(2) s(1)] show ?case by blast
qed

end
