(* ===== verification/System_Progress.thy ===== *)
theory System_Progress
  imports System_Requests
begin

text \<open>
  Progress: a script always ends, so a thread that keeps taking turns finishes what it is
  doing; the workers can empty the queues.
\<close>

section \<open>Scripts end\<close>

lemma script_step_induct:
  assumes "\<And>s. (\<And>w s' w'. script_step s w = Some (s', w') \<Longrightarrow> P s') \<Longrightarrow> P s"
  shows "P s"
  by (induction s; rule assms) (auto split: prod.splits)

definition idle :: "system \<Rightarrow> bool" where
  "idle y \<longleftrightarrow> list_all (\<lambda>wk. wk = Idle) (sy_workers y) \<and> sy_tasks y = (\<lambda>_. Return ())"

lemma idle_counts:
  assumes "idle y"
  shows "in_hand (sy_workers y) = []" "concat (map worker_ids (sy_workers y)) = []"
    "owed (sy_tasks y t) = 0" "held (sy_tasks y t) = []"
  using assms by (auto simp: idle_def in_hand_def list_all_iff)

text \<open>What the threads' own progress leaves alone.\<close>

definition undisturbed :: "system \<Rightarrow> system \<Rightarrow> bool" where
  "undisturbed y y' \<longleftrightarrow>
     pl_queues (ps_pool (sy_state y')) = pl_queues (ps_pool (sy_state y)) \<and> sy_arrived y' = sy_arrived y"

lemma undisturbed_refl [simp]: "undisturbed y y"
  by (simp add: undisturbed_def)

lemma undisturbed_trans: "undisturbed y y1 \<Longrightarrow> undisturbed y1 y2 \<Longrightarrow> undisturbed y y2"
  by (simp add: undisturbed_def)

lemma by_turn: "turn order c who y y1 \<Longrightarrow> P y1 \<Longrightarrow> \<exists>y'. reachable order c y y' \<and> P y'"
  using reachable_turn by blast

lemma by_turn_then:
  "turn order c who y y1 \<Longrightarrow> \<exists>y'. reachable order c y1 y' \<and> P y' \<Longrightarrow> \<exists>y'. reachable order c y y' \<and> P y'"
  using reachable_trans reachable_turn by metis

lemma by_reachable:
  "reachable order c y y1 \<Longrightarrow> \<exists>y'. reachable order c y1 y' \<and> P y' \<Longrightarrow> \<exists>y'. reachable order c y y' \<and> P y'"
  using reachable_trans by metis

lemma by_nothing: "P y \<Longrightarrow> \<exists>y'. reachable order c y y' \<and> P y'"
  using reachable.start by blast

lemma task_finishes:
  "sy_tasks y t = s \<Longrightarrow>
     \<exists>y'. reachable order c y y' \<and> sy_tasks y' = (sy_tasks y)(t := Return ()) \<and> sy_workers y' = sy_workers y
       \<and> undisturbed y y'"
proof (induction s arbitrary: y rule: script_step_induct)
  case (1 s)
  show ?case
  proof (cases "script_step s (ps_world (sy_state y))")
    case None
    with 1(2) have "sy_tasks y t = Return ()" by (auto simp: script_step_None)
    then have "sy_tasks y = (sy_tasks y)(t := Return ())" by (metis fun_upd_triv)
    then show ?thesis by (intro by_nothing) simp
  next
    case (Some z)
    obtain task w where z: "script_step s (ps_world (sy_state y)) = Some (task, w)" using Some by (cases z) simp
    let ?y1 = "y\<lparr>sy_state := (sy_state y)\<lparr>ps_world := w\<rparr>, sy_tasks := (sy_tasks y)(t := task),
      sy_counted := sy_counted y @ held (sy_tasks y t)\<rparr>"
    have t: "turn order c (At_task t) y ?y1" by (rule turn.proceed [OF refl]) (simp add: 1(2) z)
    have "sy_tasks ?y1 t = task" by simp
    from 1(1) [OF z this] show ?thesis
      by (intro by_turn_then [OF t]) (simp add: undisturbed_def del: fun_upd_apply)
  qed
qed

lemma busy_finishes:
  assumes "i < length (sy_workers y)" "sy_workers y ! i = Busy sk req h"
    "rest_of addrs cx req sk h"
  shows "\<exists>y'. reachable order c y y' \<and> sy_workers y' = (sy_workers y)[i := Idle] \<and> undisturbed y y'"
  using assms
proof (induction h arbitrary: y rule: script_step_induct)
  case (1 h)
  show ?case
  proof (cases "script_step h (ps_world (sy_state y))")
    case None
    then obtain x where h: "h = Return x" by (auto simp: script_step_None)
    with 1(4) obtain connect elapsed where "settles (handle_script addrs connect cx req elapsed sk) x"
      by (auto simp: rest_of_def)
    then obtain r sk' ats where "x = Some (r, sk', ats)" by (rule handle_settles_alone)
    with h 1(3) have "sy_workers y ! i = Busy sk req (Return (Some (r, sk', ats)))" by simp
    from turn.finish [OF 1(2) this] show ?thesis by (rule by_turn) (simp add: undisturbed_def)
  next
    case (Some z)
    obtain h' w where z: "script_step h (ps_world (sy_state y)) = Some (h', w)" using Some by (cases z) simp
    let ?y1 = "y\<lparr>sy_state := (sy_state y)\<lparr>ps_world := w\<rparr>, sy_workers := (sy_workers y)[i := Busy sk req h']\<rparr>"
    have t: "turn order c (At_worker i) y ?y1" by (rule turn.work [OF refl 1(2,3) z])
    have "i < length (sy_workers ?y1)" "sy_workers ?y1 ! i = Busy sk req h'" using 1(2) by simp_all
    from 1(1) [OF z this rest_of_step [OF 1(4) z]] show ?thesis
      by (intro by_turn_then [OF t]) (simp add: undisturbed_def)
  qed
qed

lemma taken_finishes:
  assumes i: "i < length (sy_workers y)" "sy_workers y ! i = Taken sk"
  shows "\<exists>y'. reachable order c y y' \<and> sy_workers y' = (sy_workers y)[i := Idle] \<and> undisturbed y y'"
proof (cases "pl_shutting_down (ps_pool (sy_state y))")
  case True
  from turn.refuse [OF refl i True] show ?thesis by (rule by_turn) (simp add: undisturbed_def)
next
  case False
  define addrs where "addrs = rr_backend_addresses (wd_routing (ps_world (sy_state y)))"
  obtain id nxt where n: "next_request_id (pl_next_req_id (ps_pool (sy_state y))) = (id, nxt)" by force
  define req where "req = \<lparr>rc_req_id = id, rc_worker_id = i\<rparr>"
  define h where "h = handle_script addrs (\<lambda>_ _. Inl (IoError ConnectionRefused [])) (ps_context (sy_state y)) req (\<lambda>_. 0) sk"
  let ?y1 = "y\<lparr>sy_state := (sy_state y)\<lparr>ps_pool := (ps_pool (sy_state y))\<lparr>pl_next_req_id := nxt\<rparr>\<rparr>,
    sy_workers := (sy_workers y)[i := Busy sk req h]\<rparr>"
  have t: "turn order c (At_worker i) y ?y1" by (rule turn.start [OF refl i False n req_def h_def [unfolded addrs_def]])
  have w: "i < length (sy_workers ?y1)" "sy_workers ?y1 ! i = Busy sk req h" using i(1) by simp_all
  have "rest_of addrs (ps_context (sy_state y)) req sk h" unfolding h_def by (rule rest_of_start)
  from busy_finishes [OF w this] show ?thesis by (intro by_turn_then [OF t]) (simp add: undisturbed_def)
qed

lemma worker_finishes:
  assumes "as_alone y" "i < length (sy_workers y)"
  shows "\<exists>y'. reachable order c y y' \<and> sy_workers y' = (sy_workers y)[i := Idle] \<and> undisturbed y y'"
proof (cases "sy_workers y ! i")
  case Idle
  then have "sy_workers y = (sy_workers y)[i := Idle]" by (metis list_update_id)
  then show ?thesis using reachable.start undisturbed_refl by metis
next
  case (Taken sk)
  then show ?thesis by (rule taken_finishes [OF assms(2)])
next
  case (Busy sk req h)
  with assms show ?thesis
    unfolding as_alone_def using alone_nth busy_finishes by metis
qed

section \<open>The queues can be emptied\<close>

lemma idle_updates: "(\<forall>j<n. ws ! j = Idle) \<Longrightarrow> n < length ws \<Longrightarrow> (\<forall>j<Suc n. ws[n := Idle] ! j = Idle)"
  by (auto simp: nth_list_update less_Suc_eq)

lemma workers_finish:
  assumes "as_alone y"
  shows "\<exists>y'. reachable order c y y' \<and> list_all (\<lambda>wk. wk = Idle) (sy_workers y')
    \<and> length (sy_workers y') = length (sy_workers y) \<and> undisturbed y y'"
proof -
  have "\<exists>y'. reachable order c y y' \<and> (\<forall>j<n. sy_workers y' ! j = Idle)
      \<and> length (sy_workers y') = length (sy_workers y) \<and> undisturbed y y'" if "n \<le> length (sy_workers y)" for n
    using that
  proof (induction n)
    case 0
    show ?case by (rule by_nothing) simp
  next
    case (Suc n)
    then obtain y1 where y1: "reachable order c y y1" "\<forall>j<n. sy_workers y1 ! j = Idle"
      "length (sy_workers y1) = length (sy_workers y)" "undisturbed y y1" by auto
    have "as_alone y1" using y1(1) assms by (rule reachable_invariant) (rule turn_as_alone)
    from worker_finishes [OF this, of n] Suc.prems y1(3) obtain y2 where
      y2: "reachable order c y1 y2" "sy_workers y2 = (sy_workers y1)[n := Idle]" "undisturbed y1 y2" by auto
    have "\<forall>j<Suc n. sy_workers y2 ! j = Idle"
      using idle_updates [OF y1(2)] y2(2) y1(3) Suc.prems by simp
    with y1 y2 reachable_trans [OF y2(1) y1(1)] undisturbed_trans [OF y1(4) y2(3)] show ?case by auto
  qed
  from this [of "length (sy_workers y)"] show ?thesis
    by (fastforce simp: list_all_length)
qed

lemma tasks_finish:
  "\<exists>y'. reachable order c y y' \<and> sy_tasks y' = (\<lambda>_. Return ()) \<and> sy_workers y' = sy_workers y \<and> undisturbed y y'"
proof -
  obtain y1 where y1: "reachable order c y y1" "sy_tasks y1 = (sy_tasks y)(Acceptor := Return ())"
    "sy_workers y1 = sy_workers y" "undisturbed y y1" using task_finishes [OF refl] by metis
  obtain y2 where y2: "reachable order c y1 y2" "sy_tasks y2 = (sy_tasks y1)(Aggregator := Return ())"
    "sy_workers y2 = sy_workers y1" "undisturbed y1 y2" using task_finishes [OF refl] by metis
  obtain y3 where y3: "reachable order c y2 y3" "sy_tasks y3 = (sy_tasks y2)(Prober := Return ())"
    "sy_workers y3 = sy_workers y2" "undisturbed y2 y3" using task_finishes [OF refl] by metis
  have "sy_tasks y3 t = Return ()" for t by (cases t) (simp_all add: y1(2) y2(2) y3(2))
  then have "sy_tasks y3 = (\<lambda>_. Return ())" by (rule ext)
  moreover have "reachable order c y y3" using y1(1) y2(1) y3(1) reachable_trans by metis
  moreover have "undisturbed y y3" using y1(4) y2(4) y3(4) undisturbed_trans by metis
  ultimately show ?thesis using y1(3) y2(3) y3(3) by auto
qed

lemma queue_shrinks:
  assumes "list_all (\<lambda>wk. wk = Idle) (sy_workers y)" "conserved y" "queued (ps_pool (sy_state y)) \<noteq> []"
  shows "\<exists>y'. reachable order c y y' \<and> list_all (\<lambda>wk. wk = Idle) (sy_workers y')
    \<and> length (queued (ps_pool (sy_state y'))) < length (queued (ps_pool (sy_state y))) \<and> sy_arrived y' = sy_arrived y"
proof -
  define p where "p = ps_pool (sy_state y)"
  from assms(3) obtain i where i: "i < length (pl_queues p)" "queue (pl_queues p ! i) \<noteq> []"
    by (auto simp: queued_def p_def in_set_conv_nth)
  then obtain sk ch where r: "recv (pl_queues p ! i) = (Received sk, ch)"
    by (cases "queue (pl_queues p ! i)") (auto simp: recv_def)
  have iw: "i < length (sy_workers y)" using i(1) assms(2) by (simp add: conserved_def p_def)
  then have id: "sy_workers y ! i = Idle" using assms(1) by (simp add: list_all_length)
  let ?y1 = "y\<lparr>sy_state := (sy_state y)\<lparr>ps_pool := p\<lparr>pl_queues := (pl_queues p)[i := ch]\<rparr>\<rparr>,
    sy_workers := (sy_workers y)[i := Taken sk]\<rparr>"
  have t: "turn order c (At_worker i) y ?y1"
    unfolding p_def by (rule turn.take_stream [OF refl iw id r [unfolded p_def]])
  have "length (queued p) = Suc (length (queued (p\<lparr>pl_queues := (pl_queues p)[i := ch]\<rparr>)))"
    using dequeue_effect [OF i(1) r] by (metis size_add_mset size_mset)
  moreover obtain y' where y': "reachable order c ?y1 y'" "sy_workers y' = (sy_workers ?y1)[i := Idle]" "undisturbed ?y1 y'"
    using taken_finishes [of i ?y1 sk order c] iw by auto
  moreover have "sy_workers y' = sy_workers y" using y'(2) id iw by simp (metis list_update_id)
  ultimately show ?thesis using assms(1)
    by (intro by_turn_then [OF t] exI [of _ y']) (simp add: undisturbed_def queued_def p_def)
qed

lemma queues_empty:
  assumes "list_all (\<lambda>wk. wk = Idle) (sy_workers y)" "conserved y"
  shows "\<exists>y'. reachable order c y y' \<and> list_all (\<lambda>wk. wk = Idle) (sy_workers y')
    \<and> queued (ps_pool (sy_state y')) = [] \<and> sy_arrived y' = sy_arrived y"
  using assms
proof (induction "length (queued (ps_pool (sy_state y)))" arbitrary: y rule: less_induct)
  case less
  show ?case
  proof (cases "queued (ps_pool (sy_state y)) = []")
    case True
    with less(2) show ?thesis by (intro by_nothing) simp
  next
    case False
    from queue_shrinks [OF less(2,3) this, of order c] obtain y1 where
      y1: "reachable order c y y1" "list_all (\<lambda>wk. wk = Idle) (sy_workers y1)"
        "length (queued (ps_pool (sy_state y1))) < length (queued (ps_pool (sy_state y)))"
        "sy_arrived y1 = sy_arrived y" by blast
    have "conserved y1" using y1(1) less(3) by (rule reachable_invariant) (rule turn_conserved)
    from less(1) [OF y1(3,2) this] y1(4) show ?thesis by (intro by_reachable [OF y1(1)]) simp
  qed
qed

lemma can_become_idle:
  assumes "as_alone y" "conserved y"
  shows "\<exists>y'. reachable order c y y' \<and> idle y' \<and> queued (ps_pool (sy_state y')) = [] \<and> sy_arrived y' = sy_arrived y"
proof -
  from workers_finish [OF assms(1), of order c] obtain y1 where y1: "reachable order c y y1"
    "list_all (\<lambda>wk. wk = Idle) (sy_workers y1)" "undisturbed y y1" by blast
  have "conserved y1" using y1(1) assms(2) by (rule reachable_invariant) (rule turn_conserved)
  from queues_empty [OF y1(2) this, of order c] obtain y2 where y2: "reachable order c y1 y2"
    "list_all (\<lambda>wk. wk = Idle) (sy_workers y2)" "queued (ps_pool (sy_state y2)) = []" "sy_arrived y2 = sy_arrived y1"
    by blast
  from tasks_finish [of order c y2] obtain y3 where y3: "reachable order c y2 y3" "sy_tasks y3 = (\<lambda>_. Return ())"
    "sy_workers y3 = sy_workers y2" "undisturbed y2 y3" by blast
  have "reachable order c y y3" using y1(1) y2(1) y3(1) reachable_trans by metis
  with y1 y2 y3 show ?thesis
    by (intro exI [of _ y3]) (simp add: idle_def undisturbed_def queued_def)
qed

section \<open>A worker that is not interrupted\<close>

text \<open>One of the interleavings lets a worker finish the connection it has taken; the result is
  that of \<open>serve_connection\<close>.\<close>

lemma runs_through:
  assumes "i < length (sy_workers y)" "sy_workers y ! i = Busy sk req h" "run h (ps_world (sy_state y)) = (x, w)"
  shows "reachable order c y (y\<lparr>sy_state := (sy_state y)\<lparr>ps_world := w\<rparr>,
    sy_workers := (sy_workers y)[i := Busy sk req (Return x)]\<rparr>)"
  using assms
proof (induction h arbitrary: y rule: script_step_induct)
  case (1 h)
  show ?case
  proof (cases "script_step h (ps_world (sy_state y))")
    case None
    then obtain x' where "h = Return x'" by (auto simp: script_step_None)
    with 1(4) have h: "h = Return x" "w = ps_world (sy_state y)" by simp_all
    with 1(3) have "(sy_workers y)[i := Busy sk req (Return x)] = sy_workers y" by (metis list_update_id)
    with h(2) show ?thesis by (simp add: reachable.start)
  next
    case (Some z)
    obtain h' w1 where z: "script_step h (ps_world (sy_state y)) = Some (h', w1)" using Some by (cases z) simp
    let ?y1 = "y\<lparr>sy_state := (sy_state y)\<lparr>ps_world := w1\<rparr>, sy_workers := (sy_workers y)[i := Busy sk req h']\<rparr>"
    have t: "turn order c (At_worker i) y ?y1" by (rule turn.work [OF refl 1(2,3) z])
    have "i < length (sy_workers ?y1)" "sy_workers ?y1 ! i = Busy sk req h'" "run h' (ps_world (sy_state ?y1)) = (x, w)"
      using 1(2,4) run_step [OF z] by simp_all
    from reachable_trans [OF 1(1) [OF z this] reachable_turn [OF t]] show ?thesis by simp
  qed
qed

lemma busy_uninterrupted:
  assumes "i < length (sy_workers y)" "sy_workers y ! i = Busy sk req h"
    "run h (ps_world (sy_state y)) = (Some (r, sk', ats), w)"
  shows "reachable order c y (y\<lparr>sy_state := (sy_state y)\<lparr>ps_world := w\<rparr>,
    sy_workers := (sy_workers y)[i := Idle], sy_history := sy_history y @ [Served sk req r sk' ats]\<rparr>)"
proof -
  define y1 where "y1 = y\<lparr>sy_state := (sy_state y)\<lparr>ps_world := w\<rparr>,
    sy_workers := (sy_workers y)[i := Busy sk req (Return (Some (r, sk', ats)))]\<rparr>"
  have "reachable order c y y1" unfolding y1_def by (rule runs_through [OF assms])
  moreover have "i < length (sy_workers y1)" "sy_workers y1 ! i = Busy sk req (Return (Some (r, sk', ats)))"
    using assms(1) by (simp_all add: y1_def)
  then have "turn order c (At_worker i) y1 (y1\<lparr>sy_workers := (sy_workers y1)[i := Idle],
      sy_history := sy_history y1 @ [Served sk req r sk' ats]\<rparr>)" by (rule turn.finish)
  ultimately have "reachable order c y (y1\<lparr>sy_workers := (sy_workers y1)[i := Idle],
      sy_history := sy_history y1 @ [Served sk req r sk' ats]\<rparr>)" by (rule reachable.step)
  then show ?thesis unfolding y1_def by simp
qed

definition served_fate ::
  "socket \<Rightarrow> (unit mzani_result \<times> request_context) option \<Rightarrow> socket \<Rightarrow> attempt list \<Rightarrow> fate" where
  "served_fate sk x sk' ats = (case x of Some (r, req) \<Rightarrow> Served sk req r sk' ats | None \<Rightarrow> Refused sk)"

lemma serve_uninterrupted:
  assumes "i < length (sy_workers y)" "sy_workers y ! i = Taken sk"
    and "serve_connection rr_select_backend connect (ps_context (sy_state y)) elapsed i sk (ps_pool (sy_state y))
      (ps_world (sy_state y)) = Some (x, sk', p, w)"
  shows "\<exists>ats. reachable order c y (y\<lparr>sy_state := (sy_state y)\<lparr>ps_pool := p, ps_world := w\<rparr>,
    sy_workers := (sy_workers y)[i := Idle], sy_history := sy_history y @ [served_fate sk x sk' ats]\<rparr>)"
proof (cases "pl_shutting_down (ps_pool (sy_state y))")
  case True
  with assms(3) have e: "x = None" "p = ps_pool (sy_state y)" "w = ps_world (sy_state y)"
    by (simp_all add: serve_connection_def)
  from turn.refuse [OF refl assms(1,2) True] show ?thesis
    unfolding e served_fate_def by (intro exI reachable_turn) simp
next
  case False
  define addrs where "addrs = rr_backend_addresses (wd_routing (ps_world (sy_state y)))"
  define req where "req = \<lparr>rc_req_id = pl_next_req_id (ps_pool (sy_state y)), rc_worker_id = i\<rparr>"
  define h where "h = handle_script addrs connect (ps_context (sy_state y)) req elapsed sk"
  from False assms(3) obtain r ats where
    "handle_connection rr_select_backend connect (ps_context (sy_state y)) req elapsed sk (ps_world (sy_state y))
      = Some (r, sk', w, ats)"
    and e: "x = Some (r, req)" "p = (ps_pool (sy_state y))\<lparr>pl_next_req_id := pl_next_req_id (ps_pool (sy_state y)) + 1\<rparr>"
    by (auto simp: serve_connection_def next_request_id_def Let_def req_def)
  then have rn: "run h (ps_world (sy_state y)) = (Some (r, sk', ats), w)"
    using run_handle [of "ps_world (sy_state y)" addrs connect "ps_context (sy_state y)" req elapsed sk]
    by (auto simp: addrs_def h_def split: prod.splits option.splits)
  define y1 where "y1 = y\<lparr>sy_state := (sy_state y)\<lparr>ps_pool := p\<rparr>, sy_workers := (sy_workers y)[i := Busy sk req h]\<rparr>"
  have "turn order c (At_worker i) y y1"
    unfolding e(2) y1_def by (rule turn.start [OF refl assms(1,2) False _ req_def h_def [unfolded addrs_def]])
      (simp add: next_request_id_def)
  moreover have "i < length (sy_workers y1)" "sy_workers y1 ! i = Busy sk req h"
    "run h (ps_world (sy_state y1)) = (Some (r, sk', ats), w)"
    using assms(1) rn by (simp_all add: y1_def)
  then have "reachable order c y1 (y1\<lparr>sy_state := (sy_state y1)\<lparr>ps_world := w\<rparr>,
      sy_workers := (sy_workers y1)[i := Idle], sy_history := sy_history y1 @ [Served sk req r sk' ats]\<rparr>)"
    by (rule busy_uninterrupted)
  ultimately have "reachable order c y (y1\<lparr>sy_state := (sy_state y1)\<lparr>ps_world := w\<rparr>,
      sy_workers := (sy_workers y1)[i := Idle], sy_history := sy_history y1 @ [Served sk req r sk' ats]\<rparr>)"
    using reachable_trans reachable_turn by blast
  then show ?thesis
    unfolding e(1) served_fate_def y1_def by (intro exI [of _ ats]) simp
qed

end
