(* ===== verification/Closing.thy ===== *)
theory Closing
  imports System_Progress
begin

text \<open>
  \<open>Balancer::shutdown\<close> while the threads still run. The owner of the balancer has returned
  from its accept loop, has set the flag and told the health thread to stop; from there on
  its steps interleave with the turns of the workers, the metrics thread and the log thread,
  each of which may be in the middle of an operation. A join is a step that is possible once
  the thread joined is at the head of its loop and will not enter it again: the health
  thread because it reads its flag, the others because \<open>recv\<close> gives \<open>Closed\<close>.

  Every probe counts as made before the health thread was told to stop: only that thread
  reads that flag, so nobody can tell.
\<close>

section \<open>The owner's steps\<close>

datatype phase =
    Stopping_health | Closing_queues | Awaiting_deadline | Joining_workers | Joining_metrics
  | Joining_log | Stopped

text \<open>What the end of the health thread, the closing of the queues, and the joins do to the state.\<close>

definition health_gone :: "'r pool_state \<Rightarrow> 'r pool_state" where
  "health_gone s = s\<lparr>ps_world := (ps_world s)\<lparr>wd_log := drop_sender (wd_log (ps_world s))\<rparr>\<rparr>"

definition queues_closed :: "'r pool_state \<Rightarrow> 'r pool_state" where
  "queues_closed s = s\<lparr>ps_pool := stop_accepting (ps_pool s)\<rparr>"

definition workers_gone :: "bool \<Rightarrow> 'r pool_state \<Rightarrow> 'r pool_state" where
  "workers_gone ctx_shared s =
    (let (cx, w1) = detach_context ctx_shared (ps_context s) (ps_world s);
         (p, w2) = drop_metrics_tx (ps_pool s) w1
     in s\<lparr>ps_pool := p, ps_context := cx, ps_world := w2\<rparr>)"

definition metrics_gone ::
  "(metrics \<Rightarrow> socket_addr list) \<Rightarrow> instant \<Rightarrow> 'r pool_state \<Rightarrow> 'r pool_state" where
  "metrics_gone order now s =
    (let w1 = (ps_world s)\<lparr>wd_log := drop_sender (wd_log (ps_world s))\<rparr>;
         (p, w2) = shutdown_log order now (ps_pool s) w1
     in s\<lparr>ps_pool := p, ps_world := w2\<rparr>)"

definition log_gone :: "'r pool_state \<Rightarrow> 'r pool_state" where
  "log_gone s = s\<lparr>ps_pool := (ps_pool s)\<lparr>pl_handles := []\<rparr>\<rparr>"

definition drained :: "'a channel \<Rightarrow> bool" where
  "drained ch \<longleftrightarrow> fst (recv ch) = Closed"

inductive closing ::
  "(metrics \<Rightarrow> socket_addr list) \<Rightarrow> balancer_config \<Rightarrow> bool \<Rightarrow> phase \<times> system \<Rightarrow> phase \<times> system \<Rightarrow> bool"
  for order :: "metrics \<Rightarrow> socket_addr list" and c :: balancer_config and ctx_shared :: bool where
  thread:
    "turn order c who y y' \<Longrightarrow> who \<notin> {At_listener, At_backend, At_shutdown} \<Longrightarrow>
     closing order c ctx_shared (ph, y) (ph, y')"
| join_health:
    "sy_tasks y Prober = Return () \<Longrightarrow>
     closing order c ctx_shared (Stopping_health, y) (Closing_queues, y\<lparr>sy_state := health_gone (sy_state y)\<rparr>)"
| close_queues:
    "closing order c ctx_shared (Closing_queues, y) (Awaiting_deadline, y\<lparr>sy_state := queues_closed (sy_state y)\<rparr>)"
| deadline:
    "closing order c ctx_shared (Awaiting_deadline, y) (Joining_workers, y\<lparr>sy_state := queues_closed (sy_state y)\<rparr>)"
| join_workers:
    "list_all (\<lambda>wk. wk = Idle) (sy_workers y) \<Longrightarrow> list_all drained (pl_queues (ps_pool (sy_state y))) \<Longrightarrow>
     closing order c ctx_shared (Joining_workers, y) (Joining_metrics, y\<lparr>sy_state := workers_gone ctx_shared (sy_state y)\<rparr>)"
| join_metrics:
    "sy_tasks y Aggregator = Return () \<Longrightarrow> drained (wd_stats (ps_world (sy_state y))) \<Longrightarrow>
     closing order c ctx_shared (Joining_metrics, y) (Joining_log, y\<lparr>sy_state := metrics_gone order now (sy_state y)\<rparr>)"
| join_log:
    "drained (wd_log (ps_world (sy_state y))) \<Longrightarrow>
     closing order c ctx_shared (Joining_log, y) (Stopped, y\<lparr>sy_state := log_gone (sy_state y)\<rparr>)"

section \<open>The height of a script\<close>

primrec height :: "'a script \<Rightarrow> nat" where
  "height (Return x) = 0"
| "height (Try_log r k) = Suc (Max (range (\<lambda>b. height (k b))))"
| "height (Count_dropped k) = Suc (Max (range (\<lambda>v. height (k v))))"
| "height (Try_stats st s) = Suc (height s)"
| "height (Next_index k) = Suc (Max (range (\<lambda>v. height (k v))))"
| "height (Load_healthy i k) = Suc (Max (range (\<lambda>b. height (k b))))"
| "height (Count_rejected s) = Suc (height s)"
| "height (Count_request st s) = Suc (height s)"
| "height (Log_metrics f s) = Suc (height s)"

lemma height_branch: "height (k b) \<le> Max (range (\<lambda>b :: 'b :: finite. height (k b)))"
  by (rule Max_ge) auto

lemma height_step: "script_step s w = Some (s', w') \<Longrightarrow> height s' < height s"
  by (cases s) (auto simp: less_Suc_eq_le intro: height_branch split: prod.splits)

lemma height_aggregator: "aggregator_script order clock st ag = (ag', s) \<Longrightarrow> height s \<le> 3"
  by (auto simp: aggregator_script_def Let_def)

section \<open>What is left to do\<close>

fun worker_load :: "worker \<Rightarrow> nat" where
  "worker_load Idle = 0"
| "worker_load (Taken sk) = 1"
| "worker_load (Busy sk req h) = Suc (8 * height h)"

definition load :: "system \<Rightarrow> nat" where
  "load y =
    2 * length (queued (ps_pool (sy_state y))) + (\<Sum>wk\<leftarrow>sy_workers y. worker_load wk)
    + 2 * (height (sy_tasks y Acceptor) + height (sy_tasks y Aggregator) + height (sy_tasks y Prober))
    + 7 * length (queue (wd_stats (ps_world (sy_state y)))) + length (queue (wd_log (ps_world (sy_state y))))"

lemma sum_list_update:
  "i < length xs \<Longrightarrow> (\<Sum>x\<leftarrow>xs[i := y]. f x) + f (xs ! i) = (\<Sum>x\<leftarrow>xs. f x) + (f y :: nat)"
proof (induction xs arbitrary: i)
  case (Cons x xs)
  then show ?case by (cases i) auto
qed simp

lemma try_send_length: "length (queue (snd (try_send x ch))) \<le> Suc (length (queue ch))"
  by (simp add: try_send_def)

lemma step_lengths:
  "script_step s w = Some (s', w') \<Longrightarrow>
     7 * length (queue (wd_stats w')) + length (queue (wd_log w'))
       \<le> 7 * length (queue (wd_stats w)) + length (queue (wd_log w)) + 7"
proof (induction s w rule: script_step.induct)
  case (2 r k w)
  then show ?case using try_send_length [of r "wd_log w"] by (auto split: prod.splits)
next
  case (4 st s w)
  then show ?case using try_send_length [of st "wd_stats w"] by auto
next
  case (9 f s w)
  then show ?case using try_send_length [of "f (wd_metrics w)" "wd_log w"] by auto
qed (auto simp: advance_cursor_def)

lemma step_log_length:
  "script_step s w = Some (s', w') \<Longrightarrow> length (queue (wd_log w')) \<le> Suc (length (queue (wd_log w)))"
proof (induction s w rule: script_step.induct)
  case (2 r k w)
  then show ?case using try_send_length [of r "wd_log w"] by (auto split: prod.splits)
next
  case (9 f s w)
  then show ?case using try_send_length [of "f (wd_metrics w)" "wd_log w"] by auto
qed (auto simp: advance_cursor_def)

lemma load_turn:
  assumes "turn order c who y y'" "who \<notin> {At_listener, At_backend, At_shutdown}"
    "pl_shutting_down (ps_pool (sy_state y))" "conserved y" "orderly y"
  shows "load y' < load y"
  using assms
proof (induction rule: turn.induct)
  case (take_stream y s i sk ch)
  then have i: "i < length (pl_queues (ps_pool s))" by (simp add: conserved_def)
  have "length (queued (ps_pool s)) = Suc (length (queued ((ps_pool s)\<lparr>pl_queues := (pl_queues (ps_pool s))[i := ch]\<rparr>)))"
    using dequeue_effect [OF i take_stream(4)] by (metis size_add_mset size_mset)
  with take_stream sum_list_update [of i "sy_workers y" worker_load "Taken sk"] show ?case by (simp add: load_def)
next
  case (refuse y s i sk)
  with sum_list_update [of i "sy_workers y" worker_load Idle] show ?case by (simp add: load_def)
next
  case (work y s i sk req h h' w)
  with sum_list_update [of i "sy_workers y" worker_load "Busy sk req h'"] step_lengths [OF work(4)] height_step [OF work(4)]
  show ?case by (simp add: load_def)
next
  case (finish i y sk req r sk' ats)
  with sum_list_update [of i "sy_workers y" worker_load Idle] show ?case by (simp add: load_def)
next
  case (collect y s st ch clock ag task)
  have "queue (wd_stats (ps_world s)) = st # queue ch" using collect(3) by (rule recv_Received)
  with collect height_aggregator [OF collect(4)] show ?case by (simp add: load_def)
next
  case (proceed y s t task w)
  then have ts: "tasks_ok (sy_tasks y)" by (simp add: orderly_def)
  from task_step [OF ts proceed(2)] have "wd_stats w = wd_stats (ps_world s)" ..
  with proceed(1) step_log_length [OF proceed(2)] height_step [OF proceed(2)] show ?case
    by (cases t) (simp_all add: load_def)
next
  case (write_log y s r ch)
  have "queue (wd_log (ps_world s)) = r # queue ch" using write_log(2) by (rule recv_Received)
  with write_log show ?case by (simp add: load_def)
qed auto

end
