(* ===== verification/Closing_Correct.thy ===== *)
theory Closing_Correct
  imports Closing
begin

text \<open>
  A shutdown that interleaves with the running threads: every run of it is finite, it cannot
  get stuck before it has stopped if no sender is kept elsewhere, and when it has stopped
  nothing accepted before is lost.
\<close>

section \<open>A step of the owner\<close>

definition owner_step :: "'r pool_state \<Rightarrow> 'r pool_state \<Rightarrow> bool" where
  "owner_step s s' \<longleftrightarrow>
     queued (ps_pool s') = queued (ps_pool s) \<and> (pool_shape (ps_pool s) \<longrightarrow> pool_shape (ps_pool s'))
     \<and> length (pl_queues (ps_pool s')) = length (pl_queues (ps_pool s))
     \<and> pl_next_req_id (ps_pool s') = pl_next_req_id (ps_pool s)
     \<and> (pl_shutting_down (ps_pool s) \<longrightarrow> pl_shutting_down (ps_pool s'))
     \<and> ps_logger s' = ps_logger s \<and> wd_metrics (ps_world s') = wd_metrics (ps_world s)
     \<and> wd_routing (ps_world s') = wd_routing (ps_world s)
     \<and> queue (wd_stats (ps_world s')) = queue (wd_stats (ps_world s))
     \<and> (\<exists>rs. queue (wd_log (ps_world s')) = queue (wd_log (ps_world s)) @ rs \<and> length rs \<le> 1)"

lemma drop_sender_simps [simp]:
  "queue (drop_sender ch) = queue ch" "senders (drop_sender ch) = senders ch - 1"
  by (simp_all add: drop_sender_def)

lemma owner_steps:
  "owner_step s (health_gone s)" "owner_step s (queues_closed s)" "owner_step s (workers_gone ctx_shared s)"
  "owner_step s (metrics_gone order now s)" "owner_step s (log_gone s)"
proof -
  show "owner_step s (queues_closed s)" by (simp add: owner_step_def queues_closed_def) (simp add: stop_accepting_def)
  show "owner_step s (workers_gone ctx_shared s)"
    by (simp add: owner_step_def workers_gone_def detach_context_def drop_metrics_tx_def Let_def pool_shape_def queued_def)
  show "owner_step s (metrics_gone order now s)"
    using try_send_cases [of "snapshot_record order now (wd_metrics (ps_world s))" "drop_sender (wd_log (ps_world s))"]
    by (auto simp: owner_step_def metrics_gone_def shutdown_log_def Let_def pool_shape_def queued_def)
qed (simp_all add: owner_step_def health_gone_def log_gone_def pool_shape_def queued_def)

fun remaining :: "phase \<Rightarrow> nat" where
  "remaining Stopping_health = 6"
| "remaining Closing_queues = 5"
| "remaining Awaiting_deadline = 4"
| "remaining Joining_workers = 3"
| "remaining Joining_metrics = 2"
| "remaining Joining_log = 1"
| "remaining Stopped = 0"

lemma closing_step:
  assumes "closing order c ctx_shared (ph, y) (ph', y')"
  obtains (thread) who where "ph' = ph" "turn order c who y y'" "who \<notin> {At_listener, At_backend, At_shutdown}"
  | (owner) s' where "y' = y\<lparr>sy_state := s'\<rparr>" "owner_step (sy_state y) s'" "remaining ph = Suc (remaining ph')"
  using assms by (cases rule: closing.cases) (auto intro: owner_steps)

section \<open>What every step keeps\<close>

definition proper :: "system \<Rightarrow> bool" where
  "proper y \<longleftrightarrow> orderly y \<and> conserved y \<and> metrics_exact y \<and> pl_shutting_down (ps_pool (sy_state y))"

lemma turn_shutting_down:
  "turn order c who y y' \<Longrightarrow> who \<notin> {At_listener, At_shutdown} \<Longrightarrow>
     pl_shutting_down (ps_pool (sy_state y')) = pl_shutting_down (ps_pool (sy_state y))"
  by (induction rule: turn.induct) auto

lemma closing_proper:
  assumes "closing order c ctx_shared (ph, y) (ph', y')" "proper y"
  shows "proper y'"
  using assms(1)
proof (cases rule: closing_step)
  case (thread who)
  from assms(2) turn_orderly [OF thread(2)] turn_conserved [OF thread(2)] turn_metrics_exact [OF thread(2)]
    turn_shutting_down [OF thread(2)] thread(3) show ?thesis by (simp add: proper_def)
next
  case (owner s')
  with assms(2) show ?thesis
    by (simp add: proper_def owner_step_def orderly_def conserved_def metrics_exact_def)
qed

lemma closing_load:
  assumes "closing order c ctx_shared (ph, y) (ph', y')" "proper y"
  shows "load y' + 2 * remaining ph' < load y + 2 * remaining ph"
  using assms(1)
proof (cases rule: closing_step)
  case (thread who)
  from assms(2) load_turn [OF thread(2,3)] show ?thesis by (simp add: proper_def thread(1))
next
  case (owner s')
  then obtain rs where "queue (wd_log (ps_world s')) = queue (wd_log (ps_world (sy_state y))) @ rs" "length rs \<le> 1"
    by (auto simp: owner_step_def)
  with owner show ?thesis by (simp add: load_def owner_step_def)
qed

text \<open>Nothing more arrives, no connection is started, and the channels' streams only grow.\<close>

definition later :: "system \<Rightarrow> system \<Rightarrow> bool" where
  "later y y' \<longleftrightarrow> sy_arrived y' = sy_arrived y \<and> mset (started_ids y') = mset (started_ids y) \<and> streams_grow y y'"

lemma later_refl: "later y y"
  by (simp add: later_def streams_grow_refl)

lemma later_trans: "later y y1 \<Longrightarrow> later y1 y2 \<Longrightarrow> later y y2"
  using streams_grow_trans by (auto simp: later_def)

lemma turn_arrived: "turn order c who y y' \<Longrightarrow> who \<noteq> At_listener \<Longrightarrow> sy_arrived y' = sy_arrived y"
  by (induction rule: turn.induct) auto

lemma turn_next_id:
  "turn order c who y y' \<Longrightarrow> who \<notin> {At_listener, At_shutdown} \<Longrightarrow> pl_shutting_down (ps_pool (sy_state y)) \<Longrightarrow>
     pl_next_req_id (ps_pool (sy_state y')) = pl_next_req_id (ps_pool (sy_state y))"
  by (induction rule: turn.induct) auto

lemma closing_later:
  assumes "closing order c ctx_shared (ph, y) (ph', y')" "proper y"
  shows "later y y'"
  using assms(1)
proof (cases rule: closing_step)
  case (thread who)
  have "conserved y" "orderly y" "pl_shutting_down (ps_pool (sy_state y))" using assms(2) by (simp_all add: proper_def)
  with turn_started [OF thread(2)] turn_next_id [OF thread(2)] turn_streams [OF thread(2)] turn_arrived [OF thread(2)] thread(3)
  show ?thesis by (auto simp: later_def)
next
  case (owner s')
  then show ?thesis
    by (auto simp: later_def started_ids_def streams_grow_def log_stream_def stats_stream_def owner_step_def)
qed

lemma closing_log_faithful:
  assumes "closing order c ctx_shared (ph, y) (ph', y')" "log_faithful level y"
  shows "log_faithful level y'"
  using assms(1)
proof (cases rule: closing_step)
  case (thread who)
  from turn_log_faithful [OF thread(2) assms(2)] show ?thesis .
next
  case (owner s')
  with assms(2) show ?thesis by (simp add: log_faithful_def owner_step_def Let_def)
qed

section \<open>Threads that are gone stay quiet\<close>

definition quiet :: "phase \<Rightarrow> system \<Rightarrow> bool" where
  "quiet ph y \<longleftrightarrow>
     sy_tasks y Acceptor = Return ()
     \<and> (remaining ph < 6 \<longrightarrow> sy_tasks y Prober = Return ())
     \<and> (remaining ph \<le> 2 \<longrightarrow> list_all (\<lambda>wk. wk = Idle) (sy_workers y) \<and> queued (ps_pool (sy_state y)) = [])
     \<and> (remaining ph \<le> 1 \<longrightarrow> sy_tasks y Aggregator = Return () \<and> queue (wd_stats (ps_world (sy_state y))) = [])
     \<and> (remaining ph = 0 \<longrightarrow> queue (wd_log (ps_world (sy_state y))) = [])"

lemma drained_simps: "drained ch \<longleftrightarrow> queue ch = [] \<and> senders ch = 0"
  by (auto simp: drained_def recv_def split: list.splits)

lemma queue_of_queued: "queued p = [] \<Longrightarrow> i < length (pl_queues p) \<Longrightarrow> queue (pl_queues p ! i) = []"
  by (auto simp: queued_def)

lemma turn_quiet:
  assumes "turn order c who y y'" "who \<notin> {At_listener, At_backend, At_shutdown}" "conserved y" "orderly y" "quiet ph y"
  shows "quiet ph y'"
  using assms
proof (induction rule: turn.induct)
  case (take_stream y s i sk ch)
  have i: "i < length (pl_queues (ps_pool s))" using take_stream(1,2,6) by (simp add: conserved_def)
  have "queue (pl_queues (ps_pool s) ! i) \<noteq> []" using recv_Received [OF take_stream(4)] by simp
  with queue_of_queued [OF _ i] take_stream(1,8) have "\<not> remaining ph \<le> 2" by (auto simp: quiet_def)
  with take_stream(1,8) show ?case by (simp add: quiet_def)
next
  case (refuse y s i sk)
  then have "\<not> remaining ph \<le> 2" by (auto simp: quiet_def list_all_length)
  with refuse show ?case by (simp add: quiet_def)
next
  case (start y s i sk req_id nxt req h connect elapsed)
  then have "\<not> remaining ph \<le> 2" by (auto simp: quiet_def list_all_length)
  with start show ?case by (simp add: quiet_def)
next
  case (work y s i sk req h h' w)
  then have "\<not> remaining ph \<le> 2" by (auto simp: quiet_def list_all_length)
  with work show ?case by (simp add: quiet_def)
next
  case (finish i y sk req r sk' ats)
  then have "\<not> remaining ph \<le> 2" by (auto simp: quiet_def list_all_length)
  with finish show ?case by (simp add: quiet_def)
next
  case (collect y s st ch clock ag task)
  then have "\<not> remaining ph \<le> 1" using recv_Received [OF collect(3)] by (auto simp: quiet_def)
  with collect show ?case by (simp add: quiet_def)
next
  case (proceed y s t task w)
  then have ts: "tasks_ok (sy_tasks y)" by (simp add: orderly_def)
  from task_step [OF ts proceed(2)] have st: "wd_stats w = wd_stats (ps_world s)" ..
  from proceed(2) have "sy_tasks y t \<noteq> Return ()" by auto
  with proceed(1,6) st show ?case by (cases t) (auto simp: quiet_def)
next
  case (write_log y s r ch)
  then have "remaining ph \<noteq> 0" using recv_Received [OF write_log(2)] by (auto simp: quiet_def)
  with write_log show ?case by (simp add: quiet_def)
qed auto

lemma closing_quiet:
  assumes "closing order c ctx_shared (ph, y) (ph', y')" "proper y" "quiet ph y"
  shows "quiet ph' y'"
proof -
  have o: "owner_step (sy_state y) s' \<Longrightarrow> queued (ps_pool s') = queued (ps_pool (sy_state y))
      \<and> queue (wd_stats (ps_world s')) = queue (wd_stats (ps_world (sy_state y)))" for s'
    by (simp add: owner_step_def)
  note os = owner_steps [of "sy_state y", THEN o]
  from assms(1) show ?thesis
  proof (cases rule: closing.cases)
    case (thread who)
    with turn_quiet [OF thread(2,3)] assms(2,3) show ?thesis by (simp add: proper_def)
  next
    case join_workers
    then have "queued (ps_pool (sy_state y)) = []" by (auto simp: drained_simps queued_def list_all_iff)
    with join_workers os(3) assms(3) show ?thesis by (simp add: quiet_def)
  next
    case (join_metrics now)
    with os(4) assms(3) show ?thesis by (simp add: quiet_def drained_simps)
  next
    case join_log
    with assms(3) show ?thesis by (simp add: quiet_def drained_simps log_gone_def queued_def)
  qed (use os assms(3) in \<open>simp_all add: quiet_def\<close>)
qed

section \<open>The senders\<close>

text \<open>\<open>extra\<close> log senders are kept outside the balancer, and a clone of the context when it is shared.\<close>

definition accounted :: "bool \<Rightarrow> nat \<Rightarrow> phase \<Rightarrow> round_robin pool_state \<Rightarrow> bool" where
  "accounted ctx_shared extra ph s \<longleftrightarrow>
     (let kept = (if ctx_shared then 1 else 0); w = ps_world s
      in case ph of
           Stopping_health \<Rightarrow> running (Suc extra) s
         | Closing_queues \<Rightarrow> running extra s
         | Awaiting_deadline \<Rightarrow> running extra s \<and> pl_connection_txs (ps_pool s) = []
         | Joining_workers \<Rightarrow> running extra s \<and> pl_connection_txs (ps_pool s) = []
         | Joining_metrics \<Rightarrow> senders (wd_log w) = 2 + extra + kept \<and> senders (wd_stats w) = kept \<and> pl_log_tx (ps_pool s)
         | Joining_log \<Rightarrow> senders (wd_log w) = extra + kept
         | Stopped \<Rightarrow> extra + kept = 0)"

lemma script_step_senders:
  "script_step s w = Some (s', w') \<Longrightarrow>
     senders (wd_log w') = senders (wd_log w) \<and> senders (wd_stats w') = senders (wd_stats w)"
  using world_extends_senders [OF script_step_extends] .

lemma turn_senders:
  "turn order c who y y' \<Longrightarrow> who \<notin> {At_listener, At_shutdown} \<Longrightarrow>
     senders (wd_log (ps_world (sy_state y'))) = senders (wd_log (ps_world (sy_state y)))
     \<and> senders (wd_stats (ps_world (sy_state y'))) = senders (wd_stats (ps_world (sy_state y)))
     \<and> pl_log_tx (ps_pool (sy_state y')) = pl_log_tx (ps_pool (sy_state y))
     \<and> pl_connection_txs (ps_pool (sy_state y')) = pl_connection_txs (ps_pool (sy_state y))"
proof (induction rule: turn.induct)
  case (work y s i sk req h h' w)
  then show ?case using script_step_senders [OF work(4)] by simp
next
  case (collect y s st ch clock ag task)
  then show ?case using recv_keeps_senders [OF collect(3)] by simp
next
  case (proceed y s t task w)
  then show ?case using script_step_senders [OF proceed(2)] by simp
next
  case (write_log y s r ch)
  then show ?case using recv_keeps_senders [OF write_log(2)] by simp
qed auto

lemma running_queues_closed:
  "running extra s \<Longrightarrow> running extra (queues_closed s) \<and> pl_connection_txs (ps_pool (queues_closed s)) = []"
  using running_stop_accepting [of extra s] by (simp add: queues_closed_def stop_accepting_def)

lemma running_senders_closed:
  assumes "running extra s" "pl_connection_txs (ps_pool s) = []" "ch \<in> set (pl_queues (ps_pool s))"
  shows "senders ch = 0"
proof -
  have "0 < length (pl_queues (ps_pool s))" using assms(3) by (cases "pl_queues (ps_pool s)") simp_all
  then have "pl_connection_txs (ps_pool s) \<noteq> [0..<length (pl_queues (ps_pool s))]" by (simp add: assms(2) upt_conv_Cons)
  with assms(1,3) show ?thesis by (simp add: running_def Let_def)
qed

lemma owner_accounted:
  "accounted ctx_shared extra Stopping_health s \<Longrightarrow> accounted ctx_shared extra Closing_queues (health_gone s)"
  "accounted ctx_shared extra Closing_queues s \<Longrightarrow> accounted ctx_shared extra Awaiting_deadline (queues_closed s)"
  "accounted ctx_shared extra Awaiting_deadline s \<Longrightarrow> accounted ctx_shared extra Joining_workers (queues_closed s)"
  "accounted ctx_shared extra Joining_workers s \<Longrightarrow> accounted ctx_shared extra Joining_metrics (workers_gone ctx_shared s)"
  "accounted ctx_shared extra Joining_metrics s \<Longrightarrow> accounted ctx_shared extra Joining_log (metrics_gone order now s)"
  using running_queues_closed [of extra s]
  by (simp_all add: accounted_def Let_def)
     (simp_all add: health_gone_def workers_gone_def metrics_gone_def detach_context_def
       drop_metrics_tx_def shutdown_log_def running_def Let_def)

lemma closing_accounted:
  assumes "closing order c ctx_shared (ph, y) (ph', y')" "accounted ctx_shared extra ph (sy_state y)"
  shows "accounted ctx_shared extra ph' (sy_state y')"
  using assms(1)
proof (cases rule: closing.cases)
  case (thread who)
  then have w: "who \<notin> {At_listener, At_shutdown}" by simp
  from turn_senders [OF thread(2) w] turn_running [OF thread(2)] assms(2) show ?thesis
    by (cases ph) (simp_all add: thread(1) accounted_def Let_def)
next
  case join_log
  with assms(2) show ?thesis by (simp add: accounted_def drained_simps Let_def)
qed (use assms(2) owner_accounted in \<open>simp_all\<close>)

section \<open>No step is missing\<close>

definition as_alone_until :: "phase \<Rightarrow> system \<Rightarrow> bool" where
  "as_alone_until ph y \<longleftrightarrow> (2 < remaining ph \<longrightarrow> as_alone y)"

lemma closing_as_alone:
  assumes "closing order c ctx_shared (ph, y) (ph', y')" "as_alone_until ph y"
  shows "as_alone_until ph' y'"
  using assms(1)
proof (cases rule: closing.cases)
  case (thread who)
  with assms(2) turn_as_alone [OF thread(2)] show ?thesis by (simp add: as_alone_until_def)
qed (use assms(2) in \<open>auto simp: as_alone_until_def as_alone_def health_gone_def queues_closed_def\<close>)

lemma task_can_proceed:
  assumes "sy_tasks y t \<noteq> Return ()"
  shows "\<exists>y'. turn order c (At_task t) y y'"
proof -
  have "script_step (sy_tasks y t) (ps_world (sy_state y)) \<noteq> None"
    using assms by (auto simp: script_step_None)
  then obtain s w where "script_step (sy_tasks y t) (ps_world (sy_state y)) = Some (s, w)" by auto
  from turn.proceed [OF refl this] show ?thesis by blast
qed

lemma worker_can_proceed:
  assumes "i < length (sy_workers y)" "sy_workers y ! i \<noteq> Idle" "as_alone y" "pl_shutting_down (ps_pool (sy_state y))"
  shows "\<exists>y'. turn order c (At_worker i) y y'"
proof (cases "sy_workers y ! i")
  case Idle
  with assms(2) show ?thesis by simp
next
  case (Taken sk)
  from turn.refuse [OF refl assms(1) this assms(4)] show ?thesis by blast
next
  case (Busy sk req h)
  then obtain addrs where r: "rest_of addrs (ps_context (sy_state y)) req sk h"
    using assms(1,3) unfolding as_alone_def using alone_nth by metis
  show ?thesis
  proof (cases "script_step h (ps_world (sy_state y))")
    case None
    then obtain x where h: "h = Return x" by (auto simp: script_step_None)
    with r obtain connect elapsed where "settles (handle_script addrs connect (ps_context (sy_state y)) req elapsed sk) x"
      by (auto simp: rest_of_def)
    then obtain res sk' ats where "x = Some (res, sk', ats)" by (rule handle_settles_alone)
    with Busy h turn.finish [OF assms(1)] show ?thesis by blast
  next
    case (Some z)
    with turn.work [OF refl assms(1) Busy] show ?thesis by (cases z) blast
  qed
qed

lemma worker_can_take:
  assumes "list_all (\<lambda>wk. wk = Idle) (sy_workers y)" "conserved y" "queued (ps_pool (sy_state y)) \<noteq> []"
  shows "\<exists>i y'. turn order c (At_worker i) y y'"
proof -
  from assms(3) obtain i where i: "i < length (pl_queues (ps_pool (sy_state y)))" "queue (pl_queues (ps_pool (sy_state y)) ! i) \<noteq> []"
    by (auto simp: queued_def in_set_conv_nth)
  then obtain sk ch where r: "recv (pl_queues (ps_pool (sy_state y)) ! i) = (Received sk, ch)"
    by (cases "queue (pl_queues (ps_pool (sy_state y)) ! i)") (auto simp: recv_def)
  have "i < length (sy_workers y)" "sy_workers y ! i = Idle"
    using i(1) assms(1,2) by (simp_all add: conserved_def list_all_length)
  from turn.take_stream [OF refl this r] show ?thesis by blast
qed

lemma nonempty_received: "queue ch \<noteq> [] \<Longrightarrow> \<exists>x ch'. recv ch = (Received x, ch')"
  by (cases "queue ch") (auto simp: recv_def)

lemma closing_progress:
  assumes "proper y" "quiet ph y" "as_alone_until ph y" "accounted False 0 ph (sy_state y)" "ph \<noteq> Stopped"
  shows "\<exists>z. closing order c False (ph, y) z"
proof (rule ccontr)
  assume stuck: "\<nexists>z. closing order c False (ph, y) z"
  then have no: "\<not> turn order c who y y'" if "who \<notin> {At_listener, At_backend, At_shutdown}" for who y'
    using closing.thread [OF _ that] by blast
  have t: "sy_tasks y t = Return ()" for t
    using task_can_proceed [of y t order c] no [of "At_task t"] by auto
  show False
  proof (cases ph)
    case Joining_workers
    then have a: "as_alone y" "running 0 (sy_state y)" "pl_connection_txs (ps_pool (sy_state y)) = []"
      using assms(3,4) by (simp_all add: as_alone_until_def accounted_def Let_def)
    have p: "conserved y" "pl_shutting_down (ps_pool (sy_state y))" using assms(1) by (simp_all add: proper_def)
    have id: "list_all (\<lambda>wk. wk = Idle) (sy_workers y)"
      using worker_can_proceed [OF _ _ a(1) p(2)] no [of "At_worker i" for i] by (fastforce simp: list_all_length)
    then have "queued (ps_pool (sy_state y)) = []"
      using worker_can_take [OF _ p(1)] no [of "At_worker i" for i] by blast
    with running_senders_closed [OF a(2,3)] have "list_all drained (pl_queues (ps_pool (sy_state y)))"
      by (auto simp: drained_simps list_all_iff queued_def)
    from closing.join_workers [OF id this, of order c False] stuck Joining_workers show False by blast
  next
    case Joining_metrics
    have "queue (wd_stats (ps_world (sy_state y))) = []"
    proof (rule ccontr)
      assume "queue (wd_stats (ps_world (sy_state y))) \<noteq> []"
      then obtain st ch where "recv (wd_stats (ps_world (sy_state y))) = (Received st, ch)"
        using nonempty_received by blast
      moreover obtain ag task where "aggregator_script order (\<lambda>_. 0) st (ps_aggregator (sy_state y)) = (ag, task)"
        by fastforce
      ultimately show False using turn.collect [OF refl t] no [of At_statistics] by blast
    qed
    with assms(4) Joining_metrics have "drained (wd_stats (ps_world (sy_state y)))"
      by (simp add: drained_simps accounted_def Let_def)
    from closing.join_metrics [OF t this] stuck Joining_metrics show False by blast
  next
    case Joining_log
    have "queue (wd_log (ps_world (sy_state y))) = []"
    proof (rule ccontr)
      assume "queue (wd_log (ps_world (sy_state y))) \<noteq> []"
      then obtain r ch where "recv (wd_log (ps_world (sy_state y))) = (Received r, ch)"
        using nonempty_received by blast
      from turn.write_log [OF refl this] no [of At_log] show False by blast
    qed
    with assms(4) Joining_log have "drained (wd_log (ps_world (sy_state y)))"
      by (simp add: drained_simps accounted_def Let_def)
    from closing.join_log [OF this] stuck Joining_log show False by blast
  next
    case Stopping_health
    from closing.join_health [OF t, of order c False] stuck Stopping_health show False by blast
  next
    case Closing_queues
    from closing.close_queues [of order c False y] stuck Closing_queues show False by blast
  next
    case Awaiting_deadline
    from closing.deadline [of order c False y] stuck Awaiting_deadline show False by blast
  next
    case Stopped
    with assms(5) show False by simp
  qed
qed

section \<open>Runs\<close>

text \<open>The state in which the owner begins: the flag is set, and the accept loop has returned.\<close>

definition shutting :: "system \<Rightarrow> bool" where
  "shutting y \<longleftrightarrow> pl_shutting_down (ps_pool (sy_state y)) \<and> sy_tasks y Acceptor = Return ()"

text \<open>The flag may have been set just before.\<close>

definition flagged :: "system \<Rightarrow> system" where
  "flagged y = y\<lparr>sy_state := (sy_state y)\<lparr>ps_pool := (ps_pool (sy_state y))\<lparr>pl_shutting_down := True\<rparr>\<rparr>\<rparr>"

lemma flagged_simps [simp]:
  "sy_state (flagged y) = (sy_state y)\<lparr>ps_pool := (ps_pool (sy_state y))\<lparr>pl_shutting_down := True\<rparr>\<rparr>"
  "sy_workers (flagged y) = sy_workers y" "sy_tasks (flagged y) = sy_tasks y" "sy_arrived (flagged y) = sy_arrived y"
  "sy_history (flagged y) = sy_history y"
  by (simp_all add: flagged_def)

lemma flagged_turn: "turn order c At_shutdown y (flagged y)"
  unfolding flagged_def by (rule turn.signal [OF refl])

text \<open>The state with \<open>extra\<close> senders of the log channel handed out.\<close>

primrec with_senders :: "nat \<Rightarrow> system \<Rightarrow> system" where
  "with_senders 0 y = y"
| "with_senders (Suc n) y =
    (let y1 = with_senders n y; s = sy_state y1
     in y1\<lparr>sy_state := s\<lparr>ps_world := snd (log_sender (ps_pool s) (ps_world s))\<rparr>\<rparr>)"

definition closing_ok :: "bool \<Rightarrow> nat \<Rightarrow> phase \<times> system \<Rightarrow> bool" where
  "closing_ok ctx_shared extra z \<longleftrightarrow>
     (case z of (ph, y) \<Rightarrow>
       proper y \<and> quiet ph y \<and> as_alone_until ph y \<and> accounted ctx_shared extra ph (sy_state y))"

lemma closing_ok_step:
  assumes "closing order c ctx_shared z z'" "closing_ok ctx_shared extra z"
  shows "closing_ok ctx_shared extra z'"
  using assms closing_proper closing_quiet closing_as_alone closing_accounted
  by (cases z; cases z') (auto simp: closing_ok_def)

lemma closing_ok_run:
  "(closing order c ctx_shared)\<^sup>*\<^sup>* z z' \<Longrightarrow> closing_ok ctx_shared extra z \<Longrightarrow> closing_ok ctx_shared extra z'"
  by (induction rule: rtranclp_induct) (auto intro: closing_ok_step)

definition total_load :: "phase \<times> system \<Rightarrow> nat" where
  "total_load z = load (snd z) + 2 * remaining (fst z)"

lemma closing_run_bounded:
  "(closing order c ctx_shared ^^ k) z z' \<Longrightarrow> closing_ok ctx_shared extra z \<Longrightarrow> k + total_load z' \<le> total_load z"
proof (induction k arbitrary: z')
  case (Suc k)
  then obtain z1 where z1: "(closing order c ctx_shared ^^ k) z z1" "closing order c ctx_shared z1 z'" by auto
  have "closing_ok ctx_shared extra z1"
    using closing_ok_run [OF relpowp_imp_rtranclp [OF z1(1)]] Suc.prems(2) by blast
  then have "total_load z' < total_load z1"
    using z1(2) closing_load by (cases z1; cases z') (auto simp: closing_ok_def total_load_def)
  with Suc.IH [OF z1(1) Suc.prems(2)] show ?case by simp
qed simp

lemma closing_not_stuck:
  "closing_ok False 0 z \<Longrightarrow> fst z = Stopped \<or> (\<exists>z'. closing order c False z z')"
  using closing_progress by (cases z) (auto simp: closing_ok_def)

lemma closing_completes:
  "closing_ok False 0 z \<Longrightarrow> \<exists>y'. (closing order c False)\<^sup>*\<^sup>* z (Stopped, y')"
proof (induction "total_load z" arbitrary: z rule: less_induct)
  case less
  show ?case
  proof (cases "fst z = Stopped")
    case True
    then show ?thesis by (cases z) auto
  next
    case False
    with closing_not_stuck [OF less(2)] obtain z1 where z1: "closing order c False z z1" by blast
    have "total_load z1 < total_load z"
      using z1 less(2) closing_load by (cases z; cases z1) (auto simp: closing_ok_def total_load_def)
    from less(1) [OF this closing_ok_step [OF z1 less(2)]] z1 show ?thesis
      by (meson converse_rtranclp_into_rtranclp)
  qed
qed

lemma closing_run_later:
  assumes "(closing order c ctx_shared)\<^sup>*\<^sup>* z z'" "closing_ok ctx_shared extra z" "log_faithful level (snd z)"
  shows "later (snd z) (snd z') \<and> log_faithful level (snd z')"
  using assms(1)
proof (induction rule: rtranclp_induct)
  case base
  with assms(3) show ?case by (simp add: later_refl)
next
  case (step z1 z2)
  have "closing_ok ctx_shared extra z1" using closing_ok_run [OF step(1) assms(2)] .
  with step closing_later [of order c ctx_shared] closing_log_faithful [of order c ctx_shared] later_trans show ?case
    by (cases z1; cases z2) (auto simp: closing_ok_def)
qed

section \<open>A shutdown of a balancer\<close>

lemma with_senders_parts:
  "running (Suc 0) (sy_state y) \<Longrightarrow>
     running (Suc n) (sy_state (with_senders n y))
     \<and> proper (with_senders n y) = proper y \<and> quiet Stopping_health (with_senders n y) = quiet Stopping_health y
     \<and> as_alone (with_senders n y) = as_alone y \<and> log_faithful level (with_senders n y) = log_faithful level y
     \<and> load (with_senders n y) = load y"
proof (induction n)
  case (Suc n)
  then have "running (Suc n) (sy_state (with_senders n y))" by simp
  then have "running (Suc (Suc n)) (sy_state (with_senders (Suc n) y))"
    by (simp add: running_def Let_def log_sender_def clone_sender_def)
  with Suc show ?case
    by (simp add: Let_def log_sender_def clone_sender_def proper_def orderly_def conserved_def metrics_exact_def
        quiet_def as_alone_def log_faithful_def load_def)
qed simp

lemma shutdown_ok:
  assumes "balancer_build mk_logger now c = Inr b" "reachable order c (initial b) y" "shutting y"
  shows "closing_ok ctx_shared extra (Stopping_health, with_senders extra y)"
proof -
  have s: "sound y" "as_alone y" "running 1 (sy_state y)"
    using reachable_sound [OF assms(1,2)] reachable_alone [OF assms(2)] reachable_running [OF assms(1,2)] by simp_all
  then have "proper y" "quiet Stopping_health y" using assms(3) by (simp_all add: proper_def sound_def quiet_def shutting_def)
  with s with_senders_parts [of y extra] show ?thesis
    by (simp add: closing_ok_def as_alone_until_def accounted_def Let_def)
qed

end
