(* ===== verification/Closing_Schedule.thy ===== *)
theory Closing_Schedule
  imports Closing_Correct
begin

text \<open>
  \<open>balancer_shutdown\<close>, where each thread runs alone while the owner waits for it, is one of the
  schedules of a shutdown that interleaves: the one in which no thread takes a turn before it
  is joined.
\<close>

lemma unchanged [simp]:
  "s\<lparr>ps_aggregator := ps_aggregator s, ps_world := ps_world s\<rparr> = s" "s\<lparr>ps_logger := ps_logger s, ps_world := ps_world s\<rparr> = s"
  "y\<lparr>sy_state := sy_state y, sy_history := sy_history y\<rparr> = y" "y\<lparr>sy_state := sy_state y, sy_written := sy_written y\<rparr> = y"
  "y\<lparr>sy_state := sy_state y, sy_counted := sy_counted y\<rparr> = y"
  "w\<lparr>wd_stats := wd_stats w\<rparr> = w" "w\<lparr>wd_log := wd_log w\<rparr> = w"
  for y :: system
  by simp_all

lemma emptied: "queue ch = [] \<Longrightarrow> ch\<lparr>queue := []\<rparr> = ch"
  by simp

section \<open>One thread at a time\<close>

lemma closing_thread_run:
  "closing order c ctx_shared (ph, y) (ph, y1) \<Longrightarrow> (closing order c ctx_shared)\<^sup>*\<^sup>* (ph, y1) z
     \<Longrightarrow> (closing order c ctx_shared)\<^sup>*\<^sup>* (ph, y) z"
  by (rule converse_rtranclp_into_rtranclp)

lemma task_runs:
  "sy_tasks y Aggregator = s \<Longrightarrow> run s (ps_world (sy_state y)) = (u, w) \<Longrightarrow>
     \<exists>cs. (closing order c ctx_shared)\<^sup>*\<^sup>* (ph, y) (ph, y\<lparr>sy_state := (sy_state y)\<lparr>ps_world := w\<rparr>,
       sy_tasks := (sy_tasks y)(Aggregator := Return ()), sy_counted := sy_counted y @ cs\<rparr>)"
proof (induction s arbitrary: y rule: script_step_induct)
  case (1 s)
  show ?case
  proof (cases "script_step s (ps_world (sy_state y))")
    case None
    then have "s = Return ()" by (auto simp: script_step_None)
    with 1(2,3) have "(sy_tasks y)(Aggregator := Return ()) = sy_tasks y" "w = ps_world (sy_state y)"
      by (simp_all add: fun_upd_idem)
    then show ?thesis by (intro exI [of _ "[]"]) simp
  next
    case (Some z)
    obtain task w1 where z: "script_step s (ps_world (sy_state y)) = Some (task, w1)" using Some by (cases z) simp
    let ?y1 = "y\<lparr>sy_state := (sy_state y)\<lparr>ps_world := w1\<rparr>, sy_tasks := (sy_tasks y)(Aggregator := task),
      sy_counted := sy_counted y @ held (sy_tasks y Aggregator)\<rparr>"
    have "turn order c (At_task Aggregator) y ?y1" by (rule turn.proceed [OF refl]) (simp add: 1(2) z)
    then have t: "closing order c ctx_shared (ph, y) (ph, ?y1)" by (rule closing.thread) simp
    have "sy_tasks ?y1 Aggregator = task" "run task (ps_world (sy_state ?y1)) = (u, w)"
      using run_step [OF z] 1(3) by simp_all
    from 1(1) [OF z this] obtain cs where
      "(closing order c ctx_shared)\<^sup>*\<^sup>* (ph, ?y1) (ph, ?y1\<lparr>sy_state := (sy_state ?y1)\<lparr>ps_world := w\<rparr>,
         sy_tasks := (sy_tasks ?y1)(Aggregator := Return ()), sy_counted := sy_counted ?y1 @ cs\<rparr>)" by blast
    from closing_thread_run [OF t this] show ?thesis
      by (intro exI [of _ "held (sy_tasks y Aggregator) @ cs"]) (simp del: fun_upd_apply)
  qed
qed

text \<open>The metrics thread does not look at its queue while it works.\<close>

lemma aggregator_frame:
  assumes "aggregator_turn order clk st ag w = (ag1, w1)"
  shows "wd_stats w1 = wd_stats w \<and> aggregator_turn order clk st ag (w\<lparr>wd_stats := ch\<rparr>) = (ag1, w1\<lparr>wd_stats := ch\<rparr>)"
proof -
  have "aggregator_turn order clk st ag (w\<lparr>wd_stats := ch\<rparr>)
      = (case aggregator_turn order clk st ag w of (ag1, w1) \<Rightarrow> (ag1, w1\<lparr>wd_stats := ch\<rparr>))"
    by (simp add: aggregator_turn_def Let_def)
  moreover have "wd_stats (snd (aggregator_turn order clk st ag w)) = wd_stats w"
    by (simp add: aggregator_turn_def Let_def)
  ultimately show ?thesis using assms by simp
qed

lemma stats_run:
  "sy_tasks y Aggregator = Return () \<Longrightarrow> queue (wd_stats (ps_world (sy_state y))) = sts \<Longrightarrow>
     fold (\<lambda>(i, st) (ag, w). aggregator_turn order (clock i) st ag w) (enumerate n sts)
       (ps_aggregator (sy_state y), (ps_world (sy_state y))\<lparr>wd_stats := (wd_stats (ps_world (sy_state y)))\<lparr>queue := []\<rparr>\<rparr>)
       = (ag, w) \<Longrightarrow>
     \<exists>cs. (closing order c ctx_shared)\<^sup>*\<^sup>* (ph, y)
       (ph, y\<lparr>sy_state := (sy_state y)\<lparr>ps_aggregator := ag, ps_world := w\<rparr>, sy_counted := sy_counted y @ cs\<rparr>)"
proof (induction sts arbitrary: y n)
  case Nil
  from Nil.prems(3) have "ag = ps_aggregator (sy_state y)" "w = ps_world (sy_state y)"
    by (simp_all add: emptied [OF Nil.prems(2)])
  then show ?case by (intro exI [of _ "[]"]) simp
next
  case (Cons st sts)
  define s where "s = sy_state y"
  define ch where "ch = (wd_stats (ps_world s))\<lparr>queue := sts\<rparr>"
  define w0 where "w0 = (ps_world s)\<lparr>wd_stats := (wd_stats (ps_world s))\<lparr>queue := []\<rparr>\<rparr>"
  obtain ag1 w1 where a: "aggregator_turn order (clock n) st (ps_aggregator s) w0 = (ag1, w1)" by force
  from aggregator_frame [OF a, of ch] have w1: "wd_stats w1 = (wd_stats (ps_world s))\<lparr>queue := []\<rparr>"
    "aggregator_turn order (clock n) st (ps_aggregator s) ((ps_world s)\<lparr>wd_stats := ch\<rparr>) = (ag1, w1\<lparr>wd_stats := ch\<rparr>)"
    by (simp_all add: w0_def)
  obtain task where g: "aggregator_script order (clock n) st (ps_aggregator s) = (ag1, task)"
    "run task ((ps_world s)\<lparr>wd_stats := ch\<rparr>) = ((), w1\<lparr>wd_stats := ch\<rparr>)"
    using w1(2) unfolding run_aggregator by (auto split: prod.splits) (metis old.unit.exhaust prod.collapse)
  let ?y1 = "y\<lparr>sy_state := s\<lparr>ps_aggregator := ag1, ps_world := (ps_world s)\<lparr>wd_stats := ch\<rparr>\<rparr>,
    sy_tasks := (sy_tasks y)(Aggregator := task)\<rparr>"
  have "turn order c At_statistics y ?y1"
    by (rule turn.collect [OF s_def [symmetric] Cons.prems(1) _ g(1)])
       (use Cons.prems(2) in \<open>simp add: recv_def ch_def s_def\<close>)
  then have t: "closing order c ctx_shared (ph, y) (ph, ?y1)" by (rule closing.thread) simp
  have tr: "(sy_tasks y)(Aggregator := Return ()) = sy_tasks y" using Cons.prems(1) by (simp add: fun_upd_idem)
  have "sy_tasks ?y1 Aggregator = task" "run task (ps_world (sy_state ?y1)) = ((), w1\<lparr>wd_stats := ch\<rparr>)"
    using g(2) by simp_all
  from task_runs [OF this] obtain cs where
    "(closing order c ctx_shared)\<^sup>*\<^sup>* (ph, ?y1) (ph, ?y1\<lparr>sy_state := (sy_state ?y1)\<lparr>ps_world := w1\<lparr>wd_stats := ch\<rparr>\<rparr>,
       sy_tasks := (sy_tasks ?y1)(Aggregator := Return ()), sy_counted := sy_counted ?y1 @ cs\<rparr>)" by blast
  from closing_thread_run [OF t this] have
    "(closing order c ctx_shared)\<^sup>*\<^sup>* (ph, y) (ph, y\<lparr>sy_state := s\<lparr>ps_aggregator := ag1, ps_world := w1\<lparr>wd_stats := ch\<rparr>\<rparr>,
       sy_counted := sy_counted y @ cs\<rparr>)" (is "?C (ph, y) (ph, ?y2)")
    by (simp add: tr del: fun_upd_apply)
  then have y2: "?C (ph, y) (ph, ?y2)" .
  have i: "sy_tasks ?y2 Aggregator = Return ()" "queue (wd_stats (ps_world (sy_state ?y2))) = sts"
    using Cons.prems(1) by (simp_all add: ch_def)
  have f: "fold (\<lambda>(i, st) (ag, w). aggregator_turn order (clock i) st ag w) (enumerate (Suc n) sts)
       (ps_aggregator (sy_state ?y2), (ps_world (sy_state ?y2))\<lparr>wd_stats := (wd_stats (ps_world (sy_state ?y2)))\<lparr>queue := []\<rparr>\<rparr>)
       = (ag, w)"
    using Cons.prems(3) a w1(1) by (simp add: s_def [symmetric] w0_def [symmetric] ch_def) (metis unchanged(6))
  from Cons.IH [OF i f] obtain cs' where "?C (ph, ?y2) (ph, ?y2\<lparr>sy_state := (sy_state ?y2)
      \<lparr>ps_aggregator := ag, ps_world := w\<rparr>, sy_counted := sy_counted ?y2 @ cs'\<rparr>)" by blast
  from rtranclp_trans [OF y2 this] show ?case by (intro exI [of _ "cs @ cs'"]) (simp add: s_def)
qed

section \<open>The queues and the log\<close>

lemma queue_run:
  assumes "i < length (sy_workers y)" "sy_workers y ! i = Idle" "i < length (pl_queues (ps_pool (sy_state y)))"
    "pl_shutting_down (ps_pool (sy_state y))" "queue (pl_queues (ps_pool (sy_state y)) ! i) = sks"
  shows "(closing order c ctx_shared)\<^sup>*\<^sup>* (ph, y) (ph, y\<lparr>sy_state := (sy_state y)\<lparr>ps_pool := (ps_pool (sy_state y))
    \<lparr>pl_queues := (pl_queues (ps_pool (sy_state y)))[i := (pl_queues (ps_pool (sy_state y)) ! i)\<lparr>queue := []\<rparr>]\<rparr>\<rparr>,
    sy_history := sy_history y @ map Refused sks\<rparr>)"
  using assms
proof (induction sks arbitrary: y)
  case Nil
  then show ?case by (simp add: emptied)
next
  case (Cons sk sks)
  define s where "s = sy_state y"
  define ch where "ch = (pl_queues (ps_pool s) ! i)\<lparr>queue := sks\<rparr>"
  let ?s1 = "s\<lparr>ps_pool := (ps_pool s)\<lparr>pl_queues := (pl_queues (ps_pool s))[i := ch]\<rparr>\<rparr>"
  let ?y1 = "y\<lparr>sy_state := ?s1, sy_workers := (sy_workers y)[i := Taken sk]\<rparr>"
  let ?y2 = "?y1\<lparr>sy_workers := (sy_workers ?y1)[i := Idle], sy_history := sy_history ?y1 @ [Refused sk]\<rparr>"
  have "turn order c (At_worker i) y ?y1"
    by (rule turn.take_stream [OF s_def [symmetric] Cons.prems(1,2)])
       (use Cons.prems(5) in \<open>simp add: recv_def ch_def s_def\<close>)
  then have t1: "closing order c ctx_shared (ph, y) (ph, ?y1)" by (rule closing.thread) simp
  have "turn order c (At_worker i) ?y1 ?y2"
    by (rule turn.refuse [OF refl]) (use Cons.prems in \<open>simp_all add: s_def\<close>)
  then have t2: "closing order c ctx_shared (ph, ?y1) (ph, ?y2)" by (rule closing.thread) simp
  have ws: "(sy_workers y)[i := Idle] = sy_workers y" using Cons.prems(2) by (metis list_update_id)
  have "(closing order c ctx_shared)\<^sup>*\<^sup>* (ph, ?y2) (ph, ?y2\<lparr>sy_state := (sy_state ?y2)\<lparr>ps_pool := (ps_pool (sy_state ?y2))
    \<lparr>pl_queues := (pl_queues (ps_pool (sy_state ?y2)))[i := (pl_queues (ps_pool (sy_state ?y2)) ! i)\<lparr>queue := []\<rparr>]\<rparr>\<rparr>,
    sy_history := sy_history ?y2 @ map Refused sks\<rparr>)"
    by (rule Cons.IH) (use Cons.prems in \<open>simp_all add: s_def ch_def\<close>)
  from closing_thread_run [OF t1 closing_thread_run [OF t2 this]] Cons.prems(3) show ?case
    by (simp add: s_def ch_def ws)
qed

lemma queues_run:
  assumes "list_all (\<lambda>wk. wk = Idle) (sy_workers y)" "length (sy_workers y) = length qs"
    "pl_queues (ps_pool (sy_state y)) = qs" "pl_shutting_down (ps_pool (sy_state y))" "n \<le> length qs"
  shows "(closing order c ctx_shared)\<^sup>*\<^sup>* (ph, y) (ph, y\<lparr>sy_state := (sy_state y)\<lparr>ps_pool := (ps_pool (sy_state y))
    \<lparr>pl_queues := map (\<lambda>ch. ch\<lparr>queue := []\<rparr>) (take n qs) @ drop n qs\<rparr>\<rparr>,
    sy_history := sy_history y @ map Refused (concat (map queue (take n qs)))\<rparr>)"
  using assms(5)
proof (induction n)
  case 0
  have "y\<lparr>sy_state := (sy_state y)\<lparr>ps_pool := (ps_pool (sy_state y))\<lparr>pl_queues := qs\<rparr>\<rparr>\<rparr> = y"
    unfolding assms(3) [symmetric] by simp
  then show ?case by simp
next
  case (Suc n)
  define p where "p = ps_pool (sy_state y)"
  define q1 where "q1 = map (\<lambda>ch. ch\<lparr>queue := []\<rparr>) (take n qs) @ drop n qs"
  define y1 where "y1 = y\<lparr>sy_state := (sy_state y)\<lparr>ps_pool := p\<lparr>pl_queues := q1\<rparr>\<rparr>,
    sy_history := sy_history y @ map Refused (concat (map queue (take n qs)))\<rparr>"
  have n: "n < length qs" using Suc.prems by simp
  have q: "q1 ! n = qs ! n" "n < length q1" using n by (simp_all add: q1_def nth_append)
  have u: "q1[n := (qs ! n)\<lparr>queue := []\<rparr>] = map (\<lambda>ch. ch\<lparr>queue := []\<rparr>) (take (Suc n) qs) @ drop (Suc n) qs"
    using n by (simp add: q1_def list_update_append Cons_nth_drop_Suc [symmetric] take_Suc_conv_app_nth)
  have "(closing order c ctx_shared)\<^sup>*\<^sup>* (ph, y1) (ph, y1\<lparr>sy_state := (sy_state y1)\<lparr>ps_pool := (ps_pool (sy_state y1))
    \<lparr>pl_queues := (pl_queues (ps_pool (sy_state y1)))[n := (pl_queues (ps_pool (sy_state y1)) ! n)\<lparr>queue := []\<rparr>]\<rparr>\<rparr>,
    sy_history := sy_history y1 @ map Refused (queue (qs ! n))\<rparr>)"
    using assms(1,2,4) n q by (intro queue_run) (simp_all add: y1_def p_def list_all_length)
  then have "(closing order c ctx_shared)\<^sup>*\<^sup>* (ph, y1) (ph, y\<lparr>sy_state := (sy_state y)\<lparr>ps_pool := p
    \<lparr>pl_queues := map (\<lambda>ch. ch\<lparr>queue := []\<rparr>) (take (Suc n) qs) @ drop (Suc n) qs\<rparr>\<rparr>,
    sy_history := sy_history y @ map Refused (concat (map queue (take (Suc n) qs)))\<rparr>)"
    using q by (simp add: y1_def u) (simp add: take_Suc_conv_app_nth n)
  moreover have "(closing order c ctx_shared)\<^sup>*\<^sup>* (ph, y) (ph, y1)"
    using Suc.IH n by (simp add: y1_def p_def q1_def)
  ultimately show ?case unfolding p_def by (meson rtranclp_trans)
qed

lemma log_run:
  "queue (wd_log (ps_world (sy_state y))) = rs \<Longrightarrow>
     (closing order c ctx_shared)\<^sup>*\<^sup>* (ph, y) (ph, y\<lparr>sy_state := (sy_state y)
       \<lparr>ps_logger := fold log_writer_turn rs (ps_logger (sy_state y)),
        ps_world := (ps_world (sy_state y))\<lparr>wd_log := (wd_log (ps_world (sy_state y)))\<lparr>queue := []\<rparr>\<rparr>\<rparr>,
       sy_written := sy_written y @ rs\<rparr>)"
proof (induction rs arbitrary: y)
  case Nil
  then show ?case by (simp add: emptied)
next
  case (Cons r rs)
  define s where "s = sy_state y"
  define ch where "ch = (wd_log (ps_world s))\<lparr>queue := rs\<rparr>"
  let ?y1 = "y\<lparr>sy_state := s\<lparr>ps_logger := log_writer_turn r (ps_logger s), ps_world := (ps_world s)\<lparr>wd_log := ch\<rparr>\<rparr>,
    sy_written := sy_written y @ [r]\<rparr>"
  have "turn order c At_log y ?y1"
    by (rule turn.write_log [OF s_def [symmetric]]) (use Cons.prems in \<open>simp add: recv_def ch_def s_def\<close>)
  then have t: "closing order c ctx_shared (ph, y) (ph, ?y1)" by (rule closing.thread) simp
  have "queue (wd_log (ps_world (sy_state ?y1))) = rs" by (simp add: ch_def)
  from closing_thread_run [OF t Cons.IH [OF this]] show ?case by (simp add: s_def ch_def)
qed

section \<open>The whole schedule\<close>

lemma shutdown_threads_schedule:
  assumes "shutdown_threads order clock now ctx_shared s = Some (r, replied, s')"
    and "ConnectionWorker \<in> set (pl_handles (ps_pool s))" "MetricsAggregator \<in> set (pl_handles (ps_pool s))"
      "LogWriter \<in> set (pl_handles (ps_pool s))"
  obtains s5 ag w s7 where
    "\<forall>ch\<in>set (pl_queues (ps_pool (queues_closed s))). senders ch = 0"
    "replied = map shutting_down_reply (queued (ps_pool (queues_closed s)))"
    "s5 = workers_gone ctx_shared ((queues_closed s)\<lparr>ps_pool := (ps_pool (queues_closed s))
       \<lparr>pl_queues := map (\<lambda>ch. ch\<lparr>queue := []\<rparr>) (pl_queues (ps_pool (queues_closed s)))\<rparr>\<rparr>)"
    "senders (wd_stats (ps_world s5)) = 0"
    "drain_stats order clock (ps_aggregator s5) (ps_world s5) = (ag, w)"
    "s7 = metrics_gone order now (s5\<lparr>ps_aggregator := ag, ps_world := w\<rparr>)"
    "senders (wd_log (ps_world s7)) = 0"
    "s' = log_gone (s7\<lparr>ps_logger := fold log_writer_turn (queue (wd_log (ps_world s7))) (ps_logger s7),
       ps_world := (ps_world s7)\<lparr>wd_log := (wd_log (ps_world s7))\<lparr>queue := []\<rparr>\<rparr>\<rparr>)"
proof -
  define s2 where "s2 = queues_closed s"
  have s2: "ps_pool s2 = stop_accepting (ps_pool s)" "ps_context s2 = ps_context s" "ps_world s2 = ps_world s"
    "ps_aggregator s2 = ps_aggregator s" "ps_logger s2 = ps_logger s"
    by (simp_all add: s2_def queues_closed_def)
  define p1 where "p1 = (ps_pool s2)\<lparr>pl_queues := map (\<lambda>ch. ch\<lparr>queue := []\<rparr>) (pl_queues (ps_pool s2))\<rparr>"
  define s5 where "s5 = workers_gone ctx_shared (s2\<lparr>ps_pool := p1\<rparr>)"
  have h: "pl_handles p1 = pl_handles (ps_pool s)" by (simp add: p1_def s2 stop_accepting_def)
  obtain cx1 w1 where 2: "detach_context ctx_shared (ps_context s) (ps_world s) = (cx1, w1)" by force
  obtain p2 w2 where 3: "drop_metrics_tx p1 w1 = (p2, w2)" by force
  have s5: "ps_pool s5 = p2" "ps_context s5 = cx1" "ps_world s5 = w2" "ps_aggregator s5 = ps_aggregator s"
    "ps_logger s5 = ps_logger s"
    using 2 3 by (simp_all add: s5_def workers_gone_def s2)
  have h2: "pl_handles p2 = pl_handles (ps_pool s)" using 3 h by (auto simp: drop_metrics_tx_def)
  obtain ag w where d: "drain_stats order clock (ps_aggregator s) w2 = (ag, w)" by force
  define w3 where "w3 = w\<lparr>wd_log := drop_sender (wd_log w)\<rparr>"
  obtain p4 w4 where 5: "shutdown_log order now p2 w3 = (p4, w4)" by force
  define s7 where "s7 = metrics_gone order now (s5\<lparr>ps_aggregator := ag, ps_world := w\<rparr>)"
  have s7: "ps_pool s7 = p4" "ps_context s7 = cx1" "ps_world s7 = w4" "ps_aggregator s7 = ag" "ps_logger s7 = ps_logger s"
    using 5 by (simp_all add: s7_def metrics_gone_def s5 w3_def [symmetric])
  have h4: "pl_handles p4 = pl_handles (ps_pool s)" using 5 h2 by (auto simp: shutdown_log_def)
  have j: "(\<forall>ch\<in>set (pl_queues (ps_pool s2)). senders ch = 0)"
    "join_workers (stop_accepting (ps_pool s)) = Some (map shutting_down_reply (queued (ps_pool s2)), p1)"
    using assms(1,2) h by (auto simp: shutdown_threads_def join_workers_def s2 [symmetric] queued_def p1_def split: if_splits)
  have k: "senders (wd_stats w2) = 0" "join_metrics order clock p2 (ps_aggregator s) w2 = Some (ag, w3)"
    using assms(1,3) h2 j(2) 2 3 d by (auto simp: shutdown_threads_def join_metrics_def w3_def split: if_splits)
  from assms(1,4) h4 have l: "senders (wd_log w4) = 0"
    by (auto simp: shutdown_threads_def j(2) 2 3 k(2) 5 join_log_def split: if_splits)
  from assms(1,4) h4 l have
    "replied = map shutting_down_reply (queued (ps_pool s2))"
    "s' = \<lparr>ps_pool = p4\<lparr>pl_handles := []\<rparr>, ps_context = cx1, ps_world = w4\<lparr>wd_log := (wd_log w4)\<lparr>queue := []\<rparr>\<rparr>,
       ps_logger = fold log_writer_turn (queue (wd_log w4)) (ps_logger s), ps_aggregator = ag\<rparr>"
    by (simp_all add: shutdown_threads_def j(2) 2 3 k(2) 5 join_log_def)
  with j(1) k(1) d l s7 s5 that [of s5 ag w s7] show thesis
    by (simp add: s2_def [symmetric] p1_def [symmetric] s5_def [symmetric] s7_def [symmetric] log_gone_def)
qed

lemma joins_are_schedule:
  assumes "shutdown_threads order clock now ctx_shared s = Some (r, replied, s')"
    and "ConnectionWorker \<in> set (pl_handles (ps_pool s))" "MetricsAggregator \<in> set (pl_handles (ps_pool s))"
      "LogWriter \<in> set (pl_handles (ps_pool s))"
    and "length (sy_workers y2) = length (pl_queues (ps_pool (queues_closed s)))" "sy_state y2 = queues_closed s"
      "list_all (\<lambda>wk. wk = Idle) (sy_workers y2)" "sy_tasks y2 Aggregator = Return ()"
  shows "replied = map shutting_down_reply (queued (ps_pool (queues_closed s)))
    \<and> (\<exists>z. (closing order c ctx_shared)\<^sup>*\<^sup>* (Joining_workers, y2) (Stopped, z) \<and> sy_state z = s'
      \<and> sy_history z = sy_history y2 @ map Refused (queued (ps_pool (queues_closed s))))"
proof -
  let ?C = "closing order c ctx_shared"
  from shutdown_threads_schedule [OF assms(1-4)] obtain s5 ag w s7 where
    1: "\<forall>ch\<in>set (pl_queues (ps_pool (queues_closed s))). senders ch = 0"
      "replied = map shutting_down_reply (queued (ps_pool (queues_closed s)))"
    and s5: "s5 = workers_gone ctx_shared ((queues_closed s)\<lparr>ps_pool := (ps_pool (queues_closed s))
       \<lparr>pl_queues := map (\<lambda>ch. ch\<lparr>queue := []\<rparr>) (pl_queues (ps_pool (queues_closed s)))\<rparr>\<rparr>)" "senders (wd_stats (ps_world s5)) = 0"
    and dr: "drain_stats order clock (ps_aggregator s5) (ps_world s5) = (ag, w)"
    and s7: "s7 = metrics_gone order now (s5\<lparr>ps_aggregator := ag, ps_world := w\<rparr>)" "senders (wd_log (ps_world s7)) = 0"
    and s': "s' = log_gone (s7\<lparr>ps_logger := fold log_writer_turn (queue (wd_log (ps_world s7))) (ps_logger s7),
       ps_world := (ps_world s7)\<lparr>wd_log := (wd_log (ps_world s7))\<lparr>queue := []\<rparr>\<rparr>\<rparr>)" .
  define qs where "qs = pl_queues (ps_pool (queues_closed s))"
  define y3 where "y3 = y2\<lparr>sy_state := (sy_state y2)\<lparr>ps_pool := (ps_pool (sy_state y2))\<lparr>pl_queues := map (\<lambda>ch. ch\<lparr>queue := []\<rparr>) qs\<rparr>\<rparr>,
    sy_history := sy_history y2 @ map Refused (concat (map queue qs))\<rparr>"
  from queues_run [of y2 qs "length qs" order c ctx_shared Joining_workers] assms(5,7)
  have c2: "?C\<^sup>*\<^sup>* (Joining_workers, y2) (Joining_workers, y3)"
    by (simp add: assms(6) y3_def qs_def queues_closed_def stop_accepting_def)
  define y5 where "y5 = y3\<lparr>sy_state := s5\<rparr>"
  have "?C (Joining_workers, y3) (Joining_metrics, y3\<lparr>sy_state := workers_gone ctx_shared (sy_state y3)\<rparr>)"
    using 1(1) assms(7) by (intro closing.join_workers) (simp_all add: assms(6) y3_def qs_def list_all_iff drained_simps)
  then have c3: "?C (Joining_workers, y3) (Joining_metrics, y5)" by (simp add: y5_def s5(1) y3_def assms(6) qs_def)
  have ta: "sy_tasks y5 Aggregator = Return ()" using assms(8) by (simp add: y5_def y3_def assms(6))
  from dr stats_run [OF ta refl, of order clock 0 ag w c ctx_shared Joining_metrics] obtain cs where
    c4: "?C\<^sup>*\<^sup>* (Joining_metrics, y5) (Joining_metrics, y5\<lparr>sy_state := s5\<lparr>ps_aggregator := ag, ps_world := w\<rparr>, sy_counted := sy_counted y5 @ cs\<rparr>)"
    (is "_ (_, ?y6)") by (auto simp: y5_def drain_stats_def)
  have c5: "?C (Joining_metrics, ?y6) (Joining_log, ?y6\<lparr>sy_state := s7\<rparr>)" (is "_ (_, ?y7)")
    using closing.join_metrics [of ?y6 order c ctx_shared now] ta drain_stats_frame [OF dr] s5(2) by (simp add: drained_simps s7(1))
  define y8 where "y8 = ?y7\<lparr>sy_state := s7\<lparr>ps_logger := fold log_writer_turn (queue (wd_log (ps_world s7))) (ps_logger s7),
    ps_world := (ps_world s7)\<lparr>wd_log := (wd_log (ps_world s7))\<lparr>queue := []\<rparr>\<rparr>\<rparr>,
    sy_written := sy_written y5 @ queue (wd_log (ps_world s7))\<rparr>"
  have c6: "?C\<^sup>*\<^sup>* (Joining_log, ?y7) (Joining_log, y8)" using log_run [of ?y7, OF refl] by (simp add: y8_def)
  have c7: "?C (Joining_log, y8) (Stopped, y8\<lparr>sy_state := s'\<rparr>)"
    using closing.join_log [of y8 order c ctx_shared] s7(2) by (simp add: y8_def drained_simps s')
  have "?C\<^sup>*\<^sup>* (Joining_workers, y2) (Stopped, y8\<lparr>sy_state := s'\<rparr>)"
    using c2 c3 c4 c5 c6 c7 by (meson rtranclp_trans r_into_rtranclp)
  with 1(2) show ?thesis
    by (intro conjI exI [of _ "y8\<lparr>sy_state := s'\<rparr>"]) (simp_all add: y8_def y5_def y3_def qs_def queued_def)
qed

lemma shutdown_is_schedule:
  assumes "running (Suc extra) (sy_state y)" "idle y" "conserved y" "pl_shutting_down (ps_pool (sy_state y))"
    and "sy_state y = (bl_state b)\<lparr>ps_pool := (ps_pool (bl_state b))\<lparr>pl_shutting_down := True\<rparr>\<rparr>" "bl_health_running b"
    and "balancer_shutdown order clock now ctx_shared grace b = Some (r, waited, replied, b')"
  shows "\<exists>z. (closing order c ctx_shared)\<^sup>*\<^sup>* (Stopping_health, y) (Stopped, z) \<and> sy_state z = bl_state b'
    \<and> sy_history z = sy_history y @ map Refused (queued (ps_pool (sy_state y)))
    \<and> replied = map shutting_down_reply (queued (ps_pool (sy_state y)))"
proof -
  define s2 where "s2 = queues_closed (health_gone (sy_state y))"
  have e: "before_join b = s2"
    using assms(5) by (intro pool_state.equality)
      (simp_all add: before_join_def s2_def queues_closed_def health_gone_def stop_accepting_def Let_def)
  define y2 where "y2 = y\<lparr>sy_state := queues_closed s2\<rparr>"
  have id: "sy_tasks y t = Return ()" "list_all (\<lambda>wk. wk = Idle) (sy_workers y)" for t
    using assms(2) by (simp_all add: idle_def)
  have r2: "running extra s2" unfolding e [symmetric] by (rule before_join_running) (use assms(1,5) in \<open>simp add: running_def Let_def\<close>)
  have q2: "queued (ps_pool (queues_closed s2)) = queued (ps_pool (sy_state y))"
    using owner_steps(1) [of "sy_state y"] owner_steps(2) [of "health_gone (sy_state y)"] owner_steps(2) [of s2]
    by (simp add: owner_step_def s2_def)
  let ?C = "closing order c ctx_shared"
  have "?C (Stopping_health, y) (Closing_queues, y\<lparr>sy_state := health_gone (sy_state y)\<rparr>)"
    by (rule closing.join_health) (rule id)
  moreover have "?C (Closing_queues, y\<lparr>sy_state := health_gone (sy_state y)\<rparr>) (Awaiting_deadline, y\<lparr>sy_state := s2\<rparr>)"
    using closing.close_queues [of order c ctx_shared "y\<lparr>sy_state := health_gone (sy_state y)\<rparr>"] by (simp add: s2_def)
  moreover have "?C (Awaiting_deadline, y\<lparr>sy_state := s2\<rparr>) (Joining_workers, y2)"
    using closing.deadline [of order c ctx_shared "y\<lparr>sy_state := s2\<rparr>"] by (simp add: y2_def)
  ultimately have c1: "?C\<^sup>*\<^sup>* (Stopping_health, y) (Joining_workers, y2)"
    by (meson converse_rtranclp_into_rtranclp rtranclp.rtrancl_refl)
  have m: "ConnectionWorker \<in> set (pl_handles (ps_pool s2))" "MetricsAggregator \<in> set (pl_handles (ps_pool s2))"
    "LogWriter \<in> set (pl_handles (ps_pool s2))" using r2 by (simp_all add: running_def Let_def)
  from assms(7) obtain x s3 where "shutdown_threads order clock now ctx_shared s2 = Some (x, replied, bl_state b')"
    unfolding balancer_shutdown_eq [OF assms(6)] e by auto
  note sch = joins_are_schedule [OF this m, of y2 c]
  have "length (sy_workers y2) = length (pl_queues (ps_pool (queues_closed s2)))"
    using assms(3) owner_steps(1) [of "sy_state y"] owner_steps(2) [of "health_gone (sy_state y)"] owner_steps(2) [of s2]
    by (simp add: conserved_def y2_def owner_step_def s2_def)
  with sch id obtain z where "replied = map shutting_down_reply (queued (ps_pool (queues_closed s2)))"
    "?C\<^sup>*\<^sup>* (Joining_workers, y2) (Stopped, z)" "sy_state z = bl_state b'"
    "sy_history z = sy_history y2 @ map Refused (queued (ps_pool (queues_closed s2)))"
    by (auto simp: y2_def)
  with rtranclp_trans [OF c1 this(2)] q2 show ?thesis by (intro exI [of _ z]) (simp add: y2_def)
qed

end
