(* ===== verification/System_Outcomes.thy ===== *)
theory System_Outcomes
  imports System_Progress
begin

text \<open>
  What the running balancer reports about a connection is what became of it: a statistics
  record says \<open>ok\<close> exactly when the connection ended well, \<open>request_complete\<close> is logged only for
  a connection that did, and \<open>request_failed\<close> only for one that did not.
\<close>

section \<open>Truthful scripts\<close>

definition ended_well :: "handled \<Rightarrow> bool" where
  "ended_well x \<longleftrightarrow> (\<exists>sk ats. x = Some (Inr (), sk, ats))"

definition stats_fit :: "request_stats \<Rightarrow> handled \<Rightarrow> bool" where
  "stats_fit st x \<longleftrightarrow> (st_outcome st = OutcomeOk \<longleftrightarrow> ended_well x)"

definition event_fits :: "str \<Rightarrow> handled \<Rightarrow> bool" where
  "event_fits ev x \<longleftrightarrow> (ev = lit ''request_complete'' \<longrightarrow> ended_well x) \<and> (ev = lit ''request_failed'' \<longrightarrow> \<not> ended_well x)"

definition record_fits :: "log_record \<Rightarrow> handled \<Rightarrow> bool" where
  "record_fits r x \<longleftrightarrow> event_fits (lr_event r) x"

text \<open>The scripts that report only what they end with.\<close>

primrec truthful :: "(log_record \<Rightarrow> 'a \<Rightarrow> bool) \<Rightarrow> (request_stats \<Rightarrow> 'a \<Rightarrow> bool) \<Rightarrow> 'a script \<Rightarrow> bool" where
  "truthful P Q (Return x) = True"
| "truthful P Q (Try_log r k) =
    (\<forall>b. truthful P Q (k b) \<and> (lr_role r = Worker \<longrightarrow> (\<forall>x. settles (k b) x \<longrightarrow> P r x)))"
| "truthful P Q (Count_dropped k) = (\<forall>v. truthful P Q (k v))"
| "truthful P Q (Try_stats st s) = (truthful P Q s \<and> (\<forall>x. settles s x \<longrightarrow> Q st x))"
| "truthful P Q (Next_index k) = (\<forall>v. truthful P Q (k v))"
| "truthful P Q (Load_healthy i k) = (\<forall>b. truthful P Q (k b))"
| "truthful P Q (Count_rejected s) = False"
| "truthful P Q (Count_request st s) = False"
| "truthful P Q (Log_metrics f s) = False"

lemma truthful_emit:
  assumes "truthful P Q s" "\<And>x. settles s x \<Longrightarrow> P r x"
  shows "truthful P Q (emit_script cx r s)"
proof -
  define tl where "tl prev = (if 0 < prev \<and> prev mod 100 = 0 then Try_log (dropped_record (prev + 1)) (\<lambda>_. s) else s)"
    for prev :: u64
  have "truthful P Q (tl n)" for n using assms(1) by (simp add: tl_def dropped_record_def)
  moreover have "settles (tl n) x \<Longrightarrow> settles s x" for n x by (simp add: tl_def split: if_splits)
  ultimately show ?thesis
    using assms unfolding emit_script_def tl_def [symmetric]
    by (cases "cx_log_tx cx"; cases "cx_dropped_logs cx") auto
qed

lemma truthful_stats:
  "truthful P Q s \<Longrightarrow> (\<And>x. settles s x \<Longrightarrow> Q st x) \<Longrightarrow> truthful P Q (stats_script cx st s)"
  by (simp add: stats_script_def)

lemma truthful_scan: "(\<And>a. truthful P Q (k a)) \<Longrightarrow> truthful P Q (scan_script addrs start off m k)"
  by (induction m arbitrary: off) (simp_all add: Let_def)

lemma truthful_select: "(\<And>a. truthful P Q (k a)) \<Longrightarrow> truthful P Q (select_script addrs k)"
  by (simp add: select_script_def truthful_scan)

lemma truthful_attempts:
  "(\<And>r ats. truthful P Q (rest r ats)) \<Longrightarrow>
     truthful P Q (attempts_script addrs connect l rt bs k target left made rest)"
proof (induction left arbitrary: k target made)
  case 0
  then show ?case by (subst attempts_script.simps) (simp split: option.splits sum.splits)
next
  case (Suc m)
  then show ?case by (subst attempts_script.simps) (auto split: option.splits sum.splits intro!: truthful_select)
qed

lemma record_fits_simps [simp]:
  "record_fits (accepted_record cx req a) x" "record_fits (parsed_record req rq m) x"
  "record_fits (slow_record cx req el) x"
  "record_fits (complete_record req t m m' el status) x = ended_well x"
  "record_fits (request_failed_record req el st e) x \<longleftrightarrow> \<not> ended_well x"
  "record_fits (backend_record ev req t) x = event_fits ev x"
  by (simp_all add: record_fits_def event_fits_def accepted_record_def parsed_record_def slow_record_def
      complete_record_def request_failed_record_def backend_record_def Let_def split: option.splits)

lemma stats_fit_simps [simp]: "stats_fit (stats_for req t m m' el oc status) x \<longleftrightarrow> (oc = OutcomeOk \<longleftrightarrow> ended_well x)"
  by (simp add: stats_fit_def stats_for_def)

lemma ended_well_simps [simp]: "ended_well (Some (Inr u, sk, ats))" "\<not> ended_well (Some (Inl e, sk, ats))" "\<not> ended_well None"
  by (simp_all add: ended_well_def)

lemma truthful_failed:
  "truthful record_fits stats_fit s \<Longrightarrow> (\<And>x. settles s x \<Longrightarrow> \<not> ended_well x)
     \<Longrightarrow> truthful record_fits stats_fit (failed_script cx req el st e s)"
  unfolding failed_script_def by (rule truthful_emit) simp_all

lemma truthful_deliver: "truthful record_fits stats_fit (deliver_script cx req elapsed t m response sk ats)"
  unfolding deliver_script_def Let_def
  by (auto split: sum.splits prod.splits intro!: truthful_failed truthful_stats truthful_emit)

lemma truthful_proxied: "truthful record_fits stats_fit (proxied_script cx req elapsed t m sk x ats)"
  by (auto simp: proxied_script_def truthful_deliver split: sum.splits intro!: truthful_failed truthful_stats)

lemma truthful_forward: "truthful record_fits stats_fit (forward_script addrs connect cx req elapsed t rq sk)"
  unfolding forward_script_def Let_def retries_script_def
  by (intro truthful_emit truthful_attempts truthful_proxied; simp add: event_fits_def)

lemma truthful_selected: "truthful record_fits stats_fit (selected_script addrs connect cx req elapsed sk x)"
  unfolding selected_script_def Let_def
  by (auto simp: truthful_forward event_fits_def split: sum.splits option.splits prod.splits intro!: truthful_failed truthful_emit)

lemma truthful_handle: "truthful record_fits stats_fit (handle_script addrs connect cx req elapsed sk)"
  unfolding handle_script_def
  by (auto simp: truthful_selected split: sum.splits intro!: truthful_failed truthful_emit truthful_select)

lemma try_send_new: "queue (snd (try_send x ch)) = queue ch @ rs \<Longrightarrow> set rs \<subseteq> {x}"
  using try_send_cases [of x ch] by auto

lemma truthful_step:
  assumes "truthful P Q s" "script_step s w = Some (s', w')"
    "queue (wd_log w') = queue (wd_log w) @ rs" "queue (wd_stats w') = queue (wd_stats w) @ sts"
  shows "truthful P Q s' \<and> (\<forall>r\<in>set rs. \<forall>x. lr_role r = Worker \<longrightarrow> settles s' x \<longrightarrow> P r x)
    \<and> (\<forall>st\<in>set sts. \<forall>x. settles s' x \<longrightarrow> Q st x)"
proof (cases s)
  case (Try_log r k)
  obtain res ch where ch: "try_send r (wd_log w) = (res, ch)" by force
  then have e: "s' = k (is_sent res)" "wd_log w' = ch" "wd_stats w' = wd_stats w" using assms(2) Try_log by auto
  then have "set rs \<subseteq> {r}" "sts = []" using try_send_new [of r "wd_log w" rs] ch assms(3,4) by simp_all
  with assms(1) Try_log e(1) show ?thesis by auto
next
  case (Try_stats st k)
  then have e: "s' = k" "wd_log w' = wd_log w" "wd_stats w' = snd (try_send st (wd_stats w))" using assms(2) by auto
  then have "rs = []" "set sts \<subseteq> {st}" using try_send_new [of st "wd_stats w" sts] assms(3,4) by simp_all
  with assms(1) Try_stats e(1) show ?thesis by auto
qed (use assms in \<open>auto simp: advance_cursor_def\<close>)

section \<open>Reports in every interleaving\<close>

text \<open>The connection with an identifier has ended as told, or can only end so.\<close>

definition borne_out :: "(handled \<Rightarrow> bool) \<Rightarrow> u64 \<Rightarrow> worker list \<Rightarrow> fate list \<Rightarrow> bool" where
  "borne_out P i ws hs \<longleftrightarrow>
     (\<exists>sk req r sk' ats. Served sk req r sk' ats \<in> set hs \<and> rc_req_id req = i \<and> P (Some (r, sk', ats)))
     \<or> (\<exists>sk req h. Busy sk req h \<in> set ws \<and> rc_req_id req = i \<and> (\<forall>x. settles h x \<longrightarrow> P x))"

lemma borne_out_keeps:
  assumes "borne_out P i ws hs" "\<And>sk req h. Busy sk req h \<in> set ws \<Longrightarrow> Busy sk req h \<in> set ws'" "set hs \<subseteq> set hs'"
  shows "borne_out P i ws' hs'"
  using assms unfolding borne_out_def by blast

lemma busy_kept:
  "n < length ws \<Longrightarrow> ws ! n = wk \<Longrightarrow> wk \<noteq> Busy sk req h \<Longrightarrow> Busy sk req h \<in> set ws \<Longrightarrow> Busy sk req h \<in> set (ws[n := wk'])"
  by (metis in_set_conv_nth length_list_update nth_list_update_neq)

lemma busy_elsewhere:
  assumes "n < length ws" "ws ! n = Busy sk req h" "Busy sk1 req1 h1 \<in> set ws" "Busy sk1 req1 h1 \<noteq> Busy sk req h"
  shows "Busy sk1 req1 h1 \<in> set (ws[n := wk'])"
  using assms busy_kept by metis

lemma turn_borne_out:
  "turn order c who y y' \<Longrightarrow> borne_out P i (sy_workers y) (sy_history y) \<Longrightarrow> borne_out P i (sy_workers y') (sy_history y')"
proof (induction rule: turn.induct)
  case (take_stream y s n sk ch)
  then show ?case by (auto intro: borne_out_keeps busy_kept)
next
  case (refuse y s n sk)
  then show ?case by (auto intro: borne_out_keeps busy_kept)
next
  case (start y s n sk req_id nxt req h connect elapsed)
  then show ?case by (auto intro: borne_out_keeps busy_kept)
next
  case (work y s n sk req h h' w)
  have b: "Busy sk req h' \<in> set ((sy_workers y)[n := Busy sk req h'])" by (rule set_update_memI [OF work(2)])
  have s': "settles h' x \<Longrightarrow> settles h x" for x using work(4) by (rule settles_step)
  have "\<exists>sk2 req2 h2. Busy sk2 req2 h2 \<in> set ((sy_workers y)[n := Busy sk req h']) \<and> rc_req_id req2 = i \<and> (\<forall>x. settles h2 x \<longrightarrow> P x)"
    if "Busy sk1 req1 h1 \<in> set (sy_workers y)" "rc_req_id req1 = i" "\<forall>x. settles h1 x \<longrightarrow> P x" for sk1 req1 h1
  proof (cases "Busy sk1 req1 h1 = Busy sk req h")
    case True
    with that b s' show ?thesis by blast
  next
    case False
    from busy_elsewhere [OF work(2,3) that(1) this] that show ?thesis by blast
  qed
  with work(5) show ?case unfolding borne_out_def by (elim disjE) (simp_all, blast)
next
  case (finish n y sk req r sk' ats)
  then show ?case using busy_elsewhere [OF finish(1,2)] unfolding borne_out_def by (simp) (metis settles_simps(1))
qed (auto intro: borne_out_keeps)

definition reports_true :: "system \<Rightarrow> bool" where
  "reports_true y \<longleftrightarrow>
     (\<forall>r\<in>set (log_stream y). lr_role r = Worker \<longrightarrow>
        (\<exists>i. lr_req_id r = Some i \<and> borne_out (record_fits r) i (sy_workers y) (sy_history y)))
     \<and> (\<forall>st\<in>set (stats_stream y). borne_out (stats_fit st) (st_req_id st) (sy_workers y) (sy_history y))"

definition all_truthful :: "system \<Rightarrow> bool" where
  "all_truthful y \<longleftrightarrow> (\<forall>sk req h. Busy sk req h \<in> set (sy_workers y) \<longrightarrow> truthful record_fits stats_fit h)"

lemma all_truthful_update:
  assumes "\<forall>sk req h. Busy sk req h \<in> set ws \<longrightarrow> truthful P Q h" "\<And>sk req h. wk = Busy sk req h \<Longrightarrow> truthful P Q h"
    "Busy sk req h \<in> set (ws[i := wk])"
  shows "truthful P Q h"
  using set_update_subset_insert [of ws i wk] assms by blast

lemma turn_truthful: "turn order c who y y' \<Longrightarrow> all_truthful y \<Longrightarrow> all_truthful y'"
proof (induction rule: turn.induct)
  case (start y s i sk req_id nxt req h connect elapsed)
  then show ?case by (auto simp: all_truthful_def truthful_handle elim!: all_truthful_update [rotated 2])
next
  case (work y s i sk req h h' w)
  have "Busy sk req h \<in> set (sy_workers y)" using work(2,3) by (metis nth_mem)
  with work(5) have "truthful record_fits stats_fit h" unfolding all_truthful_def by blast
  from script_step_extends [OF work(4)] obtain rs sts where "extends (wd_log (ps_world s)) rs (wd_log w)"
    "extends (wd_stats (ps_world s)) sts (wd_stats w)" by (auto simp: world_extends_def)
  from truthful_step [OF \<open>truthful record_fits stats_fit h\<close> work(4) this [THEN extends_queue]]
  have "truthful record_fits stats_fit h'" ..
  with work(5) show ?case by (auto simp: all_truthful_def elim!: all_truthful_update [rotated 2])
qed (auto simp: all_truthful_def)

lemma worked_reports:
  assumes "worked y y' rs sts" "orderly y" "all_truthful y"
  shows "\<forall>r\<in>set rs. lr_role r = Worker \<longrightarrow>
      (\<exists>i. lr_req_id r = Some i \<and> borne_out (record_fits r) i (sy_workers y') (sy_history y'))"
    and "\<forall>st\<in>set sts. borne_out (stats_fit st) (st_req_id st) (sy_workers y') (sy_history y')"
proof -
  from assms(1) obtain i sk req h h' where w: "i < length (sy_workers y)" "sy_workers y ! i = Busy sk req h"
    "sy_workers y' = (sy_workers y)[i := Busy sk req h']"
    "script_step h (ps_world (sy_state y)) = Some (h', ps_world (sy_state y'))"
    and e: "extends (wd_log (ps_world (sy_state y))) rs (wd_log (ps_world (sy_state y')))"
    "extends (wd_stats (ps_world (sy_state y))) sts (wd_stats (ps_world (sy_state y')))"
    unfolding worked_def by blast
  have b: "Busy sk req h \<in> set (sy_workers y)" using w(1,2) by (metis nth_mem)
  have b': "Busy sk req h' \<in> set (sy_workers y')" using w(1,3) by (simp add: set_update_memI)
  from assms(2) b obtain n fresh where h: "handler h (rc_req_id req) n fresh"
    unfolding orderly_def workers_ok_def in_stages_def by blast
  from handler_step [OF h w(4)] obtain rs1 sts1 n' fresh' where g:
    "extends (wd_log (ps_world (sy_state y))) rs1 (wd_log (ps_world (sy_state y')))"
    "extends (wd_stats (ps_world (sy_state y))) sts1 (wd_stats (ps_world (sy_state y')))"
    "handler_grows (rc_req_id req) n fresh rs1 sts1 n' fresh'" by blast
  have eq: "rs1 = rs" "sts1 = sts" using e g(1,2) by (auto dest!: extends_queue)
  have ids: "r \<in> set rs \<Longrightarrow> lr_role r = Worker \<Longrightarrow> lr_req_id r = Some (rc_req_id req)"
    "st \<in> set sts \<Longrightarrow> st_req_id st = rc_req_id req" for r st
    using g(3) unfolding eq handler_grows_def by (auto simp: list_all_iff)
  have "truthful record_fits stats_fit h" using assms(3) b unfolding all_truthful_def by blast
  from truthful_step [OF this w(4) extends_queue [OF e(1)] extends_queue [OF e(2)]]
  have t: "r \<in> set rs \<Longrightarrow> lr_role r = Worker \<Longrightarrow> settles h' x \<Longrightarrow> record_fits r x"
    "st \<in> set sts \<Longrightarrow> settles h' x \<Longrightarrow> stats_fit st x" for r st x by blast+
  have "borne_out P (rc_req_id req) (sy_workers y') (sy_history y')" if "\<forall>x. settles h' x \<longrightarrow> P x" for P
    using b' that unfolding borne_out_def by blast
  with ids t show "\<forall>r\<in>set rs. lr_role r = Worker \<longrightarrow>
      (\<exists>i. lr_req_id r = Some i \<and> borne_out (record_fits r) i (sy_workers y') (sy_history y'))"
    "\<forall>st\<in>set sts. borne_out (stats_fit st) (st_req_id st) (sy_workers y') (sy_history y')" by auto
qed

lemma turn_reports_true:
  assumes "turn order c who y y'" "orderly y" "all_truthful y" "reports_true y"
  shows "reports_true y'"
proof -
  from turn_grows [OF assms(1,2)] obtain rs sts where
    e: "log_stream y' = log_stream y @ rs" "stats_stream y' = stats_stream y @ sts"
    and c: "list_all (\<lambda>r. lr_role r \<noteq> Worker) rs \<and> sts = [] \<and> busy_from y y' \<or> worked y y' rs sts" by blast
  note keep = turn_borne_out [OF assms(1)]
  from c show ?thesis
  proof
    assume "list_all (\<lambda>r. lr_role r \<noteq> Worker) rs \<and> sts = [] \<and> busy_from y y'"
    with assms(4) keep e show ?thesis by (fastforce simp: reports_true_def list_all_iff)
  next
    assume "worked y y' rs sts"
    from worked_reports [OF this assms(2,3)] assms(4) keep e show ?thesis by (fastforce simp: reports_true_def)
  qed
qed

lemma reachable_reports_true:
  assumes "balancer_build mk_logger now c = Inr b" "reachable order c (initial b) y"
  shows "reports_true y"
proof -
  from assms(1) obtain lg where i:
    "list_all (\<lambda>r. lr_role r \<noteq> Worker) (queue (wd_log (ps_world (bl_state b))))"
    "wd_stats (ps_world (bl_state b)) = clone_sender (sync_channel (metrics_channel_capacity (pool c)))"
    by (rule balancer_build_parts)
  have "sound (initial b) \<and> all_truthful (initial b) \<and> reports_true (initial b)"
    using reachable_sound [OF assms(1) reachable.start] i
    by (auto simp: all_truthful_def reports_true_def initial_def log_stream_def stats_stream_def
        sync_channel_def clone_sender_def list_all_iff)
  with assms(2) have "sound y \<and> all_truthful y \<and> reports_true y"
  proof (rule reachable_invariant)
    fix who y y'
    assume "sound y \<and> all_truthful y \<and> reports_true y" "turn order c who y y'"
    with turn_sound turn_truthful turn_reports_true show "sound y' \<and> all_truthful y' \<and> reports_true y'"
      unfolding sound_def by metis
  qed
  then show ?thesis by blast
qed

text \<open>When every worker is idle, the connection has ended as its records say.\<close>

lemma borne_out_idle:
  assumes "borne_out P i ws hs" "list_all (\<lambda>wk. wk = Idle) ws"
  obtains sk req r sk' ats where "Served sk req r sk' ats \<in> set hs" "rc_req_id req = i" "P (Some (r, sk', ats))"
  using assms unfolding borne_out_def list_all_iff by blast

lemma ended_well_result: "ended_well (Some (r, sk', ats)) \<longleftrightarrow> r = Inr ()"
  by (simp add: ended_well_def)

lemma idle_reports:
  assumes "reports_true y" "idle y"
  shows "st \<in> set (stats_stream y) \<Longrightarrow> \<exists>sk req r sk' ats. Served sk req r sk' ats \<in> set (sy_history y)
      \<and> rc_req_id req = st_req_id st \<and> (st_outcome st = OutcomeOk \<longleftrightarrow> r = Inr ())"
    and "rec \<in> set (log_stream y) \<Longrightarrow> lr_role rec = Worker \<Longrightarrow> \<exists>sk req r sk' ats. Served sk req r sk' ats \<in> set (sy_history y)
      \<and> lr_req_id rec = Some (rc_req_id req) \<and> (lr_event rec = lit ''request_complete'' \<longrightarrow> r = Inr ())
      \<and> (lr_event rec = lit ''request_failed'' \<longrightarrow> r \<noteq> Inr ())"
proof -
  have id: "list_all (\<lambda>wk. wk = Idle) (sy_workers y)" using assms(2) by (simp add: idle_def)
  show "\<exists>sk req r sk' ats. Served sk req r sk' ats \<in> set (sy_history y)
      \<and> rc_req_id req = st_req_id st \<and> (st_outcome st = OutcomeOk \<longleftrightarrow> r = Inr ())" if "st \<in> set (stats_stream y)"
  proof -
    from assms(1) that have "borne_out (stats_fit st) (st_req_id st) (sy_workers y) (sy_history y)"
      by (simp add: reports_true_def)
    from borne_out_idle [OF this id] obtain sk req r sk' ats where
      "Served sk req r sk' ats \<in> set (sy_history y)" "rc_req_id req = st_req_id st" "stats_fit st (Some (r, sk', ats))" .
    then show ?thesis unfolding stats_fit_def ended_well_result by blast
  qed
  show "\<exists>sk req r sk' ats. Served sk req r sk' ats \<in> set (sy_history y)
      \<and> lr_req_id rec = Some (rc_req_id req) \<and> (lr_event rec = lit ''request_complete'' \<longrightarrow> r = Inr ())
      \<and> (lr_event rec = lit ''request_failed'' \<longrightarrow> r \<noteq> Inr ())" if "rec \<in> set (log_stream y)" "lr_role rec = Worker"
  proof -
    from assms(1) that obtain i where i: "lr_req_id rec = Some i" "borne_out (record_fits rec) i (sy_workers y) (sy_history y)"
      unfolding reports_true_def by blast
    from borne_out_idle [OF i(2) id] obtain sk req r sk' ats where
      "Served sk req r sk' ats \<in> set (sy_history y)" "rc_req_id req = i" "record_fits rec (Some (r, sk', ats))" .
    with i(1) show ?thesis unfolding record_fits_def event_fits_def ended_well_result by blast
  qed
qed

end
