(* ===== verification/System_Health.thy ===== *)
theory System_Health
  imports System_Requests
begin

text \<open>
  The health flags that the searches of the workers read, whatever the interleaving, are those
  that the specification gives for the probes made so far.
\<close>

lemma script_step_entries:
  "script_step s w = Some (s', w') \<Longrightarrow> entries (registry w') = entries (registry w)"
  by (induction s w rule: script_step.induct) (auto simp: advance_cursor_def registry_def split: prod.splits)

lemma registry_frame [simp]:
  "registry (w\<lparr>wd_log := lg\<rparr>) = registry w" "registry (w\<lparr>wd_stats := st\<rparr>) = registry w"
  "registry (w\<lparr>wd_routing := ro\<rparr>) = rr_backends ro"
  by (simp_all add: registry_def)

definition probed :: "balancer_config \<Rightarrow> system \<Rightarrow> bool" where
  "probed c y \<longleftrightarrow>
     (\<forall>a\<in>set (backends c). \<exists>e. entry_for a (registry (ps_world (sy_state y))) = Some e
        \<and> entry_matches (failure_threshold (health c)) (recovery_threshold (health c)) (rev (probes_of a (sy_probes y))) e)"

lemma probed_entries:
  assumes "probed c y" "entries (registry (ps_world (sy_state y'))) = entries (registry (ps_world (sy_state y)))"
    "sy_probes y' = sy_probes y"
  shows "probed c y'"
  using assms by (simp add: probed_def entry_for_def)

lemma turn_probed: "turn order c who y y' \<Longrightarrow> probed c y \<Longrightarrow> probed c y'"
proof (induction rule: turn.induct)
  case (work y s i sk req h h' w)
  from work(5) show ?case by (rule probed_entries) (use work(1) script_step_entries [OF work(4)] in simp_all)
next
  case (proceed y s t task w)
  from proceed(3) show ?case by (rule probed_entries) (use proceed(1) script_step_entries [OF proceed(2)] in simp_all)
next
  case (probe y s a ok bs ev)
  have bs: "bs = fst (health_probe (health c) a ok (registry (ps_world s)))" using probe(4) by simp
  show ?case unfolding probed_def
  proof
    fix b
    assume "b \<in> set (backends c)"
    with probe(1,5) obtain e where e: "entry_for b (registry (ps_world s)) = Some e"
      "entry_matches (failure_threshold (health c)) (recovery_threshold (health c)) (rev (probes_of b (sy_probes y))) e"
      unfolding probed_def by blast
    with entry_matches_probe [OF e(2), of ok] show "\<exists>e. entry_for b (registry (ps_world (sy_state (y\<lparr>sy_state := s\<lparr>ps_world :=
        (ps_world s)\<lparr>wd_routing := (wd_routing (ps_world s))\<lparr>rr_backends := bs\<rparr>\<rparr>\<rparr>,
        sy_tasks := (sy_tasks y)(Prober := event_script ev), sy_probes := sy_probes y @ [(a, ok)]\<rparr>)))) = Some e
      \<and> entry_matches (failure_threshold (health c)) (recovery_threshold (health c)) (rev (probes_of b
        (sy_probes (y\<lparr>sy_state := s\<lparr>ps_world := (ps_world s)\<lparr>wd_routing := (wd_routing (ps_world s))\<lparr>rr_backends := bs\<rparr>\<rparr>\<rparr>,
        sy_tasks := (sy_tasks y)(Prober := event_script ev), sy_probes := sy_probes y @ [(a, ok)]\<rparr>)))) e"
      by (auto simp: bs health_probe_entry probes_of_def)
  qed
qed (simp_all add: probed_def)

lemma reachable_probed:
  assumes "balancer_build mk_logger now c = Inr b" "reachable order c (initial b) y"
  shows "probed c y"
proof -
  have "registry (ps_world (bl_state b)) = new_backend_set (backends c)"
    using balancer_build_context(4) [OF assms(1)] by (simp add: registry_def rr_new_def)
  then have "probed c (initial b)"
    by (auto simp: probed_def initial_def entry_for_new entry_matches_new probes_of_def)
  with assms(2) show ?thesis by (rule reachable_invariant) (rule turn_probed)
qed

lemma reachable_healthy:
  assumes "balancer_build mk_logger now c = Inr b" "reachable order c (initial b) y" "a \<in> set (backends c)"
  shows "is_healthy a (registry (ps_world (sy_state y)))
    \<longleftrightarrow> health_spec (unat (failure_threshold (health c))) (unat (recovery_threshold (health c))) (rev (probes_of a (sy_probes y)))"
  using reachable_probed [OF assms(1,2)] assms(3) by (auto simp: probed_def is_healthy_def entry_matches_def)

text \<open>With distinct addresses each position of the registry has its own entry.\<close>

lemma entry_for_position:
  assumes "distinct (addresses bs)" "i < length (entries bs)"
  shows "entry_for (addresses bs ! i) bs = Some (entries bs ! i)"
  using assms unfolding entry_for_def addresses_def
  by (auto simp: find_Some_iff distinct_conv_nth intro!: exI [of _ i])

lemma reachable_flag:
  assumes "balancer_build mk_logger now c = Inr b" "reachable order c (initial b) y" "distinct (backends c)"
    "i < length (backends c)"
  shows "be_healthy (entries (registry (ps_world (sy_state y))) ! i)
    \<longleftrightarrow> health_spec (unat (failure_threshold (health c))) (unat (recovery_threshold (health c)))
          (rev (probes_of (backends c ! i) (sy_probes y)))"
proof -
  have a: "addresses (registry (ps_world (sy_state y))) = backends c"
    using reachable_backends [OF assms(1,2)] by (simp add: rr_backend_addresses_def registry_def)
  then have "length (entries (registry (ps_world (sy_state y)))) = length (backends c)"
    by (metis addresses_def length_map)
  with entry_for_position [of "registry (ps_world (sy_state y))" i] a assms(3,4)
    reachable_healthy [OF assms(1,2) nth_mem [OF assms(4)]] show ?thesis
    by (simp add: is_healthy_def)
qed

text \<open>An address configured twice has a second entry that no probe ever reaches.\<close>

lemma duplicate_stays_healthy:
  "entries (fst (probe_trace c (replicate n (a, False)) (new_backend_set [a, a]))) ! 1 = new_entry a"
proof -
  have "\<exists>e. be_addr e = a \<and> entries (fst (probe_trace c (replicate n (a, False)) bs)) = [e, new_entry a]"
    if "entries bs = [e, new_entry a]" "be_addr e = a" for bs e
    using that
  proof (induction n arbitrary: bs e)
    case (Suc n)
    have "entries (fst (health_probe c a False bs)) = [entry_failure (failure_threshold c) e, new_entry a]"
      using Suc.prems by (simp add: health_probe_def record_probe_failure_def Let_def)
    moreover have "be_addr (entry_failure (failure_threshold c) e) = a" using Suc.prems(2) by (simp add: entry_failure_def Let_def)
    ultimately show ?case using Suc.IH by (simp add: split_beta)
  qed simp
  from this [of "new_backend_set [a, a]"] show ?thesis by (auto simp: new_backend_set_def new_entry_def)
qed

end
