(* ===== verification/Log_Reader.thy ===== *)
theory Log_Reader
  imports Balancer
begin

text \<open>
  A reader of the log format of \<open>src/src/utils/log_record.rs\<close>, as a log tool reads it: fields
  \<open>key=value\<close> preceded by a blank, a value in quotes ends at the first quote without a
  backslash before it. It is the specification the writer is compared with: what the
  writer emits reads back as the fields of the record, and the log file splits into the
  lines of the records.
\<close>

section \<open>The reader\<close>

fun read_quoted :: "str \<Rightarrow> (str \<times> str) option" where
  "read_quoted [] = None"
| "read_quoted (c # s) =
    (if c = 34 then Some ([], s)
     else if c = 92 \<and> s \<noteq> [] \<and> hd s = 34 then map_option (apfst (Cons 34)) (read_quoted (tl s))
     else map_option (apfst (Cons c)) (read_quoted s))"

definition read_field :: "str \<Rightarrow> ((str \<times> str) \<times> str) option" where
  "read_field s =
    (let key = takeWhile (\<lambda>c. c \<noteq> 61) s; r = drop (length key + 1) s
     in if r \<noteq> [] \<and> hd r = 34
        then map_option (\<lambda>(v, rest). ((key, v), rest)) (read_quoted (tl r))
        else Some ((key, takeWhile (\<lambda>c. c \<noteq> 32) r), dropWhile (\<lambda>c. c \<noteq> 32) r))"

lemma read_quoted_length: "read_quoted s = Some (v, rest) \<Longrightarrow> length rest \<le> length s"
proof (induction s arbitrary: v rest rule: read_quoted.induct)
  case 1
  then show ?case by simp
next
  case (2 c s)
  have "length (tl s) \<le> length s" by simp
  with 2 show ?case by (fastforce split: if_splits)
qed

lemma read_field_length:
  assumes "read_field s = Some (f, rest)"
  shows "length rest \<le> length s"
proof -
  define key where "key = takeWhile (\<lambda>c. c \<noteq> 61) s"
  define r where "r = drop (length key + 1) s"
  have r: "length r \<le> length s" by (simp add: r_def)
  have e: "read_field s = (if r \<noteq> [] \<and> hd r = 34
      then map_option (\<lambda>(v, rest). ((key, v), rest)) (read_quoted (tl r))
      else Some ((key, takeWhile (\<lambda>c. c \<noteq> 32) r), dropWhile (\<lambda>c. c \<noteq> 32) r))"
    by (simp only: read_field_def Let_def key_def r_def)
  show ?thesis
  proof (cases "r \<noteq> [] \<and> hd r = 34")
    case True
    with assms obtain v where "read_quoted (tl r) = Some (v, rest)" by (auto simp: e)
    then have "length rest \<le> length (tl r)" by (rule read_quoted_length)
    with r show ?thesis by simp
  next
    case False
    then have "rest = dropWhile (\<lambda>c. c \<noteq> 32) r" using assms unfolding e by auto
    with r show ?thesis using length_dropWhile_le [of _ r] by (meson le_trans)
  qed
qed

function read_fields :: "str \<Rightarrow> (str \<times> str) list option" where
  "read_fields [] = Some []"
| "read_fields (c # s) =
    (if c \<noteq> 32 then None
     else case read_field s of
            None \<Rightarrow> None
          | Some (f, rest) \<Rightarrow> map_option (Cons f) (read_fields rest))"
  by pat_completeness auto

termination
  by (relation "measure length") (auto dest: read_field_length)

section \<open>Reading what is written\<close>

text \<open>A value the format keeps: one that is quoted must not end in a backslash, because the
  writer escapes quotes but not backslashes.\<close>

definition value_kept :: "str \<Rightarrow> bool" where
  "value_kept v \<longleftrightarrow> \<not> (needs_quotes v \<and> last v = 92)"

lemma read_quoted_escape:
  "v = [] \<or> last v \<noteq> 92 \<Longrightarrow> read_quoted (escape_quotes v @ 34 # rest) = Some (v, rest)"
proof (induction v)
  case Nil
  then show ?case by simp
next
  case (Cons c v)
  have IH: "read_quoted (escape_quotes v @ 34 # rest) = Some (v, rest)"
    using Cons by (cases v) auto
  show ?case
  proof (cases "c = 92")
    case True
    with Cons.prems have "escape_quotes v \<noteq> []" by (cases v) auto
    then obtain d r where r: "escape_quotes v = d # r" by (cases "escape_quotes v") auto
    then have "d \<noteq> 34" by (rule escape_no_leading_quote)
    with True IH r show ?thesis by simp
  qed (use IH in simp)
qed

lemma not_needs_quotes: "\<not> needs_quotes v \<Longrightarrow> 32 \<notin> set v \<and> 34 \<notin> set v \<and> 61 \<notin> set v"
  by (auto simp: needs_quotes_def list_ex_iff is_ws_def)

lemma takeWhile_until: "x \<notin> set xs \<Longrightarrow> rest = [] \<or> hd rest = x \<Longrightarrow> takeWhile (\<lambda>c. c \<noteq> x) (xs @ rest) = xs"
  "x \<notin> set xs \<Longrightarrow> rest = [] \<or> hd rest = x \<Longrightarrow> dropWhile (\<lambda>c. c \<noteq> x) (xs @ rest) = rest"
  by (induction xs) (cases rest; auto)+

lemma read_field_write:
  assumes "61 \<notin> set k" "value_kept v" "rest = [] \<or> hd rest = 32"
  shows "read_field (write_field k v @ rest) = Some ((k, v), rest)"
proof -
  have key: "takeWhile (\<lambda>c. c \<noteq> 61) (k @ 61 # z) = k" for z
    using takeWhile_until(1) [OF assms(1), of "61 # z"] by simp
  show ?thesis
  proof (cases "needs_quotes v")
    case True
    then have "last v \<noteq> 92" using assms(2) by (simp add: value_kept_def)
    with True key show ?thesis
      by (simp add: read_field_def write_field_def read_quoted_escape)
  next
    case False
    with not_needs_quotes have v: "32 \<notin> set v" "34 \<notin> set v" by blast+
    then have "\<not> (v @ rest \<noteq> [] \<and> hd (v @ rest) = 34)" using assms(3) by (cases v) auto
    then have "read_field (k @ 61 # v @ rest) = Some ((k, v), rest)"
      using key takeWhile_until [OF v(1) assms(3)] by (simp add: read_field_def Let_def if_not_P del: de_Morgan_conj)
    with False show ?thesis by (simp add: write_field_def)
  qed
qed

definition write_fields :: "(str \<times> str) list \<Rightarrow> str" where
  "write_fields fs = concat (map (\<lambda>(k, v). 32 # write_field k v) fs)"

lemma read_fields_write:
  "\<forall>(k, v)\<in>set fs. 61 \<notin> set k \<and> value_kept v \<Longrightarrow> read_fields (write_fields fs) = Some fs"
proof (induction fs)
  case Nil
  then show ?case by (simp add: write_fields_def)
next
  case (Cons f fs)
  obtain k v where f: "f = (k, v)" by (cases f)
  have "write_fields fs = [] \<or> hd (write_fields fs) = 32" by (cases fs) (auto simp: write_fields_def)
  then have "read_field (write_field k v @ write_fields fs) = Some ((k, v), write_fields fs)"
    using Cons.prems f by (intro read_field_write) auto
  moreover have "write_fields (f # fs) = 32 # write_field k v @ write_fields fs"
    by (simp add: write_fields_def f)
  ultimately show ?case using Cons by (simp add: f)
qed

text \<open>The fields of a line, in the order in which \<open>format_line\<close> writes them.\<close>

definition line_fields :: "nat option \<Rightarrow> log_record \<Rightarrow> (str \<times> str) list" where
  "line_fields now r =
    [(lit ''ts_ms'', show_nat (case now of Some t \<Rightarrow> t | None \<Rightarrow> 0)),
     (lit ''level'', level_str (lr_level r)), (lit ''event'', lr_event r),
     (lit ''role'', role_str (lr_role r))]
    @ (case lr_req_id r of Some i \<Rightarrow> [(lit ''req_id'', show_nat (unat i))] | None \<Rightarrow> [])
    @ (case lr_worker_id r of Some w \<Rightarrow> [(lit ''worker_id'', show_nat w)] | None \<Rightarrow> [])
    @ lr_fields r"

lemma plain_values: "\<not> needs_quotes (show_nat n)" "\<not> needs_quotes (level_str l)" "\<not> needs_quotes (role_str ro)"
proof -
  show "\<not> needs_quotes (show_nat n)"
    using show_nat_chars [of _ n] by (fastforce simp: needs_quotes_def list_ex_iff is_ws_def)
  show "\<not> needs_quotes (level_str l)" by (cases l) (simp_all add: needs_quotes_def is_ws_def)
  show "\<not> needs_quotes (role_str ro)" by (cases ro) (simp_all add: needs_quotes_def is_ws_def)
qed

lemma format_line_fields:
  assumes "\<not> needs_quotes (lr_event r)"
  shows "32 # format_line now r = write_fields (line_fields now r)"
proof -
  have plain: "write_field k v = k @ 61 # v" if "\<not> needs_quotes v" for k v
    using that by (simp add: write_field_def)
  have "concat (map (\<lambda>(key, value). lit '' '' @ write_field key value) fs) = write_fields fs" for fs
    by (simp add: write_fields_def)
  then show ?thesis
    by (simp add: format_line_def line_fields_def write_fields_def plain plain_values assms
        utc_timestamp_ms_def split: option.splits)
qed

lemma read_fields_line:
  assumes "\<not> needs_quotes (lr_event r)" "\<forall>(k, v)\<in>set (lr_fields r). 61 \<notin> set k \<and> value_kept v"
  shows "read_fields (32 # format_line now r) = Some (line_fields now r)"
  unfolding format_line_fields [OF assms(1)]
proof (rule read_fields_write)
  show "\<forall>(k, v)\<in>set (line_fields now r). 61 \<notin> set k \<and> value_kept v"
    using assms plain_values by (auto simp: line_fields_def value_kept_def split: option.splits)
qed

text \<open>A quoted value ending in a backslash is not read back.\<close>

lemma trailing_backslash_lost:
  "read_fields (32 # write_field (lit ''error'') (lit ''C: x'' @ [92])) = None"
  by (simp add: write_field_def needs_quotes_def is_ws_def read_field_def)

section \<open>The log file\<close>

lemma split_char_line: "d \<notin> set x \<Longrightarrow> split_char d (x @ d # y) = x # split_char d y"
  by (induction x) auto

lemma logger_text_lines:
  assumes "\<forall>(now, r)\<in>set (lg_lines lg). lf \<notin> set (format_line now r)"
  shows "split_char lf (logger_text lg) = map (\<lambda>(now, r). format_line now r) (lg_lines lg) @ [[]]"
proof -
  have "split_char lf (concat (map (\<lambda>(now, r). format_line now r @ [lf]) xs))
      = map (\<lambda>(now, r). format_line now r) xs @ [[]]"
    if "\<forall>(now, r)\<in>set xs. lf \<notin> set (format_line now r)" for xs
    using that
  proof (induction xs)
    case Nil
    then show ?case by simp
  next
    case (Cons x xs)
    obtain now r where x: "x = (now, r)" by (cases x)
    with Cons show ?case by (simp add: split_char_line del: split_char.simps)
  qed
  with assms show ?thesis by (simp add: logger_text_def)
qed

end
