(* ===== verification/Well_Typed.thy ===== *)
theory Well_Typed
  imports Forwarding Proxy
begin

text \<open>
  The types of the texts: a \<open>String\<close> of an accepted request holds Unicode scalar values, its
  method and path are words, its header fields are trimmed; the record and the log line made
  of it are texts again.
\<close>

definition scalar_text :: "str \<Rightarrow> bool" where
  "scalar_text s \<longleftrightarrow> list_all scalar s"

lemma scalar_text_subset: "scalar_text s \<Longrightarrow> set t \<subseteq> set s \<Longrightarrow> scalar_text t"
  by (auto simp: scalar_text_def list_all_iff)

lemma scalar_text_append [simp]: "scalar_text (s @ t) \<longleftrightarrow> scalar_text s \<and> scalar_text t"
  by (simp add: scalar_text_def)

lemma scalar_text_simps [simp]: "scalar_text []" "scalar_text (c # s) \<longleftrightarrow> scalar c \<and> scalar_text s"
  by (simp_all add: scalar_text_def)

lemma scalar_ascii: "c < 128 \<Longrightarrow> scalar c"
  by (simp add: scalar_def)

lemma scalar_text_lit: "\<forall>c\<in>set s. c < 128 \<Longrightarrow> scalar_text s"
  by (auto simp: scalar_text_def list_all_iff scalar_ascii)

lemma scalar_text_show_nat [simp]: "scalar_text (show_nat n)"
proof (rule scalar_text_lit, rule ballI)
  fix c assume "c \<in> set (show_nat n)"
  from show_nat_chars [OF this] show "c < 128" by simp
qed

section \<open>Requests\<close>

definition one_word :: "str \<Rightarrow> bool" where
  "one_word s \<longleftrightarrow> s \<noteq> [] \<and> list_all (\<lambda>c. \<not> is_ws c) s"

definition request_typed :: "request \<Rightarrow> bool" where
  "request_typed rq \<longleftrightarrow>
     scalar_text (method_str (rq_method rq)) \<and> one_word (method_str (rq_method rq))
     \<and> parse_method (method_str (rq_method rq)) = rq_method rq
     \<and> scalar_text (rq_path rq) \<and> one_word (rq_path rq)
     \<and> list_all (\<lambda>(name, v). scalar_text name \<and> scalar_text v \<and> trimmed name \<and> trimmed v) (rq_headers rq)"

lemma split_whitespace_word:
  "w \<in> set (split_whitespace s) \<Longrightarrow> one_word w \<and> set w \<subseteq> set s"
proof (induction s rule: split_whitespace.induct)
  case (1 s)
  define t where "t = dropWhile is_ws s"
  show ?case
  proof (cases "t = []")
    case True
    with 1(2) show ?thesis by (subst (asm) split_whitespace.simps) (simp add: t_def)
  next
    case False
    have ts: "set t \<subseteq> set s" unfolding t_def by (metis set_dropWhileD subsetI)
    have "w = takeWhile (\<lambda>c. \<not> is_ws c) t \<or> w \<in> set (split_whitespace (dropWhile (\<lambda>c. \<not> is_ws c) t))"
      using 1(2) False by (subst (asm) split_whitespace.simps) (simp add: t_def [symmetric])
    then show ?thesis
    proof
      assume w: "w = takeWhile (\<lambda>c. \<not> is_ws c) t"
      have "\<not> is_ws (hd t)" using False hd_dropWhile unfolding t_def by blast
      with False w have "w \<noteq> []" by (cases t) simp_all
      with w ts show ?thesis by (auto simp: one_word_def list_all_iff dest: set_takeWhileD)
    next
      assume "w \<in> set (split_whitespace (dropWhile (\<lambda>c. \<not> is_ws c) t))"
      from 1(1) [OF t_def False this] ts show ?thesis by (meson set_dropWhileD subsetD subsetI)
    qed
  qed
qed

lemma method_str_inverse: "parse_method (method_str (parse_method s)) = parse_method s"
  by (simp add: parse_method_def)

lemma header_lines_trimmed: "header_lines ls = Inr hs \<Longrightarrow> h \<in> set hs \<Longrightarrow> trimmed (fst h) \<and> trimmed (snd h)"
  by (induction ls arbitrary: hs) (auto simp: result_simps trimmed_trim split: option.splits if_splits)

lemma parse_head_typed:
  assumes "parse_head raw = Inr (m, path, hs)"
  shows "request_typed \<lparr>rq_method = m, rq_path = path, rq_headers = hs, rq_body = body, rq_raw_head = raw'\<rparr>"
proof -
  from assms obtain s line rest ps where p0: "from_utf8 raw = Some s" "split_crlf s = line # rest"
    "split_whitespace line = ps" "parse_header_fields raw = Inr hs"
    and ps: "case ps of mw # path' # ws \<Rightarrow> m = parse_method mw \<and> path = path' | _ \<Rightarrow> False"
    unfolding parse_head_def
    by (cases "from_utf8 raw"; cases "split_crlf (the (from_utf8 raw))"; cases "parse_header_fields raw")
       (auto split: list.splits)
  then obtain mw ws where p: "from_utf8 raw = Some s" "split_crlf s = line # rest"
    "split_whitespace line = mw # path # ws" "parse_header_fields raw = Inr hs" "m = parse_method mw"
    by (auto split: list.splits)
  have s: "scalar_text s" using from_utf8_scalar [OF p(1)] by (simp add: scalar_text_def)
  have "set line \<subseteq> set s" using split_crlf_chars [of line s] p(2) by simp
  then have w: "one_word mw" "one_word path" "scalar_text mw" "scalar_text path"
    using split_whitespace_word [of mw line] split_whitespace_word [of path line] p(3) s
    by (auto intro: scalar_text_subset)
  have "header_lines rest = Inr hs" using p(1,2,4) by (simp add: parse_header_fields_def)
  then have "scalar_text (fst h) \<and> scalar_text (snd h) \<and> trimmed (fst h) \<and> trimmed (snd h)" if "h \<in> set hs" for h
    using that header_lines_trimmed parse_header_fields_chars [OF p(4,1) that] s
    by (auto intro: scalar_text_subset)
  then have "list_all (\<lambda>(name, v). scalar_text name \<and> scalar_text v \<and> trimmed name \<and> trimmed v) hs"
    by (auto simp: list_all_iff)
  with w show ?thesis
    by (simp add: request_typed_def p(5) method_str_inverse method_str_parse)
qed

section \<open>Log records\<close>

definition record_typed :: "log_record \<Rightarrow> bool" where
  "record_typed r \<longleftrightarrow>
     scalar_text (lr_event r) \<and> list_all (\<lambda>(key, v). scalar_text key \<and> scalar_text v) (lr_fields r)"

lemma record_typed_field [simp]:
  "record_typed (field k v r) \<longleftrightarrow> scalar_text k \<and> scalar_text v \<and> record_typed r"
  by (auto simp: record_typed_def field_def)

lemma record_typed_new [simp]: "record_typed (new_record lv ev role) \<longleftrightarrow> scalar_text ev"
  by (simp add: record_typed_def new_record_def)

lemma record_typed_with [simp]: "record_typed (with_request req r) = record_typed r"
  by (simp add: record_typed_def with_request_def)

lemma header_value_typed:
  assumes "request_typed rq" "header_value (rq_headers rq) name = Some v"
  shows "scalar_text v"
proof -
  from assms(2) obtain h where "find (\<lambda>h. eq_ignore_ascii_case (fst h) name) (rq_headers rq) = Some h" "v = snd h"
    by (auto simp: header_value_def)
  then have "h \<in> set (rq_headers rq)" "v = snd h" by (auto simp: find_Some_iff in_set_conv_nth)
  with assms(1) show ?thesis by (cases h) (auto simp: request_typed_def list_all_iff)
qed

lemma parsed_record_typed: "request_typed rq \<Longrightarrow> record_typed (parsed_record req rq n)"
proof -
  assume t: "request_typed rq"
  have "scalar_text (path_for_log (rq_path rq))"
    using t set_takeWhileD unfolding path_for_log_def split_first_def request_typed_def
    by (metis scalar_text_subset subsetI)
  with t header_value_typed [OF t] show ?thesis
    by (auto simp: parsed_record_def Let_def request_typed_def scalar_def split: option.splits)
qed

lemma escape_quotes_typed: "scalar_text v \<Longrightarrow> scalar_text (escape_quotes v)"
  by (induction v) (auto simp: scalar_def)

lemma format_line_typed:
  assumes "record_typed r"
  shows "scalar_text (format_line now r)"
proof -
  have f: "scalar_text (write_field k v)" if "scalar_text k" "scalar_text v" for k v
    using that escape_quotes_typed by (simp add: write_field_def scalar_def)
  have "scalar_text (concat (map (\<lambda>(key, value). lit '' '' @ write_field key value) fs))"
    if "list_all (\<lambda>(key, v). scalar_text key \<and> scalar_text v) fs" for fs
    using that by (induction fs) (auto simp: f scalar_def)
  moreover have "scalar_text (level_str l)" "scalar_text (role_str ro)" for l ro
    by (cases l; simp add: scalar_def) (cases ro; simp add: scalar_def)
  ultimately show ?thesis
    using assms by (simp add: format_line_def record_typed_def Let_def scalar_def split: option.splits)
qed

lemma format_line_utf8: "record_typed r \<Longrightarrow> from_utf8 (to_utf8 (format_line now r)) = Some (format_line now r)"
  using format_line_typed [of r now] by (simp add: scalar_text_def from_utf8_to_utf8)

end
