(* ===== verification/Examples.thy ===== *)
theory Examples
  imports Closing_Schedule System_Outcomes System_Health Log_Reader Well_Typed
begin

text \<open>
  Concrete messages, connections, pools and configurations, and what the model computes on
  them. The equations are collected in two bundles that evaluate the text functions and the
  HTTP functions by rewriting.
\<close>

lemmas text_eval = is_ws_def trim_def split_whitespace.simps first_line_def split_once_def split_first_def
  ascii_lower_def eq_ignore_ascii_case_def to_digit_def parse_uint_def parse_usize_def parse_usize_hex_def
  parse_u16_def usize_bound_def digit_char_def show_radix.simps show_nat_def utf8_char_def to_utf8_def

lemmas http_eval = read_header_block.simps header_chunk_size_def header_end_def parse_header_fields_def
  parse_head_def header_field_def content_length_def request_from_stream_def read_exact.simps
  parse_method_def request_to_bytes_def
  chunk_header_end_def parse_status_code_def no_body_status_def body_mode_def dropped_header_def
  encode_forwarded_response_def new_prefix_reader_def prefix_read_def read_fixed_body_def read_fixed_loop.simps
  read_until_eof_def read_until_eof_loop.simps ends_with_def read_line_loop.simps read_line_def
  read_exact_delimiter_def chunk_size_def read_chunked_loop.simps read_chunked_body_def read_body_def
  release_def read_http_response_def usize_saturating_add_def

section \<open>Messages\<close>

definition ex_request :: bytes where
  "ex_request = blit ''POST /a?q=1 HTTP/1.1'' @ [13, 10] @ blit ''Content-Length: 2'' @ [13, 10, 13, 10] @ blit ''hi''"

definition ex_response :: bytes where
  "ex_response = blit ''HTTP/1.1 200 OK'' @ [13, 10] @ blit ''Content-Length: 2'' @ [13, 10, 13, 10] @ blit ''ok''"

definition ex_chunked :: bytes where
  "ex_chunked = blit ''HTTP/1.1 200 OK'' @ [13, 10] @ blit ''Transfer-Encoding: chunked'' @ [13, 10, 13, 10]
    @ blit ''2'' @ [13, 10] @ blit ''ok'' @ [13, 10] @ blit ''0'' @ [13, 10, 13, 10]"

lemma ex_response_read:
  "\<exists>t. read_http_response tcp_read default_limits [Recv ex_response] = Some (Inr ex_response, t)"
  by (simp add: ex_response_def default_limits_def text_eval http_eval)

lemma ex_chunked_read:
  "\<exists>t. read_http_response tcp_read default_limits [Recv ex_chunked] = Some (Inr ex_response, t)"
  by (simp add: ex_response_def ex_chunked_def default_limits_def text_eval http_eval)

lemma ex_request_read:
  "\<exists>rq. request_from_stream tcp_read default_limits [Recv ex_request] = Some (Inr rq, [])"
  by (simp add: ex_request_def default_limits_def text_eval http_eval)

definition ex_head :: bytes where
  "ex_head = blit ''HTTP/1.1 200 OK'' @ [13, 10] @ blit ''Content-Length: 2'' @ [13, 10, 13, 10]"

lemma ex_forwards: "forwards ex_head (blit ''ok'') (blit ''ok'') ex_response"
proof -
  have "head_block ex_head" by (simp add: head_block_def ex_head_def header_end_def)
  moreover have "parse_header_fields ex_head = Inr [(lit ''Content-Length'', lit ''2'')]"
    "parse_status_code ex_head = Inr 200"
    "body_mode [(lit ''Content-Length'', lit ''2'')] 200 = Inr (Fixed 2)"
    "encode_forwarded_response ex_head 200 [(lit ''Content-Length'', lit ''2'')] (blit ''ok'') = Inr ex_response"
    by (simp_all add: ex_head_def ex_response_def text_eval http_eval)
  moreover have "framed (Fixed 2) (blit ''ok'') (blit ''ok'')" by simp
  ultimately show ?thesis unfolding forwards_def by blast
qed

lemma ex_head_status: "parse_status_code ex_head = Inr 200" "\<not> no_body_status 200"
  by (simp_all add: ex_head_def text_eval http_eval)

lemma ex_clean: "bs \<noteq> [] \<Longrightarrow> tcp_clean [Recv bs]" "tcp_wire [Recv bs] = bs"
  by (simp_all add: tcp_clean_def)

lemma service_unavailable_plain: "plain_status_line service_unavailable_line 503"
  by (simp add: plain_status_line_def service_unavailable_line_def scalar_def text_eval no_body_status_def)

section \<open>Connections\<close>

definition ex_addr :: socket_addr where
  "ex_addr = SockV4 localhost_v4 9001"

definition ex_socket :: "bytes \<Rightarrow> socket" where
  "ex_socket bs = \<lparr>inbound = [Recv bs], peer = None, timeout_fault = None, write_fault = None,
     flush_fault = None, shutdown_fault = None, outbound = [], write_closed = False\<rparr>"

definition ex_config :: balancer_config where
  "ex_config = default_config\<lparr>listen := SockV4 localhost_v4 8080, backends := [ex_addr]\<rparr>"

definition ex_context :: proxy_context where
  "ex_context = \<lparr>cx_socket_addr = SockV4 localhost_v4 8080, cx_log_dir = [], cx_limits = default_limits,
     cx_timeouts = default_timeouts, cx_max_backend_retries = 1,
     cx_log_tx = False, cx_metrics_tx = False, cx_metrics = False, cx_dropped_logs = False\<rparr>"

definition ex_world :: "round_robin world" where
  "ex_world = \<lparr>wd_routing = rr_new (new_backend_set [ex_addr]), wd_log = sync_channel 1,
     wd_stats = sync_channel 1, wd_metrics = default_metrics 0, wd_dropped = 0\<rparr>"

definition ex_req :: request_context where
  "ex_req = \<lparr>rc_req_id = 1, rc_worker_id = 0\<rparr>"

text \<open>The first connection is refused, the second answered.\<close>

definition ex_connect :: "nat \<Rightarrow> socket_addr \<Rightarrow> io_error + socket" where
  "ex_connect k a = (if k = 0 then Inl (IoError ConnectionRefused []) else Inr (ex_socket ex_response))"

lemmas proxy_eval = handle_connection_def forward_request_def deliver_response_def proxy_with_retries_def
  proxy_attempts.simps proxy_to_backend_def set_read_timeout_def write_all_def flush_def shutdown_write_def
  emit_log_def record_metrics_def log_request_failed_def
  rr_select_backend_def rr_new_def select_next_def new_backend_set_def new_entry_def

lemma ex_handled:
  "\<exists>sk' w' ats. handle_connection rr_select_backend ex_connect ex_context ex_req (\<lambda>_. 0) (ex_socket ex_request) ex_world
     = Some (Inr (), sk', w', ats) \<and> length ats = 2"
  by (simp add: ex_context_def ex_world_def ex_connect_def ex_socket_def ex_request_def ex_response_def
      default_limits_def default_timeouts_def from_secs_def from_millis_def u32_saturating_add1_def
      proxy_eval text_eval http_eval)

lemma ex_socket_simps: "inbound (ex_socket bs) = [Recv bs]" "outbound (ex_socket bs) = []"
  by (simp_all add: ex_socket_def)

lemma ex_context_simps: "cx_limits ex_context = default_limits"
  by (simp add: ex_context_def)

lemma ex_world_simps: "rr_backend_addresses (wd_routing ex_world) = [ex_addr]" "queue (wd_stats ex_world) = []"
  by (simp_all add: ex_world_def rr_backend_addresses_def rr_new_def sync_channel_def)

text \<open>A registry near the end of the range of its cursor.\<close>

definition ex_wrapping :: backend_set where
  "ex_wrapping = \<lparr>entries = [(new_entry ex_addr)\<lparr>be_healthy := False\<rparr>,
      (new_entry ex_addr)\<lparr>be_healthy := False\<rparr>, new_entry (SockV4 localhost_v4 9002)], next_index = - 1\<rparr>"

section \<open>A balancer\<close>

definition ex_logger :: "logger mzani_result" where
  "ex_logger = logger_new_in_dir None None (lit ''logs'') None None"

lemma ex_config_valid: "validate_config ex_config = Inr ()"
  unfolding ex_config_def by (rule default_config_valid_with_backends) simp

lemma ex_build: "\<exists>b. balancer_build ex_logger 0 ex_config = Inr b"
proof -
  have "pool ex_config = default_pool" by (simp add: ex_config_def default_config_def)
  then have "validate_pool (pool ex_config) = Inr ()"
    by (simp add: default_pool_def validate_pool_ok)
  then show ?thesis
    by (auto simp: balancer_build_def context_from_config_def ex_config_valid pool_new_def observability_start_def
        ex_logger_def logger_new_in_dir_def Let_def)
qed

text \<open>A report that lists no backend.\<close>

definition ex_order :: "metrics \<Rightarrow> socket_addr list" where
  "ex_order m = []"

text \<open>The context and the routing of that balancer lead to the same result.\<close>

lemma ex_handled_by:
  assumes "cx_limits cx = default_limits" "cx_timeouts cx = default_timeouts" "cx_max_backend_retries cx = 1"
    "wd_routing w = rr_new (new_backend_set [ex_addr])"
  shows "\<exists>sk' w' ats. handle_connection rr_select_backend ex_connect cx req (\<lambda>_. 0) (ex_socket ex_request) w
     = Some (Inr (), sk', w', ats)"
  using assms
  by (simp add: ex_connect_def ex_socket_def ex_request_def ex_response_def
      default_limits_def default_timeouts_def from_secs_def from_millis_def u32_saturating_add1_def
      handle_connection_def forward_request_def deliver_response_def proxy_with_retries_def
      proxy_attempts.simps proxy_to_backend_def set_read_timeout_def write_all_def flush_def shutdown_write_def
      rr_select_backend_def rr_new_def select_next_def new_backend_set_def new_entry_def Let_def text_eval http_eval)

text \<open>A run in which a connection is accepted and queued, and a worker serves it.\<close>

lemma ex_accepted:
  assumes "balancer_build ex_logger 0 ex_config = Inr b"
  shows "\<exists>ch p. accept_script ex_config (ps_context (bl_state b)) (ex_socket ex_request) (ps_pool (bl_state b))
      = (Queued, p, Return ())
    \<and> 0 < length (pl_queues p) \<and> recv (pl_queues p ! 0) = (Received (ex_socket ex_request), ch)
    \<and> \<not> pl_shutting_down p"
proof -
  have d: "pool ex_config = default_pool" by (simp add: ex_config_def default_config_def)
  from assms obtain lg where q:
    "pl_queues (ps_pool (bl_state b)) = replicate (workers (pool ex_config)) (sync_channel (per_worker_queue (pool ex_config)))"
    "pl_connection_txs (ps_pool (bl_state b)) = [0..<workers (pool ex_config)]"
    by (rule balancer_build_parts)
  have k: "0 < workers default_pool" "0 < per_worker_queue default_pool" by (simp_all add: default_pool_def)
  have t: "set_read_timeout (accept_read (timeouts ex_config)) (ex_socket ex_request) = Inr ()"
    by (simp add: set_read_timeout_def ex_socket_def ex_config_def default_config_def default_timeouts_def from_secs_def)
  show ?thesis
    using balancer_build_context(5,6) [OF assms] k t
    by (simp add: accept_script_def submit_def dispatch_worker_index_def q d try_send_def sync_channel_def recv_def Let_def)
qed

lemma ex_served:
  assumes b: "balancer_build ex_logger 0 ex_config = Inr b"
  shows "\<exists>y req sk' ats. reachable order ex_config (initial b) y \<and> sy_arrived y = [ex_socket ex_request]
    \<and> sy_history y = [Served (ex_socket ex_request) req (Inr ()) sk' ats] \<and> idle y"
proof -
  define s where "s = bl_state b"
  from ex_accepted [OF b] obtain ch p where a:
    "accept_script ex_config (ps_context s) (ex_socket ex_request) (ps_pool s) = (Queued, p, Return ())"
    "0 < length (pl_queues p)" "recv (pl_queues p ! 0) = (Received (ex_socket ex_request), ch)" "\<not> pl_shutting_down p"
    unfolding s_def by blast
  define y1 where "y1 = (initial b)\<lparr>sy_state := s\<lparr>ps_pool := p\<rparr>, sy_arrived := [ex_socket ex_request]\<rparr>"
  have "turn order ex_config At_listener (initial b) (initial b\<lparr>sy_state := s\<lparr>ps_pool := p\<rparr>,
      sy_tasks := (sy_tasks (initial b))(Acceptor := Return ()), sy_arrived := sy_arrived (initial b) @ [ex_socket ex_request],
      sy_history := sy_history (initial b) @ accept_fate (ex_socket ex_request) Queued\<rparr>)"
    by (rule turn.accept [OF _ _ a(1)]) (simp_all add: initial_def s_def)
  then have t1: "turn order ex_config At_listener (initial b) y1"
    by (simp add: y1_def initial_def accept_fate_def fun_upd_idem)
  have c1: "conserved y1" using turn_conserved [OF t1] initial_sound [OF b] by (simp add: sound_def)
  then have w1: "0 < length (sy_workers y1)" "sy_workers y1 ! 0 = Idle"
    using a(2) by (auto simp: conserved_def y1_def initial_def)
  define p2 where "p2 = p\<lparr>pl_queues := (pl_queues p)[0 := ch]\<rparr>"
  define y2 where "y2 = y1\<lparr>sy_state := s\<lparr>ps_pool := p2\<rparr>, sy_workers := (sy_workers y1)[0 := Taken (ex_socket ex_request)]\<rparr>"
  have s1: "sy_state y1 = s\<lparr>ps_pool := p\<rparr>" by (simp add: y1_def)
  have "turn order ex_config (At_worker 0) y1 (y1\<lparr>sy_state := (s\<lparr>ps_pool := p\<rparr>)\<lparr>ps_pool := (ps_pool (s\<lparr>ps_pool := p\<rparr>))
        \<lparr>pl_queues := (pl_queues (ps_pool (s\<lparr>ps_pool := p\<rparr>)))[0 := ch]\<rparr>\<rparr>,
      sy_workers := (sy_workers y1)[0 := Taken (ex_socket ex_request)]\<rparr>)"
    by (rule turn.take_stream [OF s1 w1]) (simp add: a(3))
  then have t2: "turn order ex_config (At_worker 0) y1 y2" by (simp add: y2_def p2_def)
  have e: "max_backend_retries ex_config = 1" "limits ex_config = default_limits" "timeouts ex_config = default_timeouts"
    "backends ex_config = [ex_addr]" by (simp_all add: ex_config_def default_config_def)
  obtain sk' w' ats where h: "handle_connection rr_select_backend ex_connect (ps_context s)
      \<lparr>rc_req_id = pl_next_req_id p2, rc_worker_id = 0\<rparr> (\<lambda>_. 0) (ex_socket ex_request) (ps_world s) = Some (Inr (), sk', w', ats)"
    using ex_handled_by balancer_build_context [OF b] unfolding s_def e by blast
  have y2: "0 < length (sy_workers y2)" "sy_workers y2 ! 0 = Taken (ex_socket ex_request)"
    "ps_context (sy_state y2) = ps_context s" "ps_pool (sy_state y2) = p2" "ps_world (sy_state y2) = ps_world s"
    using w1 by (simp_all add: y2_def)
  have "serve_connection rr_select_backend ex_connect (ps_context s) (\<lambda>_. 0) 0 (ex_socket ex_request) p2 (ps_world s)
      = Some (Some (Inr (), \<lparr>rc_req_id = pl_next_req_id p2, rc_worker_id = 0\<rparr>), sk', p2\<lparr>pl_next_req_id := pl_next_req_id p2 + 1\<rparr>, w')"
    using h a(4) by (simp add: serve_connection_def next_request_id_def p2_def)
  from serve_uninterrupted [OF y2(1,2), unfolded y2(3-5), OF this] obtain ats' where
    "reachable order ex_config y2 (y2\<lparr>sy_state := (sy_state y2)\<lparr>ps_pool := p2\<lparr>pl_next_req_id := pl_next_req_id p2 + 1\<rparr>, ps_world := w'\<rparr>,
      sy_workers := (sy_workers y2)[0 := Idle],
      sy_history := sy_history y2 @ [Served (ex_socket ex_request) \<lparr>rc_req_id = pl_next_req_id p2, rc_worker_id = 0\<rparr> (Inr ()) sk' ats']\<rparr>)"
    (is "reachable _ _ _ ?y3") by (auto simp: served_fate_def)
  moreover have "reachable order ex_config (initial b) y2" using t1 t2 reachable_trans reachable_turn by metis
  ultimately have "reachable order ex_config (initial b) ?y3" using reachable_trans by blast
  moreover have "idle ?y3"
    using w1 by (auto simp: idle_def y2_def y1_def initial_def list_all_length nth_list_update)
  ultimately show ?thesis by (intro exI conjI) (assumption, simp_all add: y2_def y1_def initial_def)
qed

text \<open>The state at the end of that run.\<close>

lemma ex_state:
  obtains b y req sk' ats where "balancer_build ex_logger 0 ex_config = Inr b"
    "reachable ex_order ex_config (initial b) y" "sy_arrived y = [ex_socket ex_request]"
    "sy_history y = [Served (ex_socket ex_request) req (Inr ()) sk' ats]" "idle y"
    "length (started_ids y) < 2 ^ 64 - 1"
proof -
  obtain b where b: "balancer_build ex_logger 0 ex_config = Inr b" using ex_build ..
  from ex_served [OF b, of ex_order] obtain y req sk' ats where
    y: "reachable ex_order ex_config (initial b) y" "sy_arrived y = [ex_socket ex_request]"
      "sy_history y = [Served (ex_socket ex_request) req (Inr ()) sk' ats]" "idle y" by blast
  from idle_counts [OF y(4)] y(3) have "length (started_ids y) = 1"
    by (simp add: started_ids_def served_ids_def)
  with that [OF b y] show thesis by simp
qed

text \<open>The same with the flag of the shutdown set.\<close>

lemma ex_shutting:
  obtains b y req sk' ats where "balancer_build ex_logger 0 ex_config = Inr b"
    "reachable ex_order ex_config (initial b) y" "sy_arrived y = [ex_socket ex_request]"
    "sy_history y = [Served (ex_socket ex_request) req (Inr ()) sk' ats]" "shutting y"
proof -
  obtain b y req sk' ats where "balancer_build ex_logger 0 ex_config = Inr b"
    "reachable ex_order ex_config (initial b) y" "sy_arrived y = [ex_socket ex_request]"
    "sy_history y = [Served (ex_socket ex_request) req (Inr ()) sk' ats]" "idle y" by (rule ex_state)
  with reachable.step [OF this(2) flagged_turn] that [of b "flagged y"] show thesis
    by (simp add: shutting_def idle_def)
qed

text \<open>A state after one failed probe.\<close>

lemma ex_probed:
  obtains b y where "balancer_build ex_logger 0 ex_config = Inr b" "reachable ex_order ex_config (initial b) y"
    "sy_probes y = [(ex_addr, False)]"
proof -
  obtain b where b: "balancer_build ex_logger 0 ex_config = Inr b" using ex_build ..
  have "rr_backend_addresses (wd_routing (ps_world (sy_state (initial b)))) = [ex_addr]"
    using reachable_backends [OF b reachable.start] by (simp add: ex_config_def)
  then have a: "ex_addr \<in> set (rr_backend_addresses (wd_routing (ps_world (sy_state (initial b)))))" by simp
  obtain bs ev where h: "health_probe (health ex_config) ex_addr False (registry (ps_world (sy_state (initial b)))) = (bs, ev)"
    by force
  have "sy_tasks (initial b) Prober = Return ()" by (simp add: initial_def)
  from that [OF b reachable_turn [OF turn.probe [OF refl this a h]]] show thesis by (simp add: initial_def)
qed

end
