(* ===== verification/Spec2Isabelle.thy ===== *)
theory Spec2Isabelle
  imports Examples
begin

text \<open>
  Verification of mzani, an HTTP/1.x load balancer in Rust without external dependencies.

  THE PROGRAM. One accept loop puts client connections into the bounded queues of a fixed set
  of workers. A worker reads a request, picks a backend round-robin among the healthy ones,
  sends the request on, reads the response, rebuilds it with an explicit length and sends it
  to the client. A health thread probes the backends; a metrics thread aggregates a record
  per request; a log thread writes structured lines to a file. All of it is fed through
  bounded channels that drop when full. A shutdown closes the queues and joins the threads.

  THE THEORIES, and what each models under \<open>src/src/\<close>.

  \<^item> \<^theory_text>\<open>Prelude\<close>: the type of results, the operator \<open>?\<close>, saturating arithmetic, list facts.
  \<^item> \<^theory_text>\<open>Rust_Str\<close>, \<^theory_text>\<open>Rust_Num\<close>, \<^theory_text>\<open>Rust_Float\<close>, \<^theory_text>\<open>Net_Addr\<close>, \<^theory_text>\<open>Streams\<close>, \<^theory_text>\<open>Channels\<close>: the part
    of the standard library the sources call. UTF-8, splitting and trimming, integers,
    floating-point numbers and durations as text, socket addresses as text, \<open>Read\<close> and
    \<open>Write\<close> on a TCP stream, \<open>sync_channel\<close>.
  \<^item> \<^theory_text>\<open>Errors\<close>: \<open>utils/error.rs\<close> and \<open>parse_err\<close> of \<open>utils/mod.rs\<close>. \<^theory_text>\<open>Config\<close>: \<open>config.rs\<close>.
  \<^item> \<^theory_text>\<open>Http_Request\<close>: \<open>core/request.rs\<close>. \<^theory_text>\<open>Http_Response\<close>: \<open>core/response.rs\<close>, with its lemmas in
    \<^theory_text>\<open>Body_Framing\<close> (the body readers against the framings) and \<^theory_text>\<open>Forwarding\<close> (the whole
    reader and the rebuilt message). \<^theory_text>\<open>Http_Replies\<close>: \<open>utils/http.rs\<close>.
  \<^item> \<^theory_text>\<open>Backends\<close>: \<open>state/backend.rs\<close> and \<open>routing.rs\<close>. \<^theory_text>\<open>Health_Monitor\<close>: \<open>state/health.rs\<close>.
  \<^item> \<^theory_text>\<open>Log_Records\<close>: \<open>utils/log_record.rs\<close>, \<open>utils/logger.rs\<close>, and \<open>now\<close> of \<open>utils/mod.rs\<close>;
    \<^theory_text>\<open>Log_Reader\<close> specifies the line format by a reader. \<^theory_text>\<open>Metrics\<close>: \<open>state/metrics.rs\<close>.
  \<^item> \<^theory_text>\<open>Proxy\<close>: \<open>state/context.rs\<close>, with its lemmas in \<^theory_text>\<open>Proxy_Correct\<close>; \<^theory_text>\<open>Well_Typed\<close>: the types
    of the texts in requests, records and log lines.
  \<^item> \<^theory_text>\<open>Pool\<close> and \<^theory_text>\<open>Shutdown\<close>: \<open>core/pool.rs\<close>. \<^theory_text>\<open>Balancer\<close>: \<open>balancer.rs\<close>, \<open>core/mod.rs\<close> and
    \<open>main.rs\<close>.
  \<^item> \<^theory_text>\<open>Scripts\<close>: the operations of the threads again, cut at their accesses to the shared state;
    \<^theory_text>\<open>Script_Runs\<close>: without interference they are the functions of the theories above;
    \<^theory_text>\<open>Script_Facts\<close> and \<^theory_text>\<open>Script_Stages\<close>: what holds of them with any interference.
  \<^item> \<^theory_text>\<open>System\<close>: the threads composed as a transition system.
    \<^theory_text>\<open>System_Correct\<close>: its invariants;
    \<^theory_text>\<open>System_Requests\<close> and
    \<^theory_text>\<open>System_Outcomes\<close>: the requests followed through an
    interleaving, and what is reported about them; \<^theory_text>\<open>System_Health\<close>:
    the health flags; \<^theory_text>\<open>System_Progress\<close>: that the threads can finish
    what they do.
  \<^item> \<^theory_text>\<open>Closing\<close>: \<open>Balancer::shutdown\<close> as steps that interleave with the threads; \<^theory_text>\<open>Closing_Correct\<close>:
    that it ends and loses nothing; \<^theory_text>\<open>Closing_Schedule\<close>: the functions of \<^theory_text>\<open>Shutdown\<close> are one of
    its schedules.
  \<^item> \<^theory_text>\<open>Examples\<close>: concrete inputs. This theory: the properties.

  STATE. A struct is a record with the fields of the source; what several threads share through
  \<open>Arc\<close> (routing, channels, metrics, the counter of dropped records) is the record \<open>world\<close>,
  and a component's own record only says which handles it holds. A channel carries its queue,
  its capacity and the number of its senders, since the shutdown depends on the last one. A
  method that takes \<open>&self\<close> and mutates through atomics or locks returns the new state.
  \<open>usize\<close> values that only measure are natural numbers with the bound \<open>2 ^ 64\<close> where the
  source parses them; counters that may wrap are 64-bit words, with the arithmetic of the
  release profile (the debug profile panics instead). Durations are natural numbers of
  nanoseconds; an instant is a duration since the start. A floating-point number is a
  natural number and the power of two it is divided by, rounded to 53 bits after each
  operation; the report prints no negative number, and none near the limits of the exponent.

  INTERFACES are locales: \<open>reader\<close> and \<open>live_reader\<close> for \<open>Read\<close>, interpreted on TCP streams and
  on the \<open>PrefixReader\<close> over any reader; \<open>log_sink\<close> for \<open>LogSink\<close>, interpreted on the channel
  sink and on the file logger; \<open>routing_strategy\<close> for \<open>RoutingStrategy\<close>, interpreted on
  \<open>RoundRobinRouting\<close> and on \<open>next_answer\<close>, a registry that gives the answers a connection got
  while other threads used it too. The lemmas on readers are proved once in the first two;
  those on where a connection may go in the last one, for every strategy.

  THE ENVIRONMENT is data. A TCP stream is a script: a list of the segments the peer sends and
  the errors reads give, together with the errors writes, flush and close give. The outcomes
  of connection attempts, the clock readings, the loads of the stop flag and the probe results
  are functions of a counter; the environment variables, the results of creating the log
  directory and file and of binding the address, and the parser of socket addresses are
  arguments; so is \<open>order\<close>, the order in which a hash map is traversed. No theorem restricts
  them unless it says so; \<open>tcp_clean s\<close> says that no read of \<open>s\<close> fails.

  LOOPS. A loop over a stream is a \<open>partial_function\<close> in the option monad, where \<open>None\<close> is a loop
  that never returns, and each is proved to return on every script. No fuel is used: the
  measure is the length of the script. The health loop returns when the stop flag is set.
  A join of a thread whose channel keeps a sender is \<open>None\<close>, or a step that is never possible.
  The interleaved shutdown has a measure, \<open>load\<close>: the heights of the scripts under way and the
  lengths of the queues, weighted by what an entry can still cause; twelve more for the owner.

  CONCURRENCY. An operation of a thread is a \<open>script\<close>: a tree whose nodes are the atomic
  accesses to what the threads share (a \<open>try_send\<close>, a \<open>fetch_add\<close>, the load of one health flag,
  a critical section on the metrics), branching on what the access returned; what the thread
  does on its own, its stream and its backends included, happens in between. In \<^theory_text>\<open>System\<close> a
  turn is one access of one thread, or the start or end of an operation, so any two
  connections, the accept loop, the metrics thread, the log thread and the health thread
  interleave at every access, and the queues can be closed and the flag of the shutdown set
  at any moment. Three groups of accesses are one turn. An accept with its dispatch: no other
  thread counts dispatches, and the flag set between its two loads gives the reply that it
  gives when set before. A worker's check of the flag with its next identifier: nothing that
  another thread does in between could be told from the same done before. A probe's result:
  the two counters of a backend and its flag are written by no other thread, and only the
  flag is read by one. The accesses to one atomic are totally ordered, as the memory model
  says of relaxed ones, and accesses to different atomics are taken in program order. A
  turn carries the thread that takes it. During a shutdown (\<^theory_text>\<open>Closing\<close>) the steps of the owner of
  the balancer come between the turns of the other threads. A join is a step that is possible
  when the thread is at the head of its loop and its channel is closed and empty; the workers
  are joined in one step, since a worker that has ended does nothing while the next is waited
  for. The last probe counts as made before the health thread is told to stop, since no other
  thread reads that flag. The functions of \<^theory_text>\<open>Shutdown\<close> run each thread alone instead.

  WHAT IS SHOWN. In every interleaving: a connection that ends well is forwarded to one
  configured backend and answered with its message; each connection ends as it could have alone;
  none is lost; identifiers are distinct; each logs its stages in order and is counted at most
  once, and with its true outcome; counters are exact, channels stay bounded, the log keeps its
  order, the threads can become idle. One connection alone: what the client gets, how often it
  is tried, what is logged, and that it returns. Shutdown, with connections in hand and in every
  interleaving: it ends and loses nothing, unless a sender is kept, and then it waits for ever;
  the sequential functions agree with it. Messages: the readers accept only what the framing
  says and all of it, and the rebuilt response means the same and is stable. Texts: types of
  what is parsed and logged. Backends and health: selection refines a search, dispatch and
  selection are fair, the flags a search reads follow the probes in every interleaving, events
  alternate, the health thread stops. Refusals, configuration, log lines, numbers of bytes.

  LIMITS OF THE PROGRAM that the model shows: timeouts are not checked, a shutdown never times
  out, 1048575 bytes print as 1024.00 KB (stated in the properties); from \<open>2 ^ 32\<close>
  requests on the average becomes the total, a cursor that wraps or a search that is overtaken
  can miss a healthy backend, of a backend configured twice one entry never becomes unhealthy, a
  line feed in a value stays in its line, \<open>create_server\<close> drops settings (lemmas at
  the end); a quoted log value that ends in a backslash (in
  \<^theory_text>\<open>Log_Reader\<close>).

  NOT MODELLED. The \<open>Debug\<close> implementations, accessors that return a field, \<open>println!\<close>,
  \<open>thread::spawn\<close>, the module declarations and re-exports of \<open>lib.rs\<close> and \<open>state/mod.rs\<close>, the
  tests and the examples. Poisoned locks and panics of threads: no lock is held across code
  that can panic on the values the model has; the sum of all durations is assumed not to
  overflow \<open>Duration\<close>.
\<close>

section \<open>Connections of the running balancer\<close>

text \<open>C1: in every state of the running balancer, whatever the interleaving of its threads, a
  connection that ended well was served like this: one request was read from the client,
  exactly its bytes were sent to one of the configured backends, and the client got exactly
  the message rebuilt from what that backend answered; there were at most as many attempts
  as configured, all on configured backends.\<close>

theorem end_to_end:
  assumes "balancer_build mk_logger now c = Inr b" "reachable order c (initial b) y"
    and "Served sk req (Inr ()) sk' ats \<in> set (sy_history y)" "max_response_bytes (limits c) < usize_bound - 1"
  shows "\<exists>rq a m bk bk'. request_from_stream tcp_read (limits c) (inbound sk) = Some (Inr rq, inbound sk')
      \<and> tcp_wire (inbound sk) = request_to_bytes rq @ tcp_wire (inbound sk')
      \<and> last ats = (a, Inr m, Some bk') \<and> a \<in> set (backends c)
      \<and> served (request_to_bytes rq) (limits c) bk bk' m
      \<and> outbound sk' = outbound sk @ m
      \<and> length ats \<le> unat (max_backend_retries c) + 1 \<and> fst ` set ats \<subseteq> set (backends c)"
proof -
  let ?cx = "ps_context (sy_state y)"
  obtain connect elapsed answers w' where h:
    "handle_connection next_answer connect ?cx req elapsed sk (lone_world (backends c, answers))
      = Some (Inr (), sk', w', ats)" by (rule served_alone [OF assms(1-3)])
  have cx: "cx_limits ?cx = limits c" "cx_max_backend_retries ?cx = max_backend_retries c"
    using reachable_context [OF assms(2)] balancer_build_context [OF assms(1)] by simp_all
  from handle_connection_ok [OF h] assms(4) obtain rq a m bk bk' where
    "request_from_stream tcp_read (limits c) (inbound sk) = Some (Inr rq, inbound sk')"
    "tcp_wire (inbound sk) = request_to_bytes rq @ tcp_wire (inbound sk')"
    "ats \<noteq> []" "last ats = (a, Inr m, Some bk')"
    "served (request_to_bytes rq) (limits c) bk bk' m" "outbound sk' = outbound sk @ m"
    unfolding cx by blast
  moreover have t: "fst ` set ats \<subseteq> set (backends c)"
    using answers.handle_connection_targets [OF h] by (simp add: lone_world_def)
  moreover have "length ats \<le> unat (max_backend_retries c) + 1"
    using handle_connection_attempts [OF h] by (simp add: cx)
  moreover have "a \<in> set (backends c)" using t last_in_set [OF \<open>ats \<noteq> []\<close>] \<open>last ats = (a, Inr m, Some bk')\<close> by force
  ultimately show ?thesis by blast
qed

theorem end_to_end_witness:
  "\<exists>b y req sk' ats. balancer_build ex_logger 0 ex_config = Inr b \<and> reachable ex_order ex_config (initial b) y
     \<and> sy_history y = [Served (ex_socket ex_request) req (Inr ()) sk' ats]
     \<and> (\<exists>rq m bk bk'. ex_request = request_to_bytes rq @ tcp_wire (inbound sk') \<and> last ats = (ex_addr, Inr m, Some bk')
         \<and> served (request_to_bytes rq) default_limits bk bk' m \<and> outbound sk' = m)"
proof -
  obtain b y req sk' ats where b: "balancer_build ex_logger 0 ex_config = Inr b"
    "reachable ex_order ex_config (initial b) y"
    and h: "sy_history y = [Served (ex_socket ex_request) req (Inr ()) sk' ats]" by (rule ex_state)
  have c: "limits ex_config = default_limits" "backends ex_config = [ex_addr]"
    by (simp_all add: ex_config_def default_config_def)
  have "max_response_bytes (limits ex_config) < usize_bound - 1"
    by (simp add: c default_limits_def usize_bound_def)
  moreover have "Served (ex_socket ex_request) req (Inr ()) sk' ats \<in> set (sy_history y)" by (simp add: h)
  ultimately obtain rq a m bk bk' where
    "tcp_wire (inbound (ex_socket ex_request)) = request_to_bytes rq @ tcp_wire (inbound sk')"
    "last ats = (a, Inr m, Some bk')" "a \<in> set (backends ex_config)"
    "served (request_to_bytes rq) (limits ex_config) bk bk' m" "outbound sk' = outbound (ex_socket ex_request) @ m"
    using end_to_end [OF b] by blast
  then have "ex_request = request_to_bytes rq @ tcp_wire (inbound sk')" "last ats = (ex_addr, Inr m, Some bk')"
    "served (request_to_bytes rq) default_limits bk bk' m" "outbound sk' = m"
    unfolding c ex_socket_simps ex_clean(2) append_Nil by simp_all
  with b h show ?thesis by blast
qed

text \<open>C2: every connection ends as it could have ended alone: its result, what is left of its
  stream and its attempts are those of \<open>handle_connection\<close>, called with the identifiers given
  out for it, on a registry that answers with configured backends or with the error that
  fits.\<close>

theorem served_as_alone:
  assumes "balancer_build mk_logger now c = Inr b" "reachable order c (initial b) y"
    and "Served sk req r sk' ats \<in> set (sy_history y)"
  shows "\<exists>connect elapsed answers w'. list_all (allowed (backends c)) answers
    \<and> handle_connection next_answer connect (ps_context (bl_state b)) req elapsed sk (lone_world (backends c, answers))
        = Some (r, sk', w', ats)"
  using served_alone [OF assms] unfolding reachable_context [OF assms(2)] by metis

theorem served_as_alone_witness:
  "\<exists>b y req sk' ats connect elapsed answers w'. reachable ex_order ex_config (initial b) y
     \<and> sy_history y = [Served (ex_socket ex_request) req (Inr ()) sk' ats]
     \<and> handle_connection next_answer connect (ps_context (bl_state b)) req elapsed (ex_socket ex_request)
         (lone_world ([ex_addr], answers)) = Some (Inr (), sk', w', ats)"
proof -
  obtain b y req sk' ats where b: "balancer_build ex_logger 0 ex_config = Inr b"
    "reachable ex_order ex_config (initial b) y"
    and h: "sy_history y = [Served (ex_socket ex_request) req (Inr ()) sk' ats]" by (rule ex_state)
  have "Served (ex_socket ex_request) req (Inr ()) sk' ats \<in> set (sy_history y)" by (simp add: h)
  from served_as_alone [OF b this] have "\<exists>connect elapsed answers w'.
      handle_connection next_answer connect (ps_context (bl_state b)) req elapsed (ex_socket ex_request)
        (lone_world ([ex_addr], answers)) = Some (Inr (), sk', w', ats)"
    by (auto simp: ex_config_def default_config_def)
  with b h show ?thesis by blast
qed

section \<open>One connection\<close>

text \<open>C3: a connection that ends well has read one request from the client, sent exactly those
  bytes to one of the configured backends, and sent the client exactly the message rebuilt
  from what that backend answered.\<close>

theorem connection_forwards:
  assumes "handle_connection rr_select_backend connect cx req elapsed sk w = Some (Inr (), sk', w', ats)"
    and "max_response_bytes (cx_limits cx) < usize_bound - 1"
  shows "\<exists>rq a m b b'. request_from_stream tcp_read (cx_limits cx) (inbound sk) = Some (Inr rq, inbound sk')
      \<and> tcp_wire (inbound sk) = request_to_bytes rq @ tcp_wire (inbound sk')
      \<and> last ats = (a, Inr m, Some b') \<and> a \<in> set (rr_backend_addresses (wd_routing w))
      \<and> connect (length ats - 1) a = Inr b
      \<and> served (request_to_bytes rq) (cx_limits cx) b b' m
      \<and> outbound sk' = outbound sk @ m"
proof -
  from handle_connection_ok [OF assms] obtain rq a m b b' where
    "request_from_stream tcp_read (cx_limits cx) (inbound sk) = Some (Inr rq, inbound sk')"
    "tcp_wire (inbound sk) = request_to_bytes rq @ tcp_wire (inbound sk')"
    "ats \<noteq> []" "last ats = (a, Inr m, Some b')" "connect (length ats - 1) a = Inr b"
    "served (request_to_bytes rq) (cx_limits cx) b b' m" "outbound sk' = outbound sk @ m"
    by blast
  moreover have "a \<in> set (rr_backend_addresses (wd_routing w))"
    using rr.handle_connection_targets [OF assms(1)] last_in_set [OF \<open>ats \<noteq> []\<close>] \<open>last ats = (a, Inr m, Some b')\<close>
    by force
  ultimately show ?thesis by blast
qed

theorem connection_forwards_witness:
  "\<exists>sk' w' ats. handle_connection rr_select_backend ex_connect ex_context ex_req (\<lambda>_. 0) (ex_socket ex_request) ex_world
      = Some (Inr (), sk', w', ats)
    \<and> (\<exists>rq a m b b'. request_from_stream tcp_read default_limits [Recv ex_request] = Some (Inr rq, inbound sk')
      \<and> last ats = (a, Inr m, Some b') \<and> a = ex_addr \<and> ex_connect (length ats - 1) a = Inr b
      \<and> served (request_to_bytes rq) default_limits b b' m \<and> outbound sk' = m)"
proof -
  from ex_handled obtain sk' w' ats where
    h: "handle_connection rr_select_backend ex_connect ex_context ex_req (\<lambda>_. 0) (ex_socket ex_request) ex_world
      = Some (Inr (), sk', w', ats)" "length ats = 2" by blast
  have "max_response_bytes (cx_limits ex_context) < usize_bound - 1"
    by (simp add: ex_context_def default_limits_def usize_bound_def)
  from connection_forwards [OF h(1) this] show ?thesis
    unfolding ex_context_simps ex_world_simps ex_socket_simps append_Nil using h(1)
    by (intro exI [of _ sk'] exI [of _ w'] exI [of _ ats] conjI) auto
qed




text \<open>C6: a connection makes at most one attempt more than the configured retries, only on
  configured backends; every attempt but the last failed, each was sent the request from its
  first byte, and no later attempt follows a success.\<close>

theorem attempts_bounded:
  assumes "handle_connection rr_select_backend connect cx req elapsed sk w = Some (r, sk', w', ats)"
  shows "length ats \<le> unat (cx_max_backend_retries cx) + 1
      \<and> fst ` set ats \<subseteq> set (rr_backend_addresses (wd_routing w))
      \<and> (ats = [] \<or> (\<exists>rq es x. request_from_stream tcp_read (cx_limits cx) (inbound sk) = Some (Inr rq, es)
           \<and> attempts_made (request_to_bytes rq) (cx_limits cx) (read (cx_timeouts cx)) connect 0 x ats))"
  using handle_connection_attempts [OF assms] rr.handle_connection_targets [OF assms] by blast

theorem attempts_bounded_witness:
  "\<exists>sk' w' ats. handle_connection rr_select_backend ex_connect ex_context ex_req (\<lambda>_. 0) (ex_socket ex_request) ex_world
      = Some (Inr (), sk', w', ats)
    \<and> length ats = 2 \<and> length ats \<le> unat (cx_max_backend_retries ex_context) + 1 \<and> fst ` set ats \<subseteq> {ex_addr}"
proof -
  from ex_handled obtain sk' w' ats where
    h: "handle_connection rr_select_backend ex_connect ex_context ex_req (\<lambda>_. 0) (ex_socket ex_request) ex_world
      = Some (Inr (), sk', w', ats)" "length ats = 2" by blast
  from attempts_bounded [OF h(1)] have "length ats \<le> unat (cx_max_backend_retries ex_context) + 1"
    "fst ` set ats \<subseteq> {ex_addr}"
    unfolding ex_world_simps by simp_all
  with h show ?thesis by (intro exI [of _ sk'] exI [of _ w'] exI [of _ ats] conjI)
qed

text \<open>C7: every record a connection adds to the log carries its request id, unless it reports
  dropped records; and it adds at most one statistics record, which carries its ids and
  whose outcome is that of the connection.\<close>

theorem connection_correlated:
  assumes "handle_connection rr_select_backend connect cx req elapsed sk w = Some (r, sk', w', ats)"
  shows "(\<exists>rs. queue (wd_log w') = queue (wd_log w) @ rs
           \<and> list_all (\<lambda>x. lr_req_id x = Some (rc_req_id req) \<or> lr_event x = lit ''log_dropped'') rs)
       \<and> (\<exists>sts. queue (wd_stats w') = queue (wd_stats w) @ sts \<and> length sts \<le> 1
           \<and> list_all (\<lambda>st. st_req_id st = rc_req_id req \<and> st_worker_id st = rc_worker_id req
                \<and> (st_outcome st = OutcomeOk \<longleftrightarrow> r = Inr ())) sts)"
proof
  from handle_connection_logs [OF assms]
  show "\<exists>rs. queue (wd_log w') = queue (wd_log w) @ rs
      \<and> list_all (\<lambda>x. lr_req_id x = Some (rc_req_id req) \<or> lr_event x = lit ''log_dropped'') rs"
    unfolding logs_for_def list_all_iff by (meson extends_queue)
  from handle_connection_counted [OF assms]
  show "\<exists>sts. queue (wd_stats w') = queue (wd_stats w) @ sts \<and> length sts \<le> 1
      \<and> list_all (\<lambda>st. st_req_id st = rc_req_id req \<and> st_worker_id st = rc_worker_id req
           \<and> (st_outcome st = OutcomeOk \<longleftrightarrow> r = Inr ())) sts"
    unfolding counted_def list_all_iff by (meson extends_queue)
qed

theorem connection_correlated_witness:
  "\<exists>sk' w' ats. handle_connection rr_select_backend ex_connect ex_context ex_req (\<lambda>_. 0) (ex_socket ex_request) ex_world
      = Some (Inr (), sk', w', ats)
    \<and> (\<exists>sts. queue (wd_stats w') = sts \<and> length sts \<le> 1)"
proof -
  from ex_handled obtain sk' w' ats where
    h: "handle_connection rr_select_backend ex_connect ex_context ex_req (\<lambda>_. 0) (ex_socket ex_request) ex_world
      = Some (Inr (), sk', w', ats)" "length ats = 2" by blast
  from connection_correlated [OF h(1)] have "\<exists>sts. queue (wd_stats w') = sts \<and> length sts \<le> 1"
    unfolding ex_world_simps append_Nil by blast
  with h(1) show ?thesis by (intro exI [of _ sk'] exI [of _ w'] exI [of _ ats] conjI)
qed

section \<open>The running balancer\<close>



text \<open>C9: in every state a balancer reaches, every stream accepted so far is in exactly one
  place: queued for a worker, in the hands of one, or in the history of streams that were
  served, answered 503, or discarded. None is lost and none is handled twice.\<close>

theorem no_connection_lost:
  assumes "balancer_build mk_logger now c = Inr b" "reachable order c (initial b) y"
  shows "mset (sy_arrived y) = mset (queued (ps_pool (sy_state y))) + mset (in_hand (sy_workers y))
    + mset (map fate_stream (sy_history y))"
  using reachable_sound [OF assms] by (simp add: sound_def conserved_def)

theorem no_connection_lost_witness:
  "\<exists>b y. balancer_build ex_logger 0 ex_config = Inr b \<and> reachable ex_order ex_config (initial b) y
     \<and> sy_arrived y = [ex_socket ex_request] \<and> queued (ps_pool (sy_state y)) = []"
proof -
  obtain b y req sk' ats where b: "balancer_build ex_logger 0 ex_config = Inr b"
    "reachable ex_order ex_config (initial b) y" and y: "sy_arrived y = [ex_socket ex_request]"
    "sy_history y = [Served (ex_socket ex_request) req (Inr ()) sk' ats]" by (rule ex_state)
  from no_connection_lost [OF b] y b show ?thesis by (auto simp: add_eq_conv_ex)
qed

text \<open>C10: the request identifiers given out are 1, 2, 3 and so on, each once, to the connections
  served and in progress, so that they are distinct as long as fewer than \<open>2 ^ 64 - 1\<close>
  connections have been started.\<close>

theorem request_ids_distinct:
  assumes "balancer_build mk_logger now c = Inr b" "reachable order c (initial b) y"
    and "length (started_ids y) < 2 ^ 64 - 1"
  shows "mset (map unat (started_ids y)) = mset [1..<Suc (length (started_ids y))] \<and> distinct (started_ids y)"
proof -
  have "ids_numbered y" using reachable_sound [OF assms(1,2)] by (simp add: sound_def)
  from ids_numbered_unat [OF this assms(3)] show ?thesis by blast
qed

theorem request_ids_distinct_witness:
  "\<exists>b y req sk' ats. reachable ex_order ex_config (initial b) y
     \<and> sy_history y = [Served (ex_socket ex_request) req (Inr ()) sk' ats] \<and> unat (rc_req_id req) = 1"
proof -
  obtain b y req sk' ats where b: "balancer_build ex_logger 0 ex_config = Inr b"
    "reachable ex_order ex_config (initial b) y"
    and h: "sy_history y = [Served (ex_socket ex_request) req (Inr ()) sk' ats]" "idle y"
    and n: "length (started_ids y) < 2 ^ 64 - 1" by (rule ex_state)
  have "started_ids y = [rc_req_id req]"
    using idle_counts(2) [OF h(2)] by (simp add: started_ids_def served_ids_def h(1))
  with request_ids_distinct [OF b n] have "unat (rc_req_id req) = 1" by simp
  with b h show ?thesis by blast
qed

text \<open>C11: the log channel accepts the records of a request in the order of its stages, each at
  most once: accepted, backend selected, parsed, connecting, then completed or failed but not
  both, and last that it was slow.\<close>

theorem stages_in_order:
  assumes "balancer_build mk_logger now c = Inr b" "reachable order c (initial b) y"
    and "length (started_ids y) < 2 ^ 64 - 1"
  shows "sorted_wrt (<) (map stage (of_request i (log_stream y)))
    \<and> (i \<notin> set (started_ids y) \<longrightarrow> of_request i (log_stream y) = [])"
  using reachable_staged [OF assms] by (simp add: requests_staged_def staged_def)

theorem stages_in_order_witness:
  "\<exists>b y. balancer_build ex_logger 0 ex_config = Inr b \<and> reachable ex_order ex_config (initial b) y
     \<and> sy_arrived y = [ex_socket ex_request] \<and> sorted_wrt (<) (map stage (of_request 1 (log_stream y)))"
proof -
  obtain b y where b: "balancer_build ex_logger 0 ex_config = Inr b"
    "reachable ex_order ex_config (initial b) y"
    and y: "sy_arrived y = [ex_socket ex_request]" "length (started_ids y) < 2 ^ 64 - 1" by (rule ex_state)
  from stages_in_order [OF b y(2)] b y(1) show ?thesis by blast
qed

text \<open>C12: no request is counted twice, and none is counted that was not started: the statistics
  records counted, in the hands of the metrics thread, and queued for it have distinct
  identifiers of connections started.\<close>

theorem counted_at_most_once:
  assumes "balancer_build mk_logger now c = Inr b" "reachable order c (initial b) y"
    and "length (started_ids y) < 2 ^ 64 - 1"
  shows "distinct (ids_of (sy_counted y @ held (sy_tasks y Aggregator) @ queue (wd_stats (ps_world (sy_state y)))))
    \<and> set (ids_of (sy_counted y @ held (sy_tasks y Aggregator) @ queue (wd_stats (ps_world (sy_state y)))))
        \<subseteq> set (started_ids y)"
  unfolding stats_stream_def [symmetric]
  using reachable_staged [OF assms] by (auto simp: requests_staged_def staged_def)

theorem counted_at_most_once_witness:
  "\<exists>b y. balancer_build ex_logger 0 ex_config = Inr b \<and> reachable ex_order ex_config (initial b) y
     \<and> sy_arrived y = [ex_socket ex_request] \<and> distinct (ids_of (sy_counted y))"
proof -
  obtain b y where b: "balancer_build ex_logger 0 ex_config = Inr b"
    "reachable ex_order ex_config (initial b) y"
    and y: "sy_arrived y = [ex_socket ex_request]" "length (started_ids y) < 2 ^ 64 - 1" by (rule ex_state)
  from counted_at_most_once [OF b y(2)] b y(1) show ?thesis by auto
qed

text \<open>C13: what the running balancer reports about a connection is what became of it. Once no
  thread is in the middle of an operation, every statistics record that entered the channel
  belongs to a connection that was served, with outcome \<open>ok\<close> exactly if it ended well; every
  record of a worker in the log belongs to one too, \<open>request_complete\<close> only to one that ended
  well and \<open>request_failed\<close> only to one that did not.\<close>

theorem outcomes_reported:
  assumes "balancer_build mk_logger now c = Inr b" "reachable order c (initial b) y" "idle y"
  shows "(\<forall>st\<in>set (stats_stream y). \<exists>sk req r sk' ats. Served sk req r sk' ats \<in> set (sy_history y)
        \<and> rc_req_id req = st_req_id st \<and> (st_outcome st = OutcomeOk \<longleftrightarrow> r = Inr ()))
    \<and> (\<forall>rec\<in>set (log_stream y). lr_role rec = Worker \<longrightarrow>
        (\<exists>sk req r sk' ats. Served sk req r sk' ats \<in> set (sy_history y) \<and> lr_req_id rec = Some (rc_req_id req)
          \<and> (lr_event rec = lit ''request_complete'' \<longrightarrow> r = Inr ())
          \<and> (lr_event rec = lit ''request_failed'' \<longrightarrow> r \<noteq> Inr ())))"
  using idle_reports [OF reachable_reports_true [OF assms(1,2)] assms(3)] by blast

theorem outcomes_reported_witness:
  "\<exists>b y. balancer_build ex_logger 0 ex_config = Inr b \<and> reachable ex_order ex_config (initial b) y
     \<and> sy_arrived y = [ex_socket ex_request] \<and> (\<forall>st\<in>set (stats_stream y). st_outcome st = OutcomeOk)"
proof -
  obtain b y req sk' ats where b: "balancer_build ex_logger 0 ex_config = Inr b"
    "reachable ex_order ex_config (initial b) y" and i: "idle y"
    and y: "sy_arrived y = [ex_socket ex_request]" "sy_history y = [Served (ex_socket ex_request) req (Inr ()) sk' ats]"
    by (rule ex_state)
  from outcomes_reported [OF b i] y(2) have "\<forall>st\<in>set (stats_stream y). st_outcome st = OutcomeOk" by auto
  with b y(1) show ?thesis by blast
qed

text \<open>C14: the aggregated metrics are exactly the counters of the statistics records the metrics
  thread has counted: totals, sums, and for each backend its requests and errors; and the
  counter of pool rejections is the number of connections turned away because the queue chosen
  for them was full, but for one that the accept loop is about to count.\<close>

theorem metrics_exactly_count:
  assumes "balancer_build mk_logger now c = Inr b" "reachable order c (initial b) y"
  shows "mt_total_requests (wd_metrics (ps_world (sy_state y))) = of_nat (length (sy_counted y))
    \<and> mt_total_bytes_proxied (wd_metrics (ps_world (sy_state y)))
        = of_nat (\<Sum>st\<leftarrow>sy_counted y. st_request_len st + st_response_len st)
    \<and> (\<forall>a. mt_per_backend (wd_metrics (ps_world (sy_state y))) a =
          (if for_backend a (sy_counted y) = [] then None
           else Some \<lparr>bm_requests = of_nat (length (for_backend a (sy_counted y))),
                      bm_errors = of_nat (length (failed (for_backend a (sy_counted y))))\<rparr>))
    \<and> sn_pool_rejected (balancer_metrics_snapshot (ps_world (sy_state y))) + of_nat (owed (sy_tasks y Acceptor))
        = of_nat (length (overflowed (sy_history y)))
    \<and> owed (sy_tasks y Acceptor) \<le> 1"
proof -
  have s: "sound y" using assms by (rule reachable_sound)
  then have "sn_pool_rejected (balancer_metrics_snapshot (ps_world (sy_state y))) + of_nat (owed (sy_tasks y Acceptor))
        = of_nat (length (overflowed (sy_history y)))
    \<and> owed (sy_tasks y Acceptor) \<le> 1"
    by (simp add: sound_def rejections_exact_def balancer_metrics_snapshot_def snapshot_def owed_def split: script.splits)
  with s show ?thesis unfolding sound_def metrics_exact_def counts_def by blast
qed

theorem metrics_exactly_count_witness:
  "\<exists>b y. balancer_build ex_logger 0 ex_config = Inr b \<and> reachable ex_order ex_config (initial b) y
     \<and> sy_arrived y = [ex_socket ex_request]
     \<and> mt_total_requests (wd_metrics (ps_world (sy_state y))) = of_nat (length (sy_counted y))
     \<and> sn_pool_rejected (balancer_metrics_snapshot (ps_world (sy_state y))) = 0"
proof -
  obtain b y req sk' ats where b: "balancer_build ex_logger 0 ex_config = Inr b"
    "reachable ex_order ex_config (initial b) y" and i: "idle y"
    and y: "sy_arrived y = [ex_socket ex_request]" "sy_history y = [Served (ex_socket ex_request) req (Inr ()) sk' ats]"
    by (rule ex_state)
  have "overflowed (sy_history y) = []" "owed (sy_tasks y Acceptor) = 0"
    using y(2) idle_counts(3) [OF i] by (simp_all add: overflowed_def)
  with metrics_exactly_count [OF b] have
    "mt_total_requests (wd_metrics (ps_world (sy_state y))) = of_nat (length (sy_counted y))"
    "sn_pool_rejected (balancer_metrics_snapshot (ps_world (sy_state y))) = 0" by simp_all
  with b y(1) show ?thesis by blast
qed



text \<open>C16: with a file that takes every write, the lines of the log file are the records the
  writer has taken that meet the level configured by the environment, in the order in which
  the channel accepted them; nothing accepted is lost or reordered.\<close>

theorem log_file_in_order:
  assumes "balancer_build (logger_new_in_dir mk_fault op_fault dir var t0) now c = Inr b"
    and "reachable order c (initial b) y" "reachable order c y y'"
  shows "logger_accepted (ps_logger (sy_state y')) = filter (meets_min_level (level_from_env var)) (sy_written y')
    \<and> (\<exists>rs. sy_written y' @ queue (wd_log (ps_world (sy_state y')))
          = (sy_written y @ queue (wd_log (ps_world (sy_state y)))) @ rs)"
  using reachable_log [OF assms(1) reachable_trans [OF assms(3,2)]]
    reachable_streams [OF assms(3) reachable_sound [OF assms(1,2)]]
  by (simp add: log_faithful_def Let_def streams_grow_def log_stream_def)

theorem log_file_in_order_witness:
  "\<exists>b y. balancer_build ex_logger 0 ex_config = Inr b \<and> reachable ex_order ex_config (initial b) y
     \<and> sy_arrived y = [ex_socket ex_request]
     \<and> logger_accepted (ps_logger (sy_state y)) = filter (meets_min_level Info) (sy_written y)
     \<and> (\<exists>rs. log_stream y = log_stream (initial b) @ rs)"
proof -
  obtain b y where b: "balancer_build ex_logger 0 ex_config = Inr b"
    "reachable ex_order ex_config (initial b) y" and y: "sy_arrived y = [ex_socket ex_request]" by (rule ex_state)
  have "level_from_env None = Info" by (simp add: level_from_env_def)
  with log_file_in_order [OF b(1) [unfolded ex_logger_def] reachable.start b(2)] b y show ?thesis
    unfolding log_stream_def by auto
qed

text \<open>C17: from every state a balancer reaches, whatever the streams contain, its threads can take
  turns until none is in the middle of an operation and no connection is queued; then every
  stream accepted is in the history.\<close>

theorem queues_can_drain:
  assumes "balancer_build mk_logger now c = Inr b" "reachable order c (initial b) y"
  shows "\<exists>y'. reachable order c y y' \<and> idle y' \<and> queued (ps_pool (sy_state y')) = []
    \<and> sy_arrived y' = sy_arrived y \<and> mset (map fate_stream (sy_history y')) = mset (sy_arrived y)"
proof -
  have s: "sound y" using assms by (rule reachable_sound)
  then have "conserved y" by (simp add: sound_def)
  from can_become_idle [OF reachable_alone [OF assms(2)] this, of order c] obtain y' where
    y': "reachable order c y y'" "idle y'" "queued (ps_pool (sy_state y')) = []" "sy_arrived y' = sy_arrived y" by blast
  have "conserved y'" using reachable_from_sound [OF y'(1) s] by (simp add: sound_def)
  with y' idle_counts(1) [OF y'(2)] show ?thesis by (auto simp: conserved_def)
qed

theorem queues_can_drain_witness:
  "\<exists>b y y'. balancer_build ex_logger 0 ex_config = Inr b \<and> reachable ex_order ex_config (initial b) y
     \<and> sy_arrived y = [ex_socket ex_request] \<and> reachable ex_order ex_config y y' \<and> idle y'
     \<and> mset (map fate_stream (sy_history y')) = {#ex_socket ex_request#}"
proof -
  obtain b y where b: "balancer_build ex_logger 0 ex_config = Inr b"
    "reachable ex_order ex_config (initial b) y" and y: "sy_arrived y = [ex_socket ex_request]" by (rule ex_state)
  from queues_can_drain [OF b] obtain y' where "reachable ex_order ex_config y y'" "idle y'"
    "mset (map fate_stream (sy_history y')) = mset (sy_arrived y)" by blast
  with b y show ?thesis by (intro exI [of _ b] exI [of _ y] exI [of _ y']) simp
qed

section \<open>Shutdown\<close>



text \<open>C19: when a shutdown that interleaves with the running threads has ended, every stream
  accepted has been dealt with, none was begun after the flag was set, every statistics record
  that the channel had accepted is counted, and every log record it had accepted has been
  handed to the log file in order, ahead of those sent while shutting down.\<close>

theorem shutdown_loses_nothing:
  assumes "balancer_build (logger_new_in_dir mk_fault op_fault dir var t0) now c = Inr b"
    and "reachable order c (initial b) y" "shutting y"
    and "(closing order c False)\<^sup>*\<^sup>* (Stopping_health, y) (Stopped, z)"
  shows "sy_arrived z = sy_arrived y \<and> mset (map fate_stream (sy_history z)) = mset (sy_arrived y)
    \<and> mset (started_ids z) = mset (started_ids y)
    \<and> (\<exists>sts. sy_counted z = stats_stream y @ sts) \<and> counts (sy_counted z) (wd_metrics (ps_world (sy_state z)))
    \<and> (\<exists>rs. sy_written z = log_stream y @ rs)
    \<and> logger_accepted (ps_logger (sy_state z)) = filter (meets_min_level (level_from_env var)) (sy_written z)"
proof -
  have ok: "closing_ok False 0 (Stopping_health, y)" using shutdown_ok [OF assms(1-3), of False 0] by simp
  from closing_run_later [OF assms(4) ok, of "level_from_env var"] reachable_log [OF assms(1,2)]
  have l: "later y z" "log_faithful (level_from_env var) z" by simp_all
  from closing_ok_run [OF assms(4) ok] have z: "proper z" "quiet Stopped z" by (simp_all add: closing_ok_def)
  have d: "stats_stream z = sy_counted z" "log_stream z = sy_written z" "queued (ps_pool (sy_state z)) = []"
    "in_hand (sy_workers z) = []"
    using z(2) by (auto simp: quiet_def stats_stream_def log_stream_def in_hand_def list_all_iff held_def)
  with l z(1) show ?thesis
    by (simp add: later_def streams_grow_def proper_def conserved_def metrics_exact_def log_faithful_def Let_def)
qed

theorem shutdown_loses_nothing_witness:
  "\<exists>b y z. balancer_build ex_logger 0 ex_config = Inr b \<and> reachable ex_order ex_config (initial b) y
     \<and> sy_arrived y = [ex_socket ex_request] \<and> (closing ex_order ex_config False)\<^sup>*\<^sup>* (Stopping_health, y) (Stopped, z)
     \<and> mset (map fate_stream (sy_history z)) = {#ex_socket ex_request#}"
proof -
  obtain b y where b: "balancer_build ex_logger 0 ex_config = Inr b" "reachable ex_order ex_config (initial b) y"
    and y: "sy_arrived y = [ex_socket ex_request]" "shutting y" by (rule ex_shutting)
  from closing_completes [OF shutdown_ok [OF b y(2), of False 0]] obtain z where
    z: "(closing ex_order ex_config False)\<^sup>*\<^sup>* (Stopping_health, y) (Stopped, z)" by auto
  from shutdown_loses_nothing [OF b(1) [unfolded ex_logger_def] b(2) y(2) z] b y z show ?thesis
    by (intro exI [of _ b] exI [of _ y] exI [of _ z]) simp
qed

text \<open>C20: \<open>balancer_shutdown\<close>, in which each thread runs alone while the owner waits for it, is
  one of the schedules of the shutdown that interleaves: from a state in which no operation is
  under way it ends in the same state, and the connections still queued are those answered 503.\<close>

theorem shutdown_is_one_schedule:
  assumes "balancer_build mk_logger now c = Inr b" "reachable order c (initial b) y" "idle y"
    and "balancer_shutdown order clock' now' ctx_shared grace (b\<lparr>bl_state := sy_state y\<rparr>) = Some (r, waited, replied, b')"
  shows "replied = map shutting_down_reply (queued (ps_pool (sy_state y)))
    \<and> (\<exists>z. (closing order c ctx_shared)\<^sup>*\<^sup>* (Stopping_health, flagged y) (Stopped, z) \<and> sy_state z = bl_state b'
      \<and> sy_history z = sy_history y @ map Refused (queued (ps_pool (sy_state y))))"
proof -
  have s: "sound y" "running 1 (sy_state y)"
    using reachable_sound [OF assms(1,2)] reachable_running [OF assms(1,2)] by simp_all
  have "running (Suc 0) (sy_state (flagged y))" using s(2) by (simp add: running_def Let_def)
  moreover have "idle (flagged y)" "pl_shutting_down (ps_pool (sy_state (flagged y)))"
    using assms(3) by (simp_all add: idle_def)
  moreover have "conserved (flagged y)" using s(1) turn_conserved [OF flagged_turn] by (simp add: sound_def)
  moreover have "sy_state (flagged y) = (bl_state (b\<lparr>bl_state := sy_state y\<rparr>))
      \<lparr>ps_pool := (ps_pool (bl_state (b\<lparr>bl_state := sy_state y\<rparr>)))\<lparr>pl_shutting_down := True\<rparr>\<rparr>" by simp
  moreover have "bl_health_running (b\<lparr>bl_state := sy_state y\<rparr>)" using balancer_build_running [OF assms(1)] by simp
  ultimately have "\<exists>z. (closing order c ctx_shared)\<^sup>*\<^sup>* (Stopping_health, flagged y) (Stopped, z) \<and> sy_state z = bl_state b'
      \<and> sy_history z = sy_history (flagged y) @ map Refused (queued (ps_pool (sy_state (flagged y))))
      \<and> replied = map shutting_down_reply (queued (ps_pool (sy_state (flagged y))))"
    using assms(4) by (intro shutdown_is_schedule)
  moreover have "queued (ps_pool (sy_state (flagged y))) = queued (ps_pool (sy_state y))" by (simp add: queued_def)
  ultimately show ?thesis by auto
qed

theorem shutdown_is_one_schedule_witness:
  "\<exists>b y b' z replied. balancer_build ex_logger 0 ex_config = Inr b \<and> reachable ex_order ex_config (initial b) y
     \<and> sy_arrived y = [ex_socket ex_request]
     \<and> balancer_shutdown ex_order (\<lambda>_ _. 0) 0 False 1 (b\<lparr>bl_state := sy_state y\<rparr>)
        = Some (Inr \<lparr>sr_connections_dropped = 0, sr_joined_cleanly = True\<rparr>, await_deadline 1, replied, b')
     \<and> (closing ex_order ex_config False)\<^sup>*\<^sup>* (Stopping_health, flagged y) (Stopped, z) \<and> sy_state z = bl_state b'"
proof -
  obtain b y where b: "balancer_build ex_logger 0 ex_config = Inr b" "reachable ex_order ex_config (initial b) y"
    and y: "sy_arrived y = [ex_socket ex_request]" "idle y" by (rule ex_state)
  have "running 1 (bl_state (b\<lparr>bl_state := sy_state y\<rparr>))" "bl_health_running (b\<lparr>bl_state := sy_state y\<rparr>)"
    using reachable_running [OF b] balancer_build_running [OF b(1)] by simp_all
  from balancer_shutdown_returns [OF this, of ex_order "\<lambda>_ _. 0" 0 1] obtain replied b' where
    s: "balancer_shutdown ex_order (\<lambda>_ _. 0) 0 False 1 (b\<lparr>bl_state := sy_state y\<rparr>)
        = Some (Inr \<lparr>sr_connections_dropped = 0, sr_joined_cleanly = True\<rparr>, await_deadline 1, replied, b')" by blast
  from shutdown_is_one_schedule [OF b y(2) s] s b y(1) show ?thesis by blast
qed

text \<open>C21: a log sender handed out by the pool and kept alive, or a clone of the context, makes
  the shutdown wait for ever: whatever turns the threads take, they come to a standstill after
  boundedly many steps, and never with the last thread joined.\<close>

theorem shutdown_can_block:
  assumes "balancer_build mk_logger now c = Inr b" "reachable order c (initial b) y" "shutting y"
    and "0 < extra \<or> ctx_shared"
    and "(closing order c ctx_shared ^^ k) (Stopping_health, with_senders extra y) (ph, z)"
  shows "ph \<noteq> Stopped \<and> k \<le> load y + 12"
proof -
  have ok: "closing_ok ctx_shared extra (Stopping_health, with_senders extra y)" using assms(1-3) by (rule shutdown_ok)
  have "running 1 (sy_state y)" using assms(1,2) by (rule reachable_running)
  then have "load (with_senders extra y) = load y" using with_senders_parts [of y extra] by simp
  moreover from closing_ok_run [OF relpowp_imp_rtranclp [OF assms(5)] ok] have "ph \<noteq> Stopped"
    using assms(4) by (auto simp: closing_ok_def accounted_def)
  ultimately show ?thesis using closing_run_bounded [OF assms(5) ok] by (simp add: total_load_def)
qed

theorem shutdown_can_block_witness:
  "\<exists>b y. balancer_build ex_logger 0 ex_config = Inr b \<and> reachable ex_order ex_config (initial b) y
     \<and> sy_arrived y = [ex_socket ex_request]
     \<and> (\<nexists>z. (closing ex_order ex_config True)\<^sup>*\<^sup>* (Stopping_health, y) (Stopped, z))
     \<and> (\<nexists>z. (closing ex_order ex_config False)\<^sup>*\<^sup>* (Stopping_health, with_senders 1 y) (Stopped, z))"
proof -
  obtain b y where b: "balancer_build ex_logger 0 ex_config = Inr b" "reachable ex_order ex_config (initial b) y"
    and y: "sy_arrived y = [ex_socket ex_request]" "shutting y" by (rule ex_shutting)
  have "\<not> (closing ex_order ex_config True)\<^sup>*\<^sup>* (Stopping_health, y) (Stopped, z)" for z
    using shutdown_can_block [OF b y(2), of 0 True _ Stopped z] by (auto dest: rtranclp_imp_relpowp)
  moreover have "\<not> (closing ex_order ex_config False)\<^sup>*\<^sup>* (Stopping_health, with_senders 1 y) (Stopped, z)" for z
    using shutdown_can_block [OF b y(2), of 1 False _ Stopped z] by (auto dest!: rtranclp_imp_relpowp)
  ultimately show ?thesis using b y(1) by blast
qed



section \<open>Responses\<close>

text \<open>C23: a response the balancer accepts is a head block followed by a body in the framing the
  head announces, read off the stream in order and within the configured limits (the header
  limit up to one read); what is passed on is rebuilt from exactly these.\<close>

theorem response_sound:
  assumes "read_http_response tcp_read l s = Some (Inr m, t)" "max_response_bytes l < usize_bound - 1"
  shows "\<exists>raw f body lost. tcp_wire s = raw @ f @ lost @ tcp_wire t \<and> forwards raw f body m
    \<and> length body \<le> max_response_bytes l \<and> length raw \<le> max_header_bytes l + header_chunk_size"
  using assms by (rule tcp.read_http_response_ok)

theorem response_sound_witness:
  "\<exists>raw f body lost t. ex_chunked = raw @ f @ lost @ tcp_wire t \<and> forwards raw f body ex_response"
proof -
  obtain t where t: "read_http_response tcp_read default_limits [Recv ex_chunked] = Some (Inr ex_response, t)"
    using ex_chunked_read by blast
  have "max_response_bytes default_limits < usize_bound - 1" by (simp add: default_limits_def usize_bound_def)
  from response_sound [OF t this] show ?thesis by auto
qed



text \<open>C25: reading the rebuilt message gives the rebuilt message again, however it is cut into
  segments: a second balancer behind the first changes nothing.\<close>

theorem forwarding_is_stable:
  assumes "forwards raw f body m" "tcp_clean s" "tcp_wire s = m"
    and "length body \<le> max_response_bytes l" "length body < usize_bound"
    and "length m - length body \<le> max_header_bytes l + 1"
  shows "\<exists>t. read_http_response tcp_read l s = Some (Inr m, t)"
  using assms by (rule tcp.read_http_response_again)

theorem forwarding_is_stable_witness:
  "\<exists>t. read_http_response tcp_read default_limits [Recv ex_head, Recv (blit ''ok'')] = Some (Inr ex_response, t)"
proof (rule forwarding_is_stable [OF ex_forwards])
  show "tcp_clean [Recv ex_head, Recv (blit ''ok'')]" by (simp add: tcp_clean_def ex_head_def)
  show "tcp_wire [Recv ex_head, Recv (blit ''ok'')] = ex_response" by (simp add: ex_head_def ex_response_def)
qed (simp_all add: default_limits_def usize_bound_def ex_response_def)

text \<open>C26: the chunked encoding of any chunks decodes to their concatenation, and exactly the
  encoding is consumed, however the stream is segmented.\<close>

theorem chunked_roundtrip:
  assumes "tcp_clean s" "tcp_wire s = chunk_encode cs @ rest"
    and "\<forall>c\<in>set cs. c \<noteq> [] \<and> length c < usize_bound" "length (concat cs) \<le> m"
  shows "\<exists>t. read_chunked_body tcp_read s m = Some (Inr (concat cs), t) \<and> tcp_wire t = rest"
  using tcp.read_chunked_loop_clean [OF chunked_encode [OF assms(3)] assms(1,2), of "[]" m] assms(4)
  by (auto simp: read_chunked_body_def)

theorem chunked_roundtrip_witness:
  "\<exists>t. read_chunked_body tcp_read [Recv (chunk_encode [blit ''ab'', blit ''c'']), Recv (blit ''x'')] 10
     = Some (Inr (concat [blit ''ab'', blit ''c'']), t) \<and> tcp_wire t = blit ''x''"
proof (rule chunked_roundtrip)
  have "chunk_encode [blit ''ab'', blit ''c''] \<noteq> []" by simp
  then show "tcp_clean [Recv (chunk_encode [blit ''ab'', blit ''c'']), Recv (blit ''x'')]"
    by (simp add: tcp_clean_def del: chunk_encode.simps)
  show "tcp_wire [Recv (chunk_encode [blit ''ab'', blit ''c'']), Recv (blit ''x'')]
      = chunk_encode [blit ''ab'', blit ''c''] @ blit ''x''"
    by (simp del: chunk_encode.simps)
qed (simp_all add: usize_bound_def)

section \<open>Requests\<close>

text \<open>C27: a request the balancer accepts is taken off the stream byte by byte; its parts are
  those of its head; its body has at least the announced length and respects the limit.\<close>

theorem request_sound:
  assumes "request_from_stream tcp_read l s = Some (Inr r, t)"
  shows "tcp_wire s = request_to_bytes r @ tcp_wire t
    \<and> parse_head (rq_raw_head r) = Inr (rq_method r, rq_path r, rq_headers r)
    \<and> (\<exists>len. content_length (rq_headers r) = Inr len \<and> len \<le> length (rq_body r))
    \<and> length (rq_body r) \<le> max_body_bytes l
    \<and> length (rq_raw_head r) \<le> max_header_bytes l + header_chunk_size"
  using assms by (rule tcp.request_from_stream_ok) blast

theorem request_sound_witness:
  "\<exists>r. request_from_stream tcp_read default_limits [Recv ex_request] = Some (Inr r, [])
     \<and> ex_request = request_to_bytes r \<and> length (rq_body r) \<le> max_body_bytes default_limits"
proof -
  obtain r where r: "request_from_stream tcp_read default_limits [Recv ex_request] = Some (Inr r, [])"
    using ex_request_read ..
  from request_sound [OF r] r show ?thesis unfolding ex_clean(2) by auto
qed

text \<open>C28: a well-formed request within the limits is read whole and unchanged, however the
  network cuts it into segments.\<close>

theorem request_complete:
  assumes "tcp_clean s" "tcp_wire s = raw @ body"
    and "from_utf8 raw = Some (head_text (line # map render_header hs))"
    and "\<not> has_crlf line" "split_whitespace line = m # path # ws"
    and "\<forall>h\<in>set hs. wf_header h" "content_length hs = Inr (length body)"
    and "length raw \<le> max_header_bytes l + 1" "length body \<le> max_body_bytes l"
  shows "\<exists>t. request_from_stream tcp_read l s =
      Some (Inr \<lparr>rq_method = parse_method m, rq_path = path, rq_headers = hs,
                 rq_body = body, rq_raw_head = raw\<rparr>, t) \<and> tcp_wire t = []"
  using assms by (rule tcp.request_from_stream_complete)

theorem request_complete_witness:
  "\<exists>t. request_from_stream tcp_read default_limits [Recv (blit ''GET / HT''), Recv (blit ''TP/1.1'' @ [13, 10, 13, 10])] =
      Some (Inr \<lparr>rq_method = Get, rq_path = lit ''/'', rq_headers = [],
                 rq_body = [], rq_raw_head = blit ''GET / HTTP/1.1'' @ [13, 10, 13, 10]\<rparr>, t) \<and> tcp_wire t = []"
proof -
  have "\<exists>t. request_from_stream tcp_read default_limits [Recv (blit ''GET / HT''), Recv (blit ''TP/1.1'' @ [13, 10, 13, 10])] =
      Some (Inr \<lparr>rq_method = parse_method (lit ''GET''), rq_path = lit ''/'', rq_headers = [],
                 rq_body = [], rq_raw_head = blit ''GET / HTTP/1.1'' @ [13, 10, 13, 10]\<rparr>, t) \<and> tcp_wire t = []"
    by (rule request_complete [of _ _ _ "lit ''GET / HTTP/1.1''" _ _ _ "[lit ''HTTP/1.1'']"])
       (simp_all add: tcp_clean_def head_text_def has_crlf_Cons text_eval content_length_def header_field_def
          default_limits_def, simp_all add: has_crlf_def)
  then show ?thesis by (simp add: parse_method_def)
qed

text \<open>C29: an accepted request consists of texts of Unicode scalar values; its method and path are
  words, its header fields are trimmed; and the log line made of it is a text that survives
  its encoding as UTF-8.\<close>

theorem request_well_typed:
  assumes "request_from_stream tcp_read l s = Some (Inr r, t)"
  shows "request_typed r \<and> record_typed (parsed_record req r n)
    \<and> from_utf8 (to_utf8 (format_line now (parsed_record req r n))) = Some (format_line now (parsed_record req r n))"
proof -
  from assms have "parse_head (rq_raw_head r) = Inr (rq_method r, rq_path r, rq_headers r)"
    by (rule tcp.request_from_stream_ok) blast
  from parse_head_typed [OF this, of "rq_body r" "rq_raw_head r"] have "request_typed r"
    by (simp add: request_typed_def)
  then show ?thesis using parsed_record_typed format_line_utf8 by blast
qed

theorem request_well_typed_witness:
  "\<exists>r. request_from_stream tcp_read default_limits [Recv ex_request] = Some (Inr r, []) \<and> request_typed r"
proof -
  obtain r where r: "request_from_stream tcp_read default_limits [Recv ex_request] = Some (Inr r, [])"
    using ex_request_read ..
  from request_well_typed [OF r] r show ?thesis by blast
qed

text \<open>C30: a body announced beyond the limit is refused before it is read, and a body that ends
  before its announced length is an error.\<close>

theorem bad_body_refused:
  assumes "tcp_clean s" "tcp_wire s = raw @ body"
    and "from_utf8 raw = Some (head_text (line # map render_header hs))"
    and "\<not> has_crlf line" "split_whitespace line = m # path # ws"
    and "\<forall>h\<in>set hs. wf_header h" "content_length hs = Inr len"
    and "length raw \<le> max_header_bytes l + 1" "length body < len \<or> max_body_bytes l < len"
  shows "\<exists>t. request_from_stream tcp_read l s =
      Some (Inl (if max_body_bytes l < len then BodyTooLarge else Io (err_text read_exact_eof)), t)"
proof -
  have "from_io read_exact_eof = Io (err_text read_exact_eof)"
    by (simp add: from_io_def mzani_io_def read_exact_eof_def)
  with tcp.request_from_stream_refused [OF assms] show ?thesis by (simp only:)
qed

theorem bad_body_refused_witness:
  "\<exists>t. request_from_stream tcp_read (default_limits\<lparr>max_body_bytes := 4\<rparr>)
      [Recv (blit ''PUT /x'' @ [13, 10] @ blit ''Content-Length: 5'' @ [13, 10, 13, 10])] =
      Some (Inl BodyTooLarge, t)"
proof -
  let ?raw = "blit ''PUT /x'' @ [13, 10] @ blit ''Content-Length: 5'' @ [13, 10, 13, 10]"
  let ?l = "default_limits\<lparr>max_body_bytes := 4\<rparr>"
  have "wf_header (lit ''Content-Length'', lit ''5'')"
    unfolding wf_header_def fst_conv snd_conv
    by (intro conjI no_lf_no_crlf) (simp_all add: trimmed_def is_ws_def)
  then have "\<forall>h\<in>set [(lit ''Content-Length'', lit ''5'')]. wf_header h" by simp
  moreover have "\<not> has_crlf (lit ''PUT /x'')" by (intro no_lf_no_crlf) simp
  moreover have "from_utf8 ?raw = Some (head_text (lit ''PUT /x'' # map render_header [(lit ''Content-Length'', lit ''5'')]))"
    by (simp add: head_text_def render_header_def)
  moreover have "split_whitespace (lit ''PUT /x'') = lit ''PUT'' # lit ''/x'' # []" by (simp add: text_eval)
  moreover have "content_length [(lit ''Content-Length'', lit ''5'')] = Inr 5"
    by (simp add: content_length_def header_field_def text_eval)
  moreover have "tcp_clean [Recv ?raw]" "tcp_wire [Recv ?raw] = ?raw @ []" by (simp_all add: tcp_clean_def)
  moreover have "length ?raw \<le> max_header_bytes ?l + 1" "length ([] :: bytes) < 5 \<or> max_body_bytes ?l < 5"
    by (simp_all add: default_limits_def)
  ultimately have "\<exists>t. request_from_stream tcp_read ?l [Recv ?raw] =
      Some (Inl (if max_body_bytes ?l < 5 then BodyTooLarge else Io (err_text read_exact_eof)), t)"
    by (intro bad_body_refused)
  then show ?thesis by simp
qed

section \<open>Backends\<close>

text \<open>C31: the selection refines a search: starting at the cursor and going round once, the
  first healthy backend is chosen, and only when there is none does it fail.\<close>

theorem selection_refines_search:
  assumes "no_wrap bs (length (entries bs))" "entries bs \<noteq> []"
  shows "fst (select_next bs) =
     (case find be_healthy (rotate (unat (next_index bs)) (entries bs)) of
        Some e \<Rightarrow> Inr (be_addr e) | None \<Rightarrow> Inl NoHealthyBackend)
    \<and> entries (snd (select_next bs)) = entries bs
    \<and> next_index (snd (select_next bs)) = next_index bs + 1"
  using select_next_rotate [OF assms] select_next_cursor [OF assms(2)] by simp

theorem selection_refines_search_witness:
  "fst (select_next (record_probe_failure ex_addr 1 (new_backend_set [ex_addr, SockV4 localhost_v4 9002])))
     = Inr (SockV4 localhost_v4 9002)"
proof -
  let ?bs = "record_probe_failure ex_addr 1 (new_backend_set [ex_addr, SockV4 localhost_v4 9002])"
  have e: "entries ?bs = [entry_failure 1 (new_entry ex_addr), new_entry (SockV4 localhost_v4 9002)]" "next_index ?bs = 0"
    by (simp_all add: record_probe_failure_def new_backend_set_def new_entry_def)
  have "no_wrap ?bs (length (entries ?bs))" by (simp add: no_wrap_def e)
  from selection_refines_search [OF this] show ?thesis
    by (simp add: e entry_failure_def new_entry_def Let_def u32_saturating_add1_def)
qed

text \<open>C32: over \<open>k\<close> rounds of submissions each of the \<open>n\<close> workers is chosen exactly \<open>k\<close> times, and
  with every backend healthy over \<open>k\<close> rounds of selections each backend is (as often as it is
  configured).\<close>

theorem round_robin_is_fair:
  assumes "0 < n" "unat index + k * n < 2 ^ 64"
    and "no_wrap bs (k * length (entries bs) + length (entries bs))" "entries bs \<noteq> []"
    and "list_all be_healthy (entries bs)"
  shows "mset (dispatch_many (k * n) index n) = repeat_mset k (mset [0..<n])
    \<and> mset (fst (select_many (k * length (entries bs)) bs)) = repeat_mset k (mset (map Inr (addresses bs)))"
proof
  show "mset (dispatch_many (k * n) index n) = repeat_mset k (mset [0..<n])"
    using assms(1,2) by (rule dispatch_round)
  let ?xs = "map (\<lambda>e. Inr (be_addr e)) (entries bs) :: socket_addr mzani_result list"
  have "fst (select_many (k * length (entries bs)) bs)
      = map (\<lambda>i. ?xs ! ((unat (next_index bs) + i) mod length ?xs)) [0..<k * length ?xs]"
    using select_many_all_healthy [OF assms(3,4)] assms(4,5) by (simp add: list_all_iff)
  with mset_round [of ?xs "unat (next_index bs)" k] assms(4)
  show "mset (fst (select_many (k * length (entries bs)) bs)) = repeat_mset k (mset (map Inr (addresses bs)))"
    by (simp add: addresses_def comp_def)
qed

theorem round_robin_is_fair_witness:
  "mset (dispatch_many (3 * 2) 7 2) = repeat_mset 3 (mset [0..<2])
   \<and> mset (fst (select_many (3 * 1) (new_backend_set [ex_addr]))) = repeat_mset 3 {#Inr ex_addr#}"
proof -
  have e: "entries (new_backend_set [ex_addr]) = [new_entry ex_addr]" "addresses (new_backend_set [ex_addr]) = [ex_addr]"
    by (simp_all add: new_backend_set_def addresses_def new_entry_def)
  have "no_wrap (new_backend_set [ex_addr]) (3 * length (entries (new_backend_set [ex_addr]))
      + length (entries (new_backend_set [ex_addr])))"
    by (simp add: no_wrap_def e) (simp add: new_backend_set_def)
  from round_robin_is_fair [OF _ _ this, of 2 7] show ?thesis unfolding e by (simp add: new_entry_def)
qed

section \<open>Health\<close>

text \<open>C33: in the running balancer, whatever the interleaving, each backend counts as healthy
  exactly if the specification says so for the probes of it made so far; and, if no address is
  configured twice, that is what a search reads when it loads the flag at a position.\<close>

theorem flags_follow_probes:
  assumes "balancer_build mk_logger now c = Inr b" "reachable order c (initial b) y"
  defines "healthy a \<equiv> health_spec (unat (failure_threshold (health c))) (unat (recovery_threshold (health c)))
    (rev (probes_of a (sy_probes y)))"
  shows "(\<forall>a\<in>set (backends c). is_healthy a (registry (ps_world (sy_state y))) \<longleftrightarrow> healthy a)
    \<and> (distinct (backends c) \<longrightarrow> (\<forall>i<length (backends c). \<forall>k :: bool \<Rightarrow> handled script.
        script_step (Load_healthy i k) (ps_world (sy_state y))
          = Some (k (healthy (backends c ! i)), ps_world (sy_state y))))"
  using reachable_healthy [OF assms(1,2)] reachable_flag [OF assms(1,2)] unfolding healthy_def by simp

theorem flags_follow_probes_witness:
  "\<exists>b y. balancer_build ex_logger 0 ex_config = Inr b \<and> reachable ex_order ex_config (initial b) y
     \<and> sy_probes y = [(ex_addr, False)] \<and> is_healthy ex_addr (registry (ps_world (sy_state y)))"
proof -
  obtain b y where b: "balancer_build ex_logger 0 ex_config = Inr b" "reachable ex_order ex_config (initial b) y"
    and y: "sy_probes y = [(ex_addr, False)]" by (rule ex_probed)
  have "ex_addr \<in> set (backends ex_config)" by (simp add: ex_config_def)
  with flags_follow_probes [OF b] y have "is_healthy ex_addr (registry (ps_world (sy_state y)))"
    by (simp add: probes_of_def ex_config_def default_config_def default_health_def)
  with b y show ?thesis by blast
qed





text \<open>C36: once the stop flag is set for good, the health thread ends, and while it sleeps it
  notices within one slice of 50 ms: if the \<open>k\<close>-th load of the flag from now reads it as set,
  it sleeps at most \<open>k\<close> slices more, and never longer than asked.\<close>

theorem health_thread_stops:
  assumes "\<And>i. N \<le> i \<Longrightarrow> stop i"
  shows "(\<exists>st. health_loop stop probe emit c bs k = Some st)
    \<and> snd (sleep_interruptible stop n r) \<le> min r ((N - n) * sleep_slice)"
proof -
  have "stop (n + (N - n))" by (rule assms) simp
  then show ?thesis
    using health_loop_returns [OF assms] sleep_responsive [of stop n "N - n" r] sleep_bound [of stop n r] by simp
qed

theorem health_thread_stops_witness:
  "\<exists>st. health_loop (\<lambda>i. 7 \<le> i) (\<lambda>i. even i) (\<lambda>k r. k @ [r]) default_health (new_backend_set [ex_addr]) [] = Some st"
  using health_thread_stops [of 7 "\<lambda>i. 7 \<le> i" "\<lambda>i. even i" "\<lambda>k r. k @ [r]" default_health
      "new_backend_set [ex_addr]" "[]"]
  by simp

section \<open>Configuration\<close>

text \<open>C37: a balancer is built exactly when the configuration passes its checks and the log file
  can be opened; it fails with the first error met, before anything is started, and the
  binary and \<open>create_server\<close> return that error. If then the address cannot be bound, they
  return that error, with all threads joined. The checks are those of the backends, limits,
  health settings and pool sizes; the timeouts are not checked, and with no time to read
  every connection is discarded.\<close>

theorem build_checks_config:
  "(case balancer_build mk_logger now c of
      Inr b \<Rightarrow> validate_config c = Inr () \<and> (\<exists>lg. mk_logger = Inr lg) \<and> bl_config b = c
        \<and> build_and_run order clock now' (\<lambda>_. Inl err) mk_logger now c = Some (Inl (from_io err))
    | Inl e \<Rightarrow> (validate_config c = Inl e \<or> (validate_config c = Inr () \<and> mk_logger = Inl e))
        \<and> build_and_run order clock now' bind mk_logger now c = Some (Inl e))
   \<and> (validate_config c = Inr () \<longleftrightarrow>
        backends c \<noteq> []
        \<and> 0 < max_header_bytes (limits c) \<and> 0 < max_body_bytes (limits c) \<and> 0 < max_response_bytes (limits c)
        \<and> 0 < interval (health c) \<and> 0 < connect_timeout (health c)
        \<and> failure_threshold (health c) \<noteq> 0 \<and> recovery_threshold (health c) \<noteq> 0
        \<and> 0 < workers (pool c) \<and> 0 < per_worker_queue (pool c)
        \<and> 0 < log_channel_capacity (pool c) \<and> 0 < metrics_channel_capacity (pool c))
   \<and> validate_config (c\<lparr>timeouts := t\<rparr>) = validate_config c
   \<and> fst (accept_connection (c\<lparr>timeouts := t\<lparr>accept_read := 0\<rparr>\<rparr>) cx sk p w) = Discarded sk"
proof (intro conjI)
  have v: "validate_config c = Inr () \<Longrightarrow> validate_pool (pool c) = Inr ()" by (simp add: validate_config_ok)
  have r: "balancer_build mk_logger now c = Inr b
      \<Longrightarrow> build_and_run order clock now' (\<lambda>_. Inl err) mk_logger now c = Some (Inl (from_io err))" for b
    by (rule bind_error_returned) (assumption, rule refl)
  have "case balancer_build mk_logger now c of
      Inr b \<Rightarrow> validate_config c = Inr () \<and> (\<exists>lg. mk_logger = Inr lg) \<and> bl_config b = c
    | Inl e \<Rightarrow> validate_config c = Inl e \<or> (validate_config c = Inr () \<and> mk_logger = Inl e)"
    using v by (cases "validate_config c"; cases mk_logger)
      (auto simp: balancer_build_def context_from_config_def pool_new_def observability_start_def Let_def)
  then show "case balancer_build mk_logger now c of
      Inr b \<Rightarrow> validate_config c = Inr () \<and> (\<exists>lg. mk_logger = Inr lg) \<and> bl_config b = c
        \<and> build_and_run order clock now' (\<lambda>_. Inl err) mk_logger now c = Some (Inl (from_io err))
    | Inl e \<Rightarrow> (validate_config c = Inl e \<or> (validate_config c = Inr () \<and> mk_logger = Inl e))
        \<and> build_and_run order clock now' bind mk_logger now c = Some (Inl e)"
    using r by (cases "balancer_build mk_logger now c") (simp_all add: build_and_run_def)
qed (simp_all add: validate_config_ok validate_limits_ok validate_health_ok validate_pool_ok
      validate_config_ignores_timeouts accept_connection_def set_read_timeout_def)

text \<open>C38: the binary's configuration is the defaults with the two addresses of the environment:
  every non-blank part of the comma-separated list, trimmed and parsed, in order; it needs
  one at least. The parts are the pieces between the commas, and what comes out passes
  validation.\<close>

theorem environment_configures:
  "(main_config parse listen_var (Some raw) = Inr c \<longleftrightarrow>
      (\<exists>a as. parse (case listen_var of Some s \<Rightarrow> s | None \<Rightarrow> lit ''127.0.0.1:8080'') = Inr a
        \<and> list_all2 (\<lambda>part b. parse part = Inr b) (filter (\<lambda>p. p \<noteq> []) (map trim (split_char 44 raw))) as
        \<and> as \<noteq> [] \<and> c = default_config\<lparr>listen := a, backends := as\<rparr>))
   \<and> join_with [44] (split_char 44 raw) = raw \<and> list_all (\<lambda>part. 44 \<notin> set part) (split_char 44 raw)
   \<and> (case main_config parse listen_var backends_var of
        Inr c' \<Rightarrow> validate_config c' = Inr () | Inl e \<Rightarrow> e = EmptyServerList \<or> (\<exists>t. e = ParseError t))"
proof (intro conjI)
  show "main_config parse listen_var (Some raw) = Inr c \<longleftrightarrow>
      (\<exists>a as. parse (case listen_var of Some s \<Rightarrow> s | None \<Rightarrow> lit ''127.0.0.1:8080'') = Inr a
        \<and> list_all2 (\<lambda>part b. parse part = Inr b) (filter (\<lambda>p. p \<noteq> []) (map trim (split_char 44 raw))) as
        \<and> as \<noteq> [] \<and> c = default_config\<lparr>listen := a, backends := as\<rparr>)"
    unfolding main_config_def backends_from_env_def listen_addr_from_env_def Let_def option.case parse_backends_ok [symmetric]
    by (auto simp: result_simps split: if_splits)
  show "join_with [44] (split_char 44 raw) = raw" "list_all (\<lambda>part. 44 \<notin> set part) (split_char 44 raw)"
    using split_char_parts by (auto simp: list_all_iff)
  show "case main_config parse listen_var backends_var of
        Inr c' \<Rightarrow> validate_config c' = Inr () | Inl e \<Rightarrow> e = EmptyServerList \<or> (\<exists>t. e = ParseError t)"
    using main_config_valid main_config_errors by (auto split: sum.splits)
qed

section \<open>Logs and measurements\<close>

text \<open>C39: a log line reads back as the fields of the record, with its time, level, event, role
  and identifiers, if no quoted value ends in a backslash.\<close>

theorem log_line_reads_back:
  assumes "\<not> needs_quotes (lr_event r)" "\<forall>(k, v)\<in>set (lr_fields r). 61 \<notin> set k \<and> value_kept v"
  shows "read_fields (32 # format_line now r) = Some (line_fields now r)"
  using assms by (rule read_fields_line)

theorem log_line_reads_back_witness:
  "read_fields (32 # format_line (Some 5)
      (field (lit ''error'') (lit ''a \"b\" = c'') (with_request ex_req (new_record Warn (lit ''request_failed'') Worker))))
    = Some [(lit ''ts_ms'', lit ''5''), (lit ''level'', lit ''WARN''), (lit ''event'', lit ''request_failed''),
            (lit ''role'', lit ''worker''), (lit ''req_id'', lit ''1''), (lit ''worker_id'', lit ''0''),
            (lit ''error'', lit ''a \"b\" = c'')]"
proof -
  let ?r = "field (lit ''error'') (lit ''a \"b\" = c'') (with_request ex_req (new_record Warn (lit ''request_failed'') Worker))"
  have "\<not> needs_quotes (lr_event ?r)" "\<forall>(k, v)\<in>set (lr_fields ?r). 61 \<notin> set k \<and> value_kept v"
    by (simp_all add: field_def with_request_def new_record_def needs_quotes_def is_ws_def value_kept_def)
  from log_line_reads_back [OF this, of "Some 5"] show ?thesis
    by (simp add: line_fields_def field_def with_request_def new_record_def ex_req_def text_eval)
qed

text \<open>C40: a number of bytes below \<open>2 ^ 53\<close> is printed in the largest unit that is not larger than
  it, with two digits after the point, within half a hundredth of the unit; below 1024 it is
  printed as it is. The rounding can give 1024 of a unit.\<close>

theorem format_bytes_accurate:
  assumes "n < 2 ^ 53"
  shows "(case byte_unit n of
      None \<Rightarrow> n < 2 ^ 10 \<and> format_bytes n = show_nat n @ lit '' bytes''
    | Some (i, u) \<Rightarrow> 2 ^ i \<le> n \<and> (i < 30 \<longrightarrow> n < 2 ^ (i + 10))
        \<and> (i, u) \<in> {(10, lit '' KB''), (20, lit '' MB''), (30, lit '' GB'')}
        \<and> (\<exists>h. format_bytes n = show_nat (h div 100) @ [46, 48 + h mod 100 div 10, 48 + h mod 10] @ u
             \<and> \<bar>200 * int n - 2 * 2 ^ i * int h\<bar> \<le> 2 ^ i))
    \<and> format_bytes (2 ^ 20 - 1) = lit ''1024.00 KB''"
proof (intro conjI)
  have e: "\<bar>200 * int n - 2 * 2 ^ i * int (hundredths n i)\<bar> \<le> 2 ^ i" for i
  proof -
    have "int (2 * 2 ^ i * hundredths n i) \<le> int (2 * 100 * n + 2 ^ i)"
      "int (2 * 100 * n) \<le> int (2 * 2 ^ i * hundredths n i + 2 ^ i)"
      using hundredths_error [where n = n and i = i] by (simp_all only: of_nat_le_iff)
    then show ?thesis by simp
  qed
  show "case byte_unit n of
      None \<Rightarrow> n < 2 ^ 10 \<and> format_bytes n = show_nat n @ lit '' bytes''
    | Some (i, u) \<Rightarrow> 2 ^ i \<le> n \<and> (i < 30 \<longrightarrow> n < 2 ^ (i + 10))
        \<and> (i, u) \<in> {(10, lit '' KB''), (20, lit '' MB''), (30, lit '' GB'')}
        \<and> (\<exists>h. format_bytes n = show_nat (h div 100) @ [46, 48 + h mod 100 div 10, 48 + h mod 10] @ u
             \<and> \<bar>200 * int n - 2 * 2 ^ i * int h\<bar> \<le> 2 ^ i)"
  proof (cases "byte_unit n")
    case None
    with format_bytes_unit [OF assms] show ?thesis by (simp add: byte_unit_def split: if_splits)
  next
    case (Some iu)
    obtain i u where iu: "iu = (i, u)" by force
    with Some have "2 ^ i \<le> n \<and> (i < 30 \<longrightarrow> n < 2 ^ (i + 10)) \<and> (i, u) \<in> {(10, lit '' KB''), (20, lit '' MB''), (30, lit '' GB'')}"
      by (auto simp: byte_unit_def split: if_splits)
    moreover have "format_bytes n = show_nat (hundredths n i div 100)
        @ [46, 48 + hundredths n i mod 100 div 10, 48 + hundredths n i mod 10] @ u"
      using format_bytes_unit [OF assms] Some iu by (simp add: show_hundredths_def)
    ultimately show ?thesis using e [of i] Some iu by auto
  qed
qed (rule bytes_rounded_up)

theorem format_bytes_accurate_witness:
  "\<exists>h. format_bytes 1536 = show_nat (h div 100) @ [46, 48 + h mod 100 div 10, 48 + h mod 10] @ lit '' KB''
     \<and> \<bar>200 * int 1536 - 2 * 2 ^ 10 * int h\<bar> \<le> 2 ^ 10"
proof -
  have "byte_unit 1536 = Some (10, lit '' KB'')" by (simp add: byte_unit_def)
  moreover have "(1536::nat) < 2 ^ 53" by simp
  ultimately show ?thesis using format_bytes_accurate [of 1536] by (simp only: option.case prod.case)
qed

section \<open>Further facts\<close>

text \<open>A body cut short is an error, never passed on as complete.\<close>

lemma truncated_body_rejected:
  assumes "tcp_clean s" "length (tcp_wire s) < len" "len \<le> m"
  shows "\<exists>t. read_fixed_body tcp_read s len m
    = Some (Inl (ParseError (lit ''unexpected end of response body'')), t)"
  using tcp.read_fixed_body_short [OF assms] by (simp only: parse_err_def)

text \<open>What the chunked reader accepts is a chunked body by the grammar, and the body it
  returns is the concatenation of its chunks, within the limit.\<close>

lemma chunked_reader_sound:
  assumes "read_chunked_body tcp_read s m = Some (Inr b, t)" "m < usize_bound - 1"
  shows "\<exists>w. tcp_wire s = w @ tcp_wire t \<and> chunked w b \<and> length b \<le> m"
  using tcp.read_chunked_loop_ok [of m s "[]" b t] assms by (auto simp: read_chunked_body_def)

text \<open>A request head written out from a method, a path and well-formed header fields parses
  back to them, in order; and methods keep their spelling.\<close>

lemma head_roundtrip:
  assumes "list_all scalar (head_text (line # map render_header hs))" "\<not> has_crlf line"
    and "list_all wf_header hs" "split_whitespace line = m # path # ws"
  shows "parse_head (to_utf8 (head_text (line # map render_header hs))) = Inr (parse_method m, path, hs)
    \<and> method_str (parse_method m) = m"
  using parse_head_render [OF from_utf8_to_utf8 [OF assms(1)] assms(2) _ assms(4)] assms(3)
  by (simp add: list_all_iff method_str_parse)

text \<open>A request whose head never ends is refused, as too large once it is longer than the
  limit and as empty otherwise.\<close>

lemma unending_head_refused:
  assumes "tcp_clean s" "find_subslice (tcp_wire s) header_end = None"
  shows "\<exists>t. request_from_stream tcp_read l s =
    Some (Inl (if max_header_bytes l < length (tcp_wire s)
               then ParseError (lit ''header block exceeds maximum size'') else EmptyRequest), t)"
proof -
  have "find_subslice ([] @ tcp_wire s) header_end = None" using assms(2) by simp
  from tcp.read_header_block_no_end [OF assms(1) this, of "max_header_bytes l"] obtain t where
    "read_header_block tcp_read (max_header_bytes l) s [] =
      Some (Inl (if max_header_bytes l < length (tcp_wire s)
               then ParseError (lit ''header block exceeds maximum size'') else EmptyRequest), t)"
    by (auto simp: parse_err_def)
  then show ?thesis by (simp add: request_from_stream_def)
qed

text \<open>The log file consists of one line per record written, in order, if no record holds a
  line feed.\<close>

lemma log_file_lines:
  assumes "\<forall>r\<in>set (logger_accepted lg). lf \<notin> set (lr_event r)
    \<and> (\<forall>(k, v)\<in>set (lr_fields r). lf \<notin> set k \<and> lf \<notin> set v)"
  shows "split_char lf (logger_text lg) = map (\<lambda>(now, r). format_line now r) (lg_lines lg) @ [[]]"
proof (rule logger_text_lines)
  show "\<forall>(now, r)\<in>set (lg_lines lg). lf \<notin> set (format_line now r)"
    using assms format_line_no_lf unfolding logger_accepted_def by fastforce
qed

text \<open>The average latency of the snapshot is the mean of the recorded durations, rounded
  down, as long as fewer than \<open>2 ^ 32\<close> requests were recorded; from then on it is the total.\<close>

lemma snapshot_average:
  assumes "sts \<noteq> []" "length sts < 2 ^ 64"
  shows "sn_avg_latency (snapshot dropped (recorded sts (default_metrics now)))
    = (\<Sum>st\<leftarrow>sts. st_duration st) div (if length sts < 2 ^ 32 then length sts else 1)"
proof -
  have c: "counts sts (recorded sts (default_metrics now))"
    using counts_recorded [OF counts_default, of sts now] by simp
  have "unat (mt_total_requests (recorded sts (default_metrics now))) = length sts"
    using c assms(2) by (simp add: counts_def unsigned_of_nat take_bit_nat_eq_self)
  then show ?thesis
    using avg_latency_exact [OF c assms(1)] avg_latency_beyond [of "recorded sts (default_metrics now)"] c
    by (simp add: snapshot_def counts_def)
qed

text \<open>Decoding and encoding UTF-8 are inverse on texts of scalar values.\<close>

lemma utf8_roundtrip: "from_utf8 bs = Some s \<longleftrightarrow> list_all scalar s \<and> bs = to_utf8 s"
  using from_utf8_scalar to_utf8_from_utf8 from_utf8_to_utf8 by auto

text \<open>The 503 reply the balancer writes itself is a response: a reader with the default limits
  accepts it and keeps its status line and its body.\<close>

lemma unavailable_reply_accepted:
  assumes "write_service_unavailable message sk = (Inr (), sk')" "outbound sk = []"
    and "tcp_clean s" "tcp_wire s = outbound sk'"
    and "length (to_utf8 (service_unavailable_body message)) \<le> max_response_bytes default_limits"
  shows "\<exists>t n. read_http_response tcp_read default_limits s
      = Some (Inr (to_utf8 (reply_rebuilt service_unavailable_line n)
                   @ to_utf8 (service_unavailable_body message)), t)
    \<and> n = length (to_utf8 (service_unavailable_body message))"
proof -
  let ?n = "length (to_utf8 (service_unavailable_body message))"
  have w: "tcp_wire s = to_utf8 (reply_text service_unavailable_line (service_unavailable_body message))"
    using send_and_close_ok assms(1,2,4) unfolding write_service_unavailable_def by fastforce
  have n: "?n < 10 ^ 9" using assms(5) by (simp add: default_limits_def)
  have "length (show_nat ?n) \<le> 9" by (rule length_show_nat [OF n]) simp
  moreover have "to_utf8 (show_nat ?n) = map of_nat (show_nat ?n)"
    by (rule to_utf8_ascii) (use show_nat_chars in fastforce)
  ultimately have "length (to_utf8 (reply_head service_unavailable_line ?n)) \<le> max_header_bytes default_limits + 1"
    by (simp add: reply_head_def reply_headers_def content_length_header_def render_header_def head_text_def
        service_unavailable_line_def default_limits_def utf8_char_def)
  moreover have "?n < usize_bound" using n by (simp add: usize_bound_def)
  ultimately show ?thesis
    using reply_reads_back [OF service_unavailable_plain assms(3) w _ assms(5)] by blast
qed

text \<open>Shutting down while no operation is under way returns, after the whole grace period, with
  every queued connection answered 503 and every queued statistics record counted.\<close>

lemma idle_shutdown_completes:
  assumes "balancer_build mk_logger now c = Inr b" "reachable order c (initial b) y" "idle y"
  shows "\<exists>b'. balancer_shutdown order clock' now' False grace (b\<lparr>bl_state := sy_state y\<rparr>)
      = Some (Inr \<lparr>sr_connections_dropped = 0, sr_joined_cleanly = True\<rparr>, await_deadline grace,
              map shutting_down_reply (queued (ps_pool (sy_state y))), b')
    \<and> queued (ps_pool (bl_state b')) = []
    \<and> wd_metrics (ps_world (bl_state b'))
        = recorded (queue (wd_stats (ps_world (sy_state y)))) (wd_metrics (ps_world (sy_state y)))"
proof -
  have "bl_health_running (b\<lparr>bl_state := sy_state y\<rparr>)" "running 1 (bl_state (b\<lparr>bl_state := sy_state y\<rparr>))"
    using balancer_build_running [OF assms(1)] reachable_running [OF assms(1,2)] by simp_all
  from balancer_shutdown_returns [OF this(2,1), of order clock' now' grace] show ?thesis
    by (auto simp: queued_def)
qed

section \<open>Limits of the program\<close>

text \<open>A backend configured twice has a second entry that stays healthy whatever the probes find.\<close>

lemma duplicate_backend_stays_healthy:
  "be_healthy (entries (fst (probe_trace c (replicate n (a, False)) (new_backend_set [a, a]))) ! 1)"
  unfolding duplicate_stays_healthy by (simp add: new_entry_def)

text \<open>Near the end of the range of the cursor a healthy backend can be missed: the sum of cursor
  and offset wraps, and the positions tried are no longer all positions.\<close>

lemma wrapping_cursor_misses:
  "fst (select_next ex_wrapping) = Inl NoHealthyBackend \<and> healthy_count ex_wrapping = 1"
proof -
  have "unat (- 1 :: u64) mod 3 = 0" by (simp add: unsigned_minus_1_eq_mask mask_eq_exp_minus_1)
  then have "scan_from (entries ex_wrapping) (- 1) 0 (Suc (Suc (Suc 0))) = None"
    by (simp add: ex_wrapping_def new_entry_def Let_def)
  then show ?thesis
    by (simp add: ex_wrapping_def select_next_def new_entry_def healthy_count_def Let_def)
qed

text \<open>A line feed in a value ends up in the line.\<close>

lemma line_feed_kept: "lf \<in> set v \<Longrightarrow> lf \<in> set (write_field key v)"
  by (rule write_field_lf)

text \<open>A server created from a context has the default retries, health and pool settings.\<close>

lemma create_server_defaults:
  "\<exists>c. create_server order clock now bind mk_logger start cx ro = build_and_run order clock now bind mk_logger start c
     \<and> max_backend_retries c = 1 \<and> health c = default_health \<and> pool c = default_pool"
  unfolding create_server_def using create_server_config_drops by blast

text \<open>A search reads the flags one by one, so with two backends that swap their states between
  two loads it finds none healthy, though one is at every moment.\<close>

lemma torn_search_misses:
  defines "at h k \<equiv> ex_world\<lparr>wd_routing := rr_new \<lparr>entries = [(new_entry ex_addr)\<lparr>be_healthy := h\<rparr>,
      (new_entry ex_addr)\<lparr>be_healthy := \<not> h\<rparr>], next_index = k\<rparr>\<rparr>"
  shows "\<exists>s s'. script_step (select_script [ex_addr, ex_addr] Return) (at False 0) = Some (s, at False 1)
    \<and> script_step s (at False 1) = Some (s', at False 1)
    \<and> script_step s' (at True 1) = Some (Return (Inl NoHealthyBackend), at True 1)
    \<and> healthy_count (registry (at h k)) = 1"
  by (cases h) (simp_all add: at_def select_script_def registry_def rr_new_def advance_cursor_def healthy_count_def
      numeral_2_eq_2 Let_def unsigned_of_nat)

end
